(* ===== verification/Prelude.thy ===== *)
theory Prelude
  imports Main "HOL-Library.AList"
begin

text \<open>
  What every component of the development shares: the JavaScript values and library calls the
  code uses (optional fields, truthiness, \<open>??\<close>, \<open>Map\<close>, object literals, array reads), the
  majority that every service computes from the size of the cluster, and the generic lemmas on
  lists and association lists that the component theories use.

  Conventions. A field or argument that may be \<open>undefined\<close> or \<open>null\<close> is an \<open>option\<close>. A
  JavaScript \<open>Map\<close> whose iteration order is observable is an association list in insertion
  order: \<open>map_of\<close> is \<open>get\<close>, \<open>AList.update\<close> is \<open>set\<close> (a key that is present keeps its
  position, a new key goes to the end) and \<open>AList.delete\<close> is \<open>delete\<close>. A \<open>Map\<close> or \<open>Set\<close>
  that is only looked up is a map or a set. Terms, indices, counters and milliseconds are the
  non-negative integers the code keeps in doubles below $2^{53}$, so they are \<open>nat\<close>.
\<close>

named_theorems js_defs "definitions of the JavaScript helpers"
named_theorems op_defs "definitions of the operations of the components"

type_synonym url = string

section \<open>JavaScript values\<close>

text \<open>\<open>x ?? d\<close>\<close>
definition nullish :: "'a option \<Rightarrow> 'a \<Rightarrow> 'a" where
  [js_defs]: "nullish x d = (case x of None \<Rightarrow> d | Some v \<Rightarrow> v)"

text \<open>A string in a condition: \<open>undefined\<close>, \<open>null\<close> and the empty string are false.\<close>
definition js_truthy :: "string option \<Rightarrow> bool" where
  [js_defs]: "js_truthy s = (case s of None \<Rightarrow> False | Some t \<Rightarrow> t \<noteq> [])"

text \<open>\<open>xs[i]\<close>: out of range reads are \<open>undefined\<close>.\<close>
definition js_at :: "'a list \<Rightarrow> nat \<Rightarrow> 'a option" where
  [js_defs]: "js_at xs i = (if i < length xs then Some (xs ! i) else None)"

text \<open>\<open>xs.slice(k)\<close> and \<open>xs.slice(0, n)\<close> for non-negative arguments.\<close>
definition js_slice :: "nat \<Rightarrow> 'a list \<Rightarrow> 'a list" where
  [js_defs]: "js_slice k xs = drop k xs"

text \<open>
  A number as JSON text can give it: the double $m / 2^k$, or an infinity (\<open>1e999\<close>). Strokes
  carry such numbers; only the gateway's validation looks at them.
\<close>
datatype number = Finite int nat | Infinite bool

abbreviation whole :: "int \<Rightarrow> number" where
  "whole m \<equiv> Finite m 0"

lemma nullish_simps [simp]: "nullish None d = d" "nullish (Some v) d = v"
  by (simp_all add: nullish_def)

lemma js_truthy_simps [simp]: "\<not> js_truthy None" "js_truthy (Some t) \<longleftrightarrow> t \<noteq> []"
  by (simp_all add: js_truthy_def)

lemma js_truthyE: "js_truthy s \<Longrightarrow> (\<And>t. s = Some t \<Longrightarrow> t \<noteq> [] \<Longrightarrow> P) \<Longrightarrow> P"
  by (cases s) auto

lemma js_at_Some_iff: "js_at xs i = Some x \<longleftrightarrow> i < length xs \<and> xs ! i = x"
  by (auto simp: js_at_def)

lemma js_at_None_iff [simp]: "js_at xs i = None \<longleftrightarrow> length xs \<le> i"
  by (auto simp: js_at_def)

lemma js_at_append: "js_at (xs @ ys) i = (if i < length xs then js_at xs i else js_at ys (i - length xs))"
  by (auto simp: js_at_def nth_append)

lemma js_at_take: "js_at (take n xs) i = (if i < n then js_at xs i else None)"
  by (auto simp: js_at_def)

lemma js_at_drop: "js_at (drop n xs) i = js_at xs (n + i)"
  by (auto simp: js_at_def)

lemma js_at_mem: "js_at xs i = Some x \<Longrightarrow> x \<in> set xs"
  by (auto simp: js_at_def split: if_splits)

section \<open>Strings\<close>

text \<open>\<open>s.split(c)\<close> for one character.\<close>
fun js_split :: "char \<Rightarrow> string \<Rightarrow> string list" where
  "js_split c [] = [[]]"
| "js_split c (x # xs) =
     (if x = c then [] # js_split c xs
      else (case js_split c xs of [] \<Rightarrow> [[x]] | l # ls \<Rightarrow> (x # l) # ls))"

lemma js_split_not_Nil [simp]: "js_split c s \<noteq> []"
  by (cases s) (auto split: list.split)

lemma js_split_part:
  assumes "c \<notin> set l"
  shows "js_split c (l @ c # s) = l # js_split c s" "js_split c l = [l]"
  using assms by (induction l) auto

text \<open>The white space of \<open>trim\<close> and \<open>parseInt\<close> below 256.\<close>
definition js_space :: "char \<Rightarrow> bool" where
  [js_defs]: "js_space c \<longleftrightarrow> (of_char c :: nat) \<in> {9, 10, 11, 12, 13, 32, 160}"

definition js_trim :: "string \<Rightarrow> string" where
  [js_defs]: "js_trim s = rev (dropWhile js_space (rev (dropWhile js_space s)))"

section \<open>Object literals keyed by strings\<close>

text \<open>
  \<open>o[k] = v\<close> on an object literal. Assigning to the key \<open>__proto__\<close> sets the prototype
  and creates no own property, so neither \<open>JSON.stringify\<close> nor \<open>Object.values\<close> sees it.
\<close>
definition js_object_set :: "string \<Rightarrow> 'v \<Rightarrow> (string \<times> 'v) list \<Rightarrow> (string \<times> 'v) list" where
  [js_defs]: "js_object_set k v obj = (if k = ''__proto__'' then obj else AList.update k v obj)"

text \<open>
  The own properties of an object in the order the language lists them: the keys that are
  array indices in ascending order, then the others in the order of their creation.
\<close>
definition is_digit :: "char \<Rightarrow> bool" where
  "is_digit c \<longleftrightarrow> 48 \<le> (of_char c :: nat) \<and> (of_char c :: nat) \<le> 57"

definition digits_value :: "string \<Rightarrow> nat" where
  "digits_value s = foldl (\<lambda>n c. 10 * n + (of_char c - 48)) 0 s"

text \<open>\<open>parseInt(s, 10)\<close>, with \<open>None\<close> for \<open>NaN\<close>.\<close>
definition js_parseInt :: "string \<Rightarrow> int option" where
  [js_defs]: "js_parseInt s =
     (let t = dropWhile js_space s;
          neg = (t \<noteq> [] \<and> hd t = CHR ''-'');
          ds = takeWhile is_digit (if t \<noteq> [] \<and> hd t \<in> {CHR ''-'', CHR ''+''} then tl t else t)
      in if ds = [] then None else Some (if neg then - int (digits_value ds) else int (digits_value ds)))"

definition is_array_index :: "string \<Rightarrow> bool" where
  "is_array_index s \<longleftrightarrow> s \<noteq> [] \<and> list_all is_digit s \<and> (s = ''0'' \<or> hd s \<noteq> CHR ''0'') \<and>
     digits_value s < 4294967295"

definition js_own_order :: "(string \<times> 'v) list \<Rightarrow> (string \<times> 'v) list" where
  "js_own_order obj =
     sort_key (digits_value \<circ> fst) (filter (is_array_index \<circ> fst) obj)
     @ filter (Not \<circ> is_array_index \<circ> fst) obj"

lemma set_js_own_order [simp]: "set (js_own_order obj) = set obj"
  by (auto simp: js_own_order_def)

lemma distinct_map_filter_append:
  assumes "distinct (map fst xs)"
  shows "distinct (map fst (filter P xs @ filter (Not \<circ> P) xs))"
proof -
  have "inj_on fst (set xs)" "distinct xs"
    using assms by (auto simp: distinct_map)
  then show ?thesis
    by (auto simp: distinct_map inj_on_def)
qed

lemma distinct_js_own_order:
  assumes "distinct (map fst obj)"
  shows "distinct (map fst (js_own_order obj))"
proof -
  have d: "distinct obj" and i: "inj_on fst (set obj)"
    using assms by (auto simp: distinct_map)
  have "distinct (js_own_order obj)"
    using d by (auto simp: js_own_order_def)
  then show ?thesis
    using i by (simp add: distinct_map)
qed

lemma map_of_js_own_order:
  assumes "distinct (map fst obj)"
  shows "map_of (js_own_order obj) = map_of obj"
  using assms distinct_js_own_order[OF assms]
  by (simp add: map_of_inject_set)

section \<open>Lists\<close>

lemma filter_fst_eq_map_of:
  assumes "distinct (map fst xs)"
  shows "filter (\<lambda>p. fst p = k) xs = (case map_of xs k of None \<Rightarrow> [] | Some v \<Rightarrow> [(k, v)])"
  using assms
proof (induction xs)
  case (Cons p xs)
  show ?case
  proof (cases "fst p = k")
    case True
    then have "map_of xs k = None" using Cons.prems by (simp add: map_of_eq_None_iff)
    with True Cons show ?thesis by (cases p) simp
  next
    case False
    with Cons show ?thesis by (cases p) simp
  qed
qed simp

lemma find_append: "List.find P (xs @ ys) = (case List.find P xs of None \<Rightarrow> List.find P ys | Some x \<Rightarrow> Some x)"
  by (induction xs) auto

lemma find_SomeD: "List.find P xs = Some x \<Longrightarrow> x \<in> set xs \<and> P x"
  by (induction xs) (auto split: if_splits)

lemma find_Some_exI: "x \<in> set xs \<Longrightarrow> P x \<Longrightarrow> \<exists>y. List.find P xs = Some y"
  by (induction xs) auto

lemma set_update_subset: "set (AList.update k v al) \<subseteq> insert (k, v) (set al)"
  by (induction al) auto

lemma set_delete_subset: "set (AList.delete k al) \<subseteq> set al"
  by (induction al) auto

section \<open>Majorities\<close>

text \<open>
  \<open>Math.floor((peers.length + 1) / 2) + 1\<close>: the number of nodes, this one included, that the
  replica requires for an election, a commit and a confirmed read.
\<close>
definition majority :: "nat \<Rightarrow> nat" where
  "majority n_peers = (n_peers + 1) div 2 + 1"

lemma majority_gt_half: "n_peers + 1 < 2 * majority n_peers"
  by (simp add: majority_def)

lemma majority_le_cluster: "majority n_peers \<le> n_peers + 1"
  by (simp add: majority_def)

text \<open>Two sets that are each a quorum of one finite cluster share a member.\<close>
locale quorum_system =
  fixes quorum :: "'n set \<Rightarrow> 'n set \<Rightarrow> bool"
  assumes quorum_subset: "quorum M A \<Longrightarrow> A \<subseteq> M"
    and quorum_size: "quorum M A \<Longrightarrow> card M < 2 * card A"
    and quorum_finite: "quorum M A \<Longrightarrow> finite M"
begin

lemma quorum_intersect:
  assumes "quorum M A" and "quorum M B"
  shows "\<exists>v. v \<in> A \<and> v \<in> B"
proof (rule ccontr)
  assume "\<nexists>v. v \<in> A \<and> v \<in> B"
  then have disj: "A \<inter> B = {}" by blast
  have fin: "finite A" "finite B"
    using assms quorum_subset quorum_finite finite_subset by blast+
  have "card A + card B = card (A \<union> B)"
    using disj fin by (simp add: card_Un_disjoint)
  also have "\<dots> \<le> card M"
    using quorum_subset[OF assms(1)] quorum_subset[OF assms(2)] quorum_finite[OF assms(1)]
    by (simp add: card_mono)
  finally show False
    using quorum_size[OF assms(1)] quorum_size[OF assms(2)] by simp
qed

lemma quorum_nonempty: "quorum M A \<Longrightarrow> A \<noteq> {}"
  using quorum_intersect by blast

end

text \<open>The quorums of the code: at least \<open>majority\<close> of the members, for a cluster of the peers and the node.\<close>
definition majority_of :: "'n set \<Rightarrow> 'n set \<Rightarrow> bool" where
  "majority_of M A \<longleftrightarrow> finite M \<and> A \<subseteq> M \<and> majority (card M - 1) \<le> card A"

interpretation cluster_quorums: quorum_system majority_of
proof unfold_locales
  fix M A :: "'n set"
  assume q: "majority_of M A"
  then show "A \<subseteq> M" "finite M" by (simp_all add: majority_of_def)
  have "card A \<le> card M" using q by (auto simp: majority_of_def intro: card_mono)
  then have "1 \<le> card M" using q by (simp add: majority_of_def majority_def)
  then have "(card M - 1) + 1 = card M" by simp
  then show "card M < 2 * card A"
    using q majority_gt_half[of "card M - 1"] by (simp add: majority_of_def)
qed

end
