(* ===== verification/Replica_Types.thy ===== *)
theory Replica_Types
  imports Prelude
begin

text \<open>
  The data types of \<open>replica/src/types.ts\<close>, in its order: strokes, node states, log entries,
  the arguments and results of the five RPCs, snapshots, client writes and reads, and the status
  record. Each interface is a record whose field names carry the interface's initials where two
  interfaces share a field name. Optional fields are \<open>option\<close>s. The replica carries widths, points and
  timestamps without looking at them. The gateway does not check the width and the points of an undo or
  a redo, so these two fields hold whatever \<open>JSON.parse\<close> gave, or nothing.
\<close>

section \<open>Parsed JSON\<close>

text \<open>An object is the list of its own properties; \<open>JSON.parse\<close> keeps one value per key.\<close>
datatype json =
    JNull
  | JBool bool
  | JNum number
  | JStr string
  | JArr "json list"
  | JObj "(string \<times> json) list"

text \<open>\<open>v.k\<close> for a name that no prototype has; \<open>None\<close> is \<open>undefined\<close>.\<close>
fun js_prop :: "string \<Rightarrow> json \<Rightarrow> json option" where
  "js_prop k (JObj kvs) = map_of kvs k"
| "js_prop k _ = None"

text \<open>\<open>!v\<close>\<close>
fun js_falsy :: "json option \<Rightarrow> bool" where
  "js_falsy None \<longleftrightarrow> True"
| "js_falsy (Some JNull) \<longleftrightarrow> True"
| "js_falsy (Some (JBool b)) \<longleftrightarrow> \<not> b"
| "js_falsy (Some (JNum (Finite m k))) \<longleftrightarrow> m = 0"
| "js_falsy (Some (JStr s)) \<longleftrightarrow> s = []"
| "js_falsy _ \<longleftrightarrow> False"

section \<open>Strokes\<close>

datatype action = ActStroke | ActUndo | ActRedo

record stroke =
  strokeId :: string
  boardId :: string
  userId :: string
  color :: string
  width :: "json option"
  points :: "json option"
  timestamp :: number
  action :: "action option"
  targetStrokeId :: "string option"

text \<open>The fields of a stroke that is drawn: a number, and pairs of numbers.\<close>
definition json_width :: "number \<Rightarrow> json option" where
  "json_width w = Some (JNum w)"

definition json_points :: "(number \<times> number) list \<Rightarrow> json option" where
  "json_points ps = Some (JArr (map (\<lambda>(x, y). JArr [JNum x, JNum y]) ps))"

definition point_count :: "stroke \<Rightarrow> nat" where
  "point_count s = (case points s of Some (JArr ps) \<Rightarrow> length ps | _ \<Rightarrow> 0)"

text \<open>\<open>event.action ?? 'stroke'\<close>\<close>
abbreviation action_of :: "stroke \<Rightarrow> action" where
  "action_of s \<equiv> nullish (action s) ActStroke"

section \<open>Node states and log entries\<close>

datatype node_state = Follower | Candidate | Leader

record log_entry =
  e_index :: nat
  e_term :: nat
  e_stroke :: stroke

section \<open>Snapshots\<close>

record snapshot =
  sn_lastIncludedIndex :: nat
  sn_lastIncludedTerm :: nat
  sn_boards :: "(string \<times> stroke list) list"

section \<open>Remote procedure calls\<close>

record request_vote_args =
  rv_term :: nat
  rv_candidateId :: string
  rv_lastLogIndex :: nat
  rv_lastLogTerm :: nat

record request_vote_result =
  rvr_term :: nat
  rvr_voteGranted :: bool
  rvr_responderId :: string

record append_entries_args =
  ae_term :: nat
  ae_leaderId :: string
  ae_leaderAddr :: "url option"
  ae_prevLogIndex :: nat
  ae_prevLogTerm :: nat
  ae_entries :: "log_entry list"
  ae_leaderCommit :: nat

record append_entries_result =
  aer_term :: nat
  aer_success :: bool
  aer_responderId :: string
  aer_currentLogLength :: nat

record heartbeat_args =
  hb_term :: nat
  hb_leaderId :: string
  hb_leaderAddr :: "url option"
  hb_leaderCommit :: nat

record heartbeat_result =
  hbr_term :: nat
  hbr_success :: bool
  hbr_responderId :: string

record sync_log_args =
  sl_fromIndex :: nat
  sl_term :: nat
  sl_leaderId :: string

record sync_log_result =
  slr_term :: nat
  slr_entries :: "log_entry list"
  slr_commitIndex :: nat
  slr_snapshot :: "snapshot option"

record install_snapshot_args =
  is_term :: nat
  is_leaderId :: string
  is_lastIncludedIndex :: nat
  is_lastIncludedTerm :: nat
  is_boards :: "(string \<times> stroke list) list"

record install_snapshot_result =
  isr_term :: nat
  isr_responderId :: string

section \<open>Client writes, reads and status\<close>

record client_write_result =
  cw_success :: bool
  cw_leaderHint :: "url option"

record read_board_state_result =
  rb_success :: bool
  rb_strokes :: "stroke list option"
  rb_leaderHint :: "url option"

record replica_status =
  st_replicaId :: string
  st_state :: node_state
  st_currentTerm :: nat
  st_leaderId :: "string option"
  st_logLength :: nat
  st_commitIndex :: nat
  st_lastApplied :: nat

end
