(* ===== verification/Persistence.thy ===== *)
theory Persistence
  imports Replica_Types
begin

text \<open>
  The durable state of a replica, \<open>replica/src/persistence.ts\<close>: the interface
  \<open>Persistence\<close>, its in-memory default, and the values that \<open>FilePersistence\<close> keeps on disk
  (\<open>state.json\<close>, the write-ahead log, \<open>snapshot.json\<close>). Every mutating call is recorded in
  \<open>calls\<close>, so that a crash between two calls can be stated: the disk after a crash is the old
  disk with some first part of the new calls carried out. A single call is atomic here.
\<close>

section \<open>Values kept on disk\<close>

record persisted_state =
  ps_currentTerm :: nat
  ps_votedFor :: "string option"
  ps_commitIndex :: nat

record disk =
  d_state :: "persisted_state option"
  d_log :: "log_entry list"
  d_snapshot :: "snapshot option"

definition empty_disk :: disk where
  "empty_disk = \<lparr>d_state = None, d_log = [], d_snapshot = None\<rparr>"

datatype pcall =
    SaveState persisted_state
  | AppendLog log_entry
  | RewriteLog "log_entry list"
  | SaveSnapshot snapshot

fun disk_do :: "disk \<Rightarrow> pcall \<Rightarrow> disk" where
  "disk_do d (SaveState s) = d\<lparr>d_state := Some s\<rparr>"
| "disk_do d (AppendLog e) = d\<lparr>d_log := d_log d @ [e]\<rparr>"
| "disk_do d (RewriteLog es) = d\<lparr>d_log := es\<rparr>"
| "disk_do d (SaveSnapshot s) = d\<lparr>d_snapshot := Some s\<rparr>"

section \<open>The interface and its two classes\<close>

datatype pkind = MemoryPersistence | FilePersistence

record persistence =
  pkind :: pkind
  disk :: disk
  calls :: "pcall list"

definition persist_call :: "persistence \<Rightarrow> pcall \<Rightarrow> persistence" where
  "persist_call p c =
     (case pkind p of
        MemoryPersistence \<Rightarrow> p\<lparr>calls := calls p @ [c]\<rparr>
      | FilePersistence \<Rightarrow> p\<lparr>disk := disk_do (disk p) c, calls := calls p @ [c]\<rparr>)"

definition loadState :: "persistence \<Rightarrow> persisted_state" where
  "loadState p =
     (let default = \<lparr>ps_currentTerm = 0, ps_votedFor = None, ps_commitIndex = 0\<rparr> in
      case pkind p of
        MemoryPersistence \<Rightarrow> default
      | FilePersistence \<Rightarrow> nullish (d_state (disk p)) default)"

definition saveState :: "persistence \<Rightarrow> persisted_state \<Rightarrow> persistence" where
  "saveState p s = persist_call p (SaveState s)"

definition loadLog :: "persistence \<Rightarrow> log_entry list" where
  "loadLog p = (case pkind p of MemoryPersistence \<Rightarrow> [] | FilePersistence \<Rightarrow> d_log (disk p))"

definition appendLog :: "persistence \<Rightarrow> log_entry \<Rightarrow> persistence" where
  "appendLog p e = persist_call p (AppendLog e)"

definition rewriteLog :: "persistence \<Rightarrow> log_entry list \<Rightarrow> persistence" where
  "rewriteLog p es = persist_call p (RewriteLog es)"

definition loadSnapshot :: "persistence \<Rightarrow> snapshot option" where
  "loadSnapshot p = (case pkind p of MemoryPersistence \<Rightarrow> None | FilePersistence \<Rightarrow> d_snapshot (disk p))"

definition saveSnapshot :: "persistence \<Rightarrow> snapshot \<Rightarrow> persistence" where
  "saveSnapshot p s = persist_call p (SaveSnapshot s)"

lemmas persistence_ops = loadState_def saveState_def loadLog_def appendLog_def rewriteLog_def
  loadSnapshot_def saveSnapshot_def persist_call_def

lemma pkind_ops [simp]:
  "pkind (saveState p s) = pkind p" "pkind (appendLog p e) = pkind p"
  "pkind (rewriteLog p es) = pkind p" "pkind (saveSnapshot p sn) = pkind p"
  by (simp_all add: persistence_ops split: pkind.split)

lemma calls_ops [simp]:
  "calls (saveState p s) = calls p @ [SaveState s]" "calls (appendLog p e) = calls p @ [AppendLog e]"
  "calls (rewriteLog p es) = calls p @ [RewriteLog es]" "calls (saveSnapshot p sn) = calls p @ [SaveSnapshot sn]"
  by (simp_all add: persistence_ops split: pkind.split)

section \<open>The contract of a durable store\<close>

text \<open>
  What the node relies on: each part reads back what was last written to it, and writing one part
  leaves the others alone.
\<close>
locale durable_store =
  fixes load_state :: "'p \<Rightarrow> persisted_state"
    and save_state :: "'p \<Rightarrow> persisted_state \<Rightarrow> 'p"
    and load_log :: "'p \<Rightarrow> log_entry list"
    and append_log :: "'p \<Rightarrow> log_entry \<Rightarrow> 'p"
    and rewrite_log :: "'p \<Rightarrow> log_entry list \<Rightarrow> 'p"
    and load_snapshot :: "'p \<Rightarrow> snapshot option"
    and save_snapshot :: "'p \<Rightarrow> snapshot \<Rightarrow> 'p"
    and durable :: "'p \<Rightarrow> bool"
  assumes durable_save: "durable p \<Longrightarrow> durable (save_state p s)"
      "durable p \<Longrightarrow> durable (append_log p e)"
      "durable p \<Longrightarrow> durable (rewrite_log p es)"
      "durable p \<Longrightarrow> durable (save_snapshot p sn)"
    and state_saved: "durable p \<Longrightarrow> load_state (save_state p s) = s"
      "durable p \<Longrightarrow> load_state (append_log p e) = load_state p"
      "durable p \<Longrightarrow> load_state (rewrite_log p es) = load_state p"
      "durable p \<Longrightarrow> load_state (save_snapshot p sn) = load_state p"
    and log_saved: "durable p \<Longrightarrow> load_log (save_state p s) = load_log p"
      "durable p \<Longrightarrow> load_log (append_log p e) = load_log p @ [e]"
      "durable p \<Longrightarrow> load_log (rewrite_log p es) = es"
      "durable p \<Longrightarrow> load_log (save_snapshot p sn) = load_log p"
    and snapshot_saved: "durable p \<Longrightarrow> load_snapshot (save_state p s) = load_snapshot p"
      "durable p \<Longrightarrow> load_snapshot (append_log p e) = load_snapshot p"
      "durable p \<Longrightarrow> load_snapshot (rewrite_log p es) = load_snapshot p"
      "durable p \<Longrightarrow> load_snapshot (save_snapshot p sn) = Some sn"
begin

lemma append_many:
  "durable p \<Longrightarrow> load_log (foldl append_log p es) = load_log p @ es \<and>
     load_state (foldl append_log p es) = load_state p \<and>
     load_snapshot (foldl append_log p es) = load_snapshot p"
  by (induction es arbitrary: p) (simp_all add: durable_save state_saved log_saved snapshot_saved)

lemmas load_saved = state_saved log_saved snapshot_saved

end

interpretation file_store: durable_store loadState saveState loadLog appendLog rewriteLog
    loadSnapshot saveSnapshot "\<lambda>p. pkind p = FilePersistence"
  by unfold_locales (simp_all add: persistence_ops)

section \<open>Crashes\<close>

text \<open>
  The store found after a crash that let the first \<open>k\<close> of the calls \<open>cs\<close> reach the disk, and
  the store a node opens again afterwards.
\<close>
definition crash_after :: "persistence \<Rightarrow> nat \<Rightarrow> pcall list \<Rightarrow> persistence" where
  "crash_after p k cs = foldl persist_call p (take k cs)"

definition new_calls :: "persistence \<Rightarrow> persistence \<Rightarrow> pcall list" where
  "new_calls p p' = drop (length (calls p)) (calls p')"

lemma pkind_persist_call [simp]: "pkind (persist_call p c) = pkind p"
  by (simp add: persist_call_def split: pkind.split)

lemma pkind_crash_after [simp]: "pkind (crash_after p k cs) = pkind p"
proof -
  have "pkind (foldl persist_call p xs) = pkind p" for xs
    by (induction xs arbitrary: p) simp_all
  then show ?thesis by (simp add: crash_after_def)
qed

end
