(* ===== verification/Raft_Log.thy ===== *)
theory Raft_Log
  imports Persistence
begin

text \<open>
  The class \<open>RaftLog\<close> of \<open>replica/src/raftLog.ts\<close>: the entries after the snapshot boundary and
  the boundary itself. The node and its log share one persistence object, which the model keeps in
  the log. The locale \<open>indexed_log\<close> is the interface the node's handlers use (a partial map from
  absolute indices that is appended to and truncated); the merging of received entries is proved
  correct inside it, once for every log that keeps the contract.
\<close>

section \<open>State and operations\<close>

record raft_log =
  entries :: "log_entry list"
  lastIncludedIndex :: nat
  lastIncludedTerm :: nat
  persistence :: persistence

definition new_RaftLog :: "persistence \<Rightarrow> raft_log" where
  "new_RaftLog p =
     (let l = \<lparr>entries = loadLog p, lastIncludedIndex = 0, lastIncludedTerm = 0, persistence = p\<rparr> in
      case loadSnapshot p of
        None \<Rightarrow> l
      | Some sn \<Rightarrow>
          let l1 = l\<lparr>lastIncludedIndex := sn_lastIncludedIndex sn, lastIncludedTerm := sn_lastIncludedTerm sn\<rparr>
          in l1\<lparr>entries := filter (\<lambda>e. lastIncludedIndex l1 < e_index e) (entries l1)\<rparr>)"

definition log_append :: "raft_log \<Rightarrow> log_entry \<Rightarrow> raft_log" where
  "log_append l entry = l\<lparr>entries := entries l @ [entry], persistence := appendLog (persistence l) entry\<rparr>"

definition getEntry :: "raft_log \<Rightarrow> nat \<Rightarrow> log_entry option" where
  "getEntry l index =
     (if index \<le> lastIncludedIndex l then None
      else js_at (entries l) (index - lastIncludedIndex l - 1))"

definition getTermAt :: "raft_log \<Rightarrow> nat \<Rightarrow> nat" where
  "getTermAt l index =
     (if index = lastIncludedIndex l then lastIncludedTerm l
      else nullish (map_option e_term (getEntry l index)) 0)"

definition getLastIndex :: "raft_log \<Rightarrow> nat" where
  "getLastIndex l = lastIncludedIndex l + length (entries l)"

definition getLastTerm :: "raft_log \<Rightarrow> nat" where
  "getLastTerm l =
     (if length (entries l) = 0 then lastIncludedTerm l
      else e_term (entries l ! (length (entries l) - 1)))"

definition getEntriesFrom :: "raft_log \<Rightarrow> nat \<Rightarrow> log_entry list" where
  "getEntriesFrom l startIndex =
     (let start = (if startIndex \<le> lastIncludedIndex l then lastIncludedIndex l + 1 else startIndex)
      in js_slice (start - lastIncludedIndex l - 1) (entries l))"

definition truncateFrom :: "raft_log \<Rightarrow> nat \<Rightarrow> raft_log" where
  "truncateFrom l index =
     (if index \<le> lastIncludedIndex l \<or> getLastIndex l < index then l
      else let es = take (index - lastIncludedIndex l - 1) (entries l)
           in l\<lparr>entries := es, persistence := rewriteLog (persistence l) es\<rparr>)"

definition getLength :: "raft_log \<Rightarrow> nat" where
  "getLength l = length (entries l)"

definition log_compact :: "raft_log \<Rightarrow> nat \<Rightarrow> nat \<Rightarrow> raft_log" where
  "log_compact l uptoIndex trm =
     (if uptoIndex \<le> lastIncludedIndex l then l
      else let keepFrom = uptoIndex - lastIncludedIndex l;
               es = js_slice keepFrom (entries l)
           in l\<lparr>entries := es, lastIncludedIndex := uptoIndex, lastIncludedTerm := trm,
                persistence := rewriteLog (persistence l) es\<rparr>)"

definition log_installSnapshot :: "raft_log \<Rightarrow> nat \<Rightarrow> nat \<Rightarrow> raft_log" where
  "log_installSnapshot l li lt =
     (let es = filter (\<lambda>e. li < e_index e) (entries l)
      in l\<lparr>entries := es, lastIncludedIndex := li, lastIncludedTerm := lt,
           persistence := rewriteLog (persistence l) es\<rparr>)"

section \<open>Well-formed logs\<close>

text \<open>The entry at absolute index \<open>i\<close> carries the index \<open>i\<close>.\<close>
definition log_wf :: "raft_log \<Rightarrow> bool" where
  "log_wf l \<longleftrightarrow> (\<forall>k < length (entries l). e_index (entries l ! k) = lastIncludedIndex l + 1 + k)"

lemma getEntry_Some_iff:
  "(\<exists>e. getEntry l i = Some e) \<longleftrightarrow> lastIncludedIndex l < i \<and> i \<le> getLastIndex l"
  by (auto simp: getEntry_def getLastIndex_def js_at_def)

lemma getEntry_None_iff: "getEntry l i = None \<longleftrightarrow> i \<le> lastIncludedIndex l \<or> getLastIndex l < i"
  using getEntry_Some_iff[of l i] by auto

lemma getEntry_index: "log_wf l \<Longrightarrow> getEntry l i = Some e \<Longrightarrow> e_index e = i"
  by (auto simp: log_wf_def getEntry_def js_at_def split: if_splits)

lemma log_wf_mem: "log_wf l \<Longrightarrow> e \<in> set (entries l) \<Longrightarrow> lastIncludedIndex l < e_index e \<and> e_index e \<le> getLastIndex l"
  by (auto simp: log_wf_def in_set_conv_nth getLastIndex_def)

lemma log_wf_append:
  "log_wf l \<Longrightarrow> e_index e = getLastIndex l + 1 \<Longrightarrow> log_wf (log_append l e)"
  by (auto simp: log_wf_def log_append_def getLastIndex_def nth_append less_Suc_eq)

lemma getEntry_append:
  "getEntry (log_append l e) i = (if i = getLastIndex l + 1 then Some e else getEntry l i)"
  by (auto simp: getEntry_def log_append_def getLastIndex_def js_at_def nth_append)

lemma getLastIndex_append [simp]: "getLastIndex (log_append l e) = getLastIndex l + 1"
  by (simp add: getLastIndex_def log_append_def)

lemma lastIncludedIndex_append [simp]:
  "lastIncludedIndex (log_append l e) = lastIncludedIndex l"
  "lastIncludedTerm (log_append l e) = lastIncludedTerm l"
  by (simp_all add: log_append_def)

lemma log_wf_truncate: "log_wf l \<Longrightarrow> log_wf (truncateFrom l i)"
  by (auto simp: log_wf_def truncateFrom_def Let_def)

lemma getEntry_truncate:
  assumes "lastIncludedIndex l < i" and "i \<le> getLastIndex l"
  shows "getEntry (truncateFrom l i) j = (if j < i then getEntry l j else None)"
  using assms by (auto simp: getEntry_def truncateFrom_def Let_def getLastIndex_def js_at_def)

lemma getLastIndex_truncate:
  assumes "lastIncludedIndex l < i" and "i \<le> getLastIndex l"
  shows "getLastIndex (truncateFrom l i) = i - 1"
  using assms by (auto simp: truncateFrom_def Let_def getLastIndex_def)

lemma lastIncludedIndex_truncate [simp]:
  "lastIncludedIndex (truncateFrom l i) = lastIncludedIndex l"
  "lastIncludedTerm (truncateFrom l i) = lastIncludedTerm l"
  by (simp_all add: truncateFrom_def Let_def)

lemma lastIncludedIndex_le_last [simp]: "lastIncludedIndex l \<le> getLastIndex l"
  by (simp add: getLastIndex_def)

section \<open>Compaction\<close>

lemma log_wf_compact:
  "log_wf l \<Longrightarrow> u \<le> getLastIndex l \<Longrightarrow> log_wf (log_compact l u t)"
  by (auto simp: log_wf_def log_compact_def Let_def js_slice_def getLastIndex_def)

lemma getLastIndex_compact:
  "u \<le> getLastIndex l \<Longrightarrow> getLastIndex (log_compact l u t) = getLastIndex l"
  by (auto simp: log_compact_def Let_def js_slice_def getLastIndex_def)

lemma lastIncludedIndex_compact: "lastIncludedIndex (log_compact l u t) = max (lastIncludedIndex l) u"
  by (simp add: log_compact_def Let_def)

lemma getEntry_compact:
  "getEntry (log_compact l u t) i = (if i \<le> u then None else getEntry l i)"
  by (auto simp: getEntry_def log_compact_def Let_def js_slice_def js_at_def add.commute)

lemma getTermAt_compact:
  assumes "lastIncludedIndex l \<le> u"
  shows "u \<le> i \<Longrightarrow> getTermAt (log_compact l u (getTermAt l u)) i = getTermAt l i"
  using assms by (auto simp: getTermAt_def getEntry_compact lastIncludedIndex_compact)
    (auto simp: log_compact_def getTermAt_def Let_def)

lemma log_wf_install:
  assumes "log_wf l" and "lastIncludedIndex l \<le> li"
  shows "entries (log_installSnapshot l li lt) = drop (li - lastIncludedIndex l) (entries l)"
    and "log_wf (log_installSnapshot l li lt)"
proof -
  have "filter (\<lambda>e. li < e_index e) (entries l) = drop (li - lastIncludedIndex l) (entries l)"
  proof -
    have "filter (\<lambda>e. li < e_index e) es = drop (li - b) es"
      if "\<forall>k < length es. e_index (es ! k) = b + 1 + k" and "b \<le> li" for es b
      using that
    proof (induction es arbitrary: b)
      case (Cons e es)
      have "e_index e = b + 1" using Cons.prems by force
      moreover have tl: "\<forall>k < length es. e_index (es ! k) = (b + 1) + 1 + k"
        using Cons.prems by force
      ultimately show ?case
        using Cons.IH[OF tl] Cons.prems
        by (cases "li = b") (auto simp: filter_id_conv in_set_conv_nth drop_Cons' Suc_diff_Suc)
    qed simp
    then show ?thesis using assms by (simp add: log_wf_def)
  qed
  then show e: "entries (log_installSnapshot l li lt) = drop (li - lastIncludedIndex l) (entries l)"
    by (simp add: log_installSnapshot_def Let_def)
  show "log_wf (log_installSnapshot l li lt)"
    using assms e by (auto simp: log_wf_def) (auto simp: log_installSnapshot_def Let_def)
qed

lemma lastIncludedIndex_install [simp]:
  "lastIncludedIndex (log_installSnapshot l li lt) = li"
  "lastIncludedTerm (log_installSnapshot l li lt) = lt"
  by (simp_all add: log_installSnapshot_def Let_def)


section \<open>Merging received entries\<close>

text \<open>
  The part that the loops of \<open>handleAppendEntries\<close> and \<open>requestCatchUp\<close> share, once a conflict
  with a committed entry has been ruled out: a conflicting entry truncates the log from its index,
  and the received entry is appended when its index is free.
\<close>
definition place_entry ::
    "('l \<Rightarrow> nat \<Rightarrow> log_entry option) \<Rightarrow> ('l \<Rightarrow> log_entry \<Rightarrow> 'l) \<Rightarrow> ('l \<Rightarrow> nat \<Rightarrow> 'l) \<Rightarrow> 'l \<Rightarrow> log_entry \<Rightarrow> 'l" where
  "place_entry get app trunc l entry =
     (let l1 = (case get l (e_index entry) of
                  Some existing \<Rightarrow> if e_term existing \<noteq> e_term entry then trunc l (e_index entry) else l
                | None \<Rightarrow> l)
      in if get l1 (e_index entry) = None then app l1 entry else l1)"

text \<open>The interface of a log that is indexed from a boundary, appended to and truncated.\<close>
locale indexed_log =
  fixes get :: "'l \<Rightarrow> nat \<Rightarrow> log_entry option"
    and app :: "'l \<Rightarrow> log_entry \<Rightarrow> 'l"
    and trunc :: "'l \<Rightarrow> nat \<Rightarrow> 'l"
    and base :: "'l \<Rightarrow> nat"
    and top :: "'l \<Rightarrow> nat"
    and ok :: "'l \<Rightarrow> bool"
  assumes get_present: "(\<exists>e. get l i = Some e) \<longleftrightarrow> base l < i \<and> i \<le> top l"
    and base_le_top: "base l \<le> top l"
    and app_ok: "ok l \<Longrightarrow> e_index e = top l + 1 \<Longrightarrow> ok (app l e)"
    and app_get: "get (app l e) i = (if i = top l + 1 then Some e else get l i)"
    and app_top: "top (app l e) = top l + 1"
    and app_base: "base (app l e) = base l"
    and trunc_ok: "ok l \<Longrightarrow> ok (trunc l i)"
    and trunc_get: "base l < i \<Longrightarrow> i \<le> top l \<Longrightarrow> get (trunc l i) j = (if j < i then get l j else None)"
    and trunc_top: "base l < i \<Longrightarrow> i \<le> top l \<Longrightarrow> top (trunc l i) = i - 1"
    and trunc_base: "base (trunc l i) = base l"
begin

lemma get_absent: "get l i = None \<longleftrightarrow> i \<le> base l \<or> top l < i"
  using get_present[of l i] by auto

lemma place_conflict:
  assumes "get l (e_index e) = Some x" and "e_term x \<noteq> e_term e"
  shows "place_entry get app trunc l e = app (trunc l (e_index e)) e"
    and "top (place_entry get app trunc l e) = e_index e"
    and "get (place_entry get app trunc l e) j =
      (if j = e_index e then Some e else if j < e_index e then get l j else None)"
proof -
  have in_range: "base l < e_index e" "e_index e \<le> top l"
    using get_present[of l "e_index e"] assms(1) by auto
  then show pl: "place_entry get app trunc l e = app (trunc l (e_index e)) e"
    using assms by (simp add: place_entry_def Let_def trunc_get)
  show "top (place_entry get app trunc l e) = e_index e"
    using in_range by (simp add: pl app_top trunc_top)
  show "get (place_entry get app trunc l e) j =
      (if j = e_index e then Some e else if j < e_index e then get l j else None)"
    using in_range by (simp add: pl app_get trunc_get trunc_top)
qed

lemma place_present:
  "get l (e_index e) = Some x \<Longrightarrow> e_term x = e_term e \<Longrightarrow> place_entry get app trunc l e = l"
  by (simp add: place_entry_def Let_def)

lemma place_absent: "get l (e_index e) = None \<Longrightarrow> place_entry get app trunc l e = app l e"
  by (simp add: place_entry_def Let_def)

lemma place_cases:
  obtains (present) x where "get l (e_index e) = Some x" "e_term x = e_term e"
      "place_entry get app trunc l e = l"
  | (conflict) x where "get l (e_index e) = Some x" "e_term x \<noteq> e_term e"
  | (absent) "get l (e_index e) = None" "place_entry get app trunc l e = app l e"
  using place_present place_absent by (cases "get l (e_index e)") auto

lemma place_base: "base (place_entry get app trunc l e) = base l"
  by (simp add: place_entry_def Let_def app_base trunc_base split: option.split)

lemma place_ok:
  assumes "ok l" and "base l < e_index e" and "e_index e \<le> top l + 1"
  shows "ok (place_entry get app trunc l e)"
proof (cases rule: place_cases[where l = l and e = e])
  case (conflict x)
  then have "base l < e_index e" "e_index e \<le> top l"
    using get_present[of l "e_index e"] by auto
  then show ?thesis
    using assms conflict by (simp add: place_conflict(1) app_ok trunc_ok trunc_top)
next
  case absent
  then have "e_index e = top l + 1" using assms(2,3) by (simp add: get_absent)
  then show ?thesis using assms absent by (simp add: app_ok)
qed (use assms in simp)

lemma place_holds:
  assumes "base l < e_index e" and "e_index e \<le> top l + 1"
  shows "\<exists>x. get (place_entry get app trunc l e) (e_index e) = Some x \<and> e_term x = e_term e"
proof (cases rule: place_cases[where l = l and e = e])
  case absent
  then have "e_index e = top l + 1" using assms by (simp add: get_absent)
  then show ?thesis using absent by (simp add: app_get)
qed (simp_all add: place_conflict(2,3))

lemma place_below:
  assumes "base l < e_index e" and "e_index e \<le> top l + 1" and "j < e_index e"
  shows "get (place_entry get app trunc l e) j = get l j"
  using assms by (cases rule: place_cases[where l = l and e = e]) (auto simp: place_conflict(3) app_get)

lemma place_top:
  assumes "base l < e_index e" and "e_index e \<le> top l + 1"
  shows "e_index e \<le> top (place_entry get app trunc l e)"
  using place_holds[OF assms] get_present[of "place_entry get app trunc l e" "e_index e"] by auto

text \<open>What is kept at an index that does not conflict.\<close>
lemma place_keeps:
  assumes "\<And>x. get l (e_index e) = Some x \<Longrightarrow> e_term x = e_term e"
    and "get l j = Some y"
  shows "get (place_entry get app trunc l e) j = Some y"
proof (cases rule: place_cases[where l = l and e = e])
  case absent
  then have "top l + 1 \<noteq> j" using assms(2) get_present[of l j] by auto
  then show ?thesis using absent assms(2) by (simp add: app_get)
qed (use assms in auto)

end

interpretation rl: indexed_log getEntry log_append truncateFrom lastIncludedIndex getLastIndex log_wf
proof
  show "(\<exists>e. getEntry l i = Some e) \<longleftrightarrow> lastIncludedIndex l < i \<and> i \<le> getLastIndex l" for l i
    by (rule getEntry_Some_iff)
qed (simp_all add: log_wf_append getEntry_append log_wf_truncate getEntry_truncate getLastIndex_truncate)

abbreviation place :: "raft_log \<Rightarrow> log_entry \<Rightarrow> raft_log" where
  "place \<equiv> place_entry getEntry log_append truncateFrom"

section \<open>Durable logs\<close>

text \<open>Opening the log's own store again gives the log: what is in memory is what is on disk.\<close>
definition log_durable :: "raft_log \<Rightarrow> bool" where
  "log_durable l \<longleftrightarrow>
     (pkind (persistence l) = FilePersistence \<longrightarrow> new_RaftLog (persistence l) = l)"

lemma log_durable_fields:
  "log_durable l \<longleftrightarrow> (pkind (persistence l) = FilePersistence \<longrightarrow>
     (case loadSnapshot (persistence l) of
        None \<Rightarrow> loadLog (persistence l) = entries l \<and> lastIncludedIndex l = 0 \<and> lastIncludedTerm l = 0
      | Some sn \<Rightarrow> filter (\<lambda>e. sn_lastIncludedIndex sn < e_index e) (loadLog (persistence l)) = entries l \<and>
          lastIncludedIndex l = sn_lastIncludedIndex sn \<and> lastIncludedTerm l = sn_lastIncludedTerm sn))"
  by (cases l) (auto simp: log_durable_def new_RaftLog_def Let_def split: option.split)

lemma log_durable_append:
  "log_durable l \<Longrightarrow> lastIncludedIndex l < e_index e \<Longrightarrow> log_durable (log_append l e)"
  by (auto simp: log_durable_fields log_append_def file_store.load_saved split: option.splits)

lemma filter_all_index: "log_wf l \<Longrightarrow> filter (\<lambda>e. lastIncludedIndex l < e_index e) (entries l) = entries l"
  by (auto simp: filter_id_conv dest: log_wf_mem)

lemma log_durable_truncate: "log_wf l \<Longrightarrow> log_durable l \<Longrightarrow> log_durable (truncateFrom l i)"
  by (auto simp: log_durable_fields truncateFrom_def Let_def file_store.load_saved filter_id_conv
      split: option.splits dest: log_wf_mem in_set_takeD)

lemma log_durable_place:
  assumes "log_wf l" and "log_durable l" and "lastIncludedIndex l < e_index e"
  shows "log_durable (place l e)"
  using assms by (auto simp: place_entry_def Let_def log_durable_append log_durable_truncate split: option.split)

lemma pkind_log_ops [simp]:
  "pkind (persistence (log_append l e)) = pkind (persistence l)"
  "pkind (persistence (truncateFrom l i)) = pkind (persistence l)"
  "pkind (persistence (log_compact l i t)) = pkind (persistence l)"
  "pkind (persistence (log_installSnapshot l i t)) = pkind (persistence l)"
  by (simp_all add: log_append_def truncateFrom_def log_compact_def log_installSnapshot_def Let_def)

end
