(* ===== verification/Board_Machine.thy ===== *)
theory Board_Machine
  imports Replica_Types
begin

text \<open>
  The abstract specification of a shared board: what one board shows after a sequence of drawing,
  undo and redo events. Two components of the program implement it, the replica's state machine
  (\<open>replica/src/raftNode.ts\<close>) and the gateway's in-memory board manager
  (\<open>gateway/src/boardManager.ts\<close>); the locale \<open>board_machine\<close> states the contract they
  share, and what a client may rely on is proved once inside it.
\<close>

section \<open>One board\<close>

record board_view =
  bv_events :: "stroke list"
  bv_undone :: "string set"
  bv_visible :: "stroke list"

definition empty_view :: board_view where
  "empty_view = \<lparr>bv_events = [], bv_undone = {}, bv_visible = []\<rparr>"

text \<open>A drawing event, the only kind a redo can bring back.\<close>
definition draws :: "string \<Rightarrow> stroke \<Rightarrow> bool" where
  "draws sid e \<longleftrightarrow> action_of e = ActStroke \<and> strokeId e = sid"

text \<open>What an event asks for: an undo or redo without a target counts as a drawing event.\<close>
datatype request = Draw | Undo string | Redo string

definition request_of :: "stroke \<Rightarrow> request" where
  "request_of e =
     (case targetStrokeId e of
        None \<Rightarrow> Draw
      | Some t \<Rightarrow>
          if t = [] then Draw
          else (case action_of e of ActStroke \<Rightarrow> Draw | ActUndo \<Rightarrow> Undo t | ActRedo \<Rightarrow> Redo t))"

definition view_step :: "board_view \<Rightarrow> stroke \<Rightarrow> board_view" where
  "view_step v e =
     (let v1 = v\<lparr>bv_events := bv_events v @ [e]\<rparr> in
      case request_of e of
        Undo t \<Rightarrow> v1\<lparr>bv_undone := insert t (bv_undone v),
                     bv_visible := filter (\<lambda>s. strokeId s \<noteq> t) (bv_visible v)\<rparr>
      | Redo t \<Rightarrow> v1\<lparr>bv_undone := bv_undone v - {t},
                     bv_visible :=
                       (if \<exists>s\<in>set (bv_visible v). strokeId s = t then bv_visible v
                        else case List.find (draws t) (bv_events v @ [e]) of
                               None \<Rightarrow> bv_visible v
                             | Some s \<Rightarrow> bv_visible v @ [s])\<rparr>
      | Draw \<Rightarrow> if strokeId e \<in> bv_undone v then v1
                else v1\<lparr>bv_visible := bv_visible v @ [e]\<rparr>)"

definition replay_view :: "stroke list \<Rightarrow> board_view" where
  "replay_view evs = foldl view_step empty_view evs"

lemma request_of_Undo: "request_of e = Undo t \<longleftrightarrow> action_of e = ActUndo \<and> targetStrokeId e = Some t \<and> t \<noteq> []"
  by (auto simp: request_of_def split: option.splits action.splits)

lemma request_of_Redo: "request_of e = Redo t \<longleftrightarrow> action_of e = ActRedo \<and> targetStrokeId e = Some t \<and> t \<noteq> []"
  by (auto simp: request_of_def split: option.splits action.splits)

lemma bv_events_view_step [simp]: "bv_events (view_step v e) = bv_events v @ [e]"
  by (simp add: view_step_def Let_def split: request.split)

lemma bv_events_foldl: "bv_events (foldl view_step v evs) = bv_events v @ evs"
  by (induction evs arbitrary: v) simp_all

lemma bv_events_replay [simp]: "bv_events (replay_view evs) = evs"
  by (simp add: replay_view_def bv_events_foldl empty_view_def)

lemma replay_view_append: "replay_view (evs @ evs') = foldl view_step (replay_view evs) evs'"
  by (simp add: replay_view_def)

section \<open>What every board keeps true\<close>

text \<open>No visible stroke is undone, and everything visible was submitted.\<close>
definition view_ok :: "board_view \<Rightarrow> bool" where
  "view_ok v \<longleftrightarrow> (\<forall>s\<in>set (bv_visible v). strokeId s \<notin> bv_undone v) \<and> set (bv_visible v) \<subseteq> set (bv_events v)"

lemma view_ok_empty: "view_ok empty_view"
  by (simp add: view_ok_def empty_view_def)

lemma find_draws_id: "List.find (draws t) evs = Some s \<Longrightarrow> strokeId s = t \<and> s \<in> set evs"
  by (auto dest: find_SomeD simp: draws_def)

lemma view_ok_step:
  assumes "view_ok v"
  shows "view_ok (view_step v e)"
proof (cases "request_of e")
  case Draw
  with assms show ?thesis by (auto simp: view_step_def view_ok_def Let_def)
next
  case (Undo t)
  with assms show ?thesis by (auto simp: view_step_def view_ok_def Let_def)
next
  case (Redo t)
  with assms show ?thesis
    by (auto simp: view_step_def view_ok_def Let_def split: option.split dest: find_draws_id)
qed

lemma view_ok_foldl: "view_ok v \<Longrightarrow> view_ok (foldl view_step v evs)"
  by (induction evs arbitrary: v) (simp_all add: view_ok_step)

lemma view_ok_replay: "view_ok (replay_view evs)"
  by (simp add: replay_view_def view_ok_foldl view_ok_empty)

text \<open>An undone stroke stays hidden until it is redone.\<close>

lemma undone_step:
  assumes "t \<in> bv_undone v" and "request_of e \<noteq> Redo t"
  shows "t \<in> bv_undone (view_step v e)"
  using assms by (auto simp: view_step_def Let_def split: request.split)

lemma undone_foldl:
  assumes "t \<in> bv_undone v" and "\<forall>e\<in>set evs. request_of e \<noteq> Redo t"
  shows "t \<in> bv_undone (foldl view_step v evs)"
  using assms by (induction evs arbitrary: v) (simp_all add: undone_step)

lemma undo_marks: "request_of e = Undo t \<Longrightarrow> t \<in> bv_undone (view_step v e)"
  by (simp add: view_step_def Let_def)

lemma undo_hides_until_redo:
  assumes "request_of e = Undo t" and "\<forall>e'\<in>set later. request_of e' \<noteq> Redo t"
  shows "\<forall>s\<in>set (bv_visible (replay_view (earlier @ e # later))). strokeId s \<noteq> t"
proof -
  have "t \<in> bv_undone (replay_view (earlier @ e # later))"
    using assms by (simp add: replay_view_append undone_foldl undo_marks)
  then show ?thesis
    using view_ok_replay[of "earlier @ e # later"] by (auto simp: view_ok_def)
qed

text \<open>A redo brings a drawn stroke back.\<close>

lemma redo_shows:
  assumes "request_of e = Redo t" and "d \<in> set (bv_events v)" and "draws t d"
  shows "\<exists>s\<in>set (bv_visible (view_step v e)). strokeId s = t"
proof -
  obtain s where "List.find (draws t) (bv_events v) = Some s"
    using find_Some_exI assms(2,3) by metis
  then show ?thesis
    using assms(1) by (auto simp: view_step_def Let_def find_append dest: find_draws_id)
qed

section \<open>The contract of a board store\<close>

text \<open>
  A store of boards: \<open>apply_event\<close> takes one event in, \<open>view\<close> reads one board. The promise is
  that an event steps the board it names and leaves every other board alone.
\<close>
locale board_machine =
  fixes apply_event :: "'s \<Rightarrow> stroke \<Rightarrow> 's"
    and view :: "'s \<Rightarrow> string \<Rightarrow> board_view"
    and ok :: "'s \<Rightarrow> bool"
  assumes view_apply: "ok s \<Longrightarrow> view (apply_event s e) b =
      (if b = boardId e then view_step (view s b) e else view s b)"
    and ok_apply: "ok s \<Longrightarrow> ok (apply_event s e)"
begin

lemma ok_foldl: "ok s \<Longrightarrow> ok (foldl apply_event s evs)"
  by (induction evs arbitrary: s) (simp_all add: ok_apply)

lemma view_foldl:
  assumes "ok s"
  shows "view (foldl apply_event s evs) b = foldl view_step (view s b) (filter (\<lambda>e. boardId e = b) evs)"
  using assms
proof (induction evs arbitrary: s)
  case (Cons e evs)
  from Cons.IH[OF ok_apply[OF Cons.prems]] Cons.prems show ?case
    by (simp add: view_apply)
qed simp

text \<open>Two histories that agree on a board's own events show the same board.\<close>
lemma view_determined:
  assumes "ok s" and "view s b = empty_view"
    and "filter (\<lambda>e. boardId e = b) evs = filter (\<lambda>e. boardId e = b) evs'"
  shows "view (foldl apply_event s evs) b = view (foldl apply_event s evs') b"
  using assms by (simp add: view_foldl)

lemma view_replay:
  assumes "ok s" and "view s b = empty_view"
  shows "view (foldl apply_event s evs) b = replay_view (filter (\<lambda>e. boardId e = b) evs)"
  using assms by (simp add: view_foldl replay_view_def)

end

end
