(* ===== verification/Boards.thy ===== *)
theory Boards
  imports Board_Machine
begin

text \<open>
  The replica's state machine: the three maps \<open>boardEvents\<close>, \<open>undoneStrokeIds\<close> and
  \<open>boardStrokes\<close> of \<open>replica/src/raftNode.ts\<close>, the functions that change them
  (\<open>ensureBoardState\<close>, \<open>applyBoardEvent\<close>, \<open>restoreBoardState\<close>), the boards object that
  \<open>takeSnapshot\<close> builds, and \<open>getStrokes\<close>. The lemmas show that they implement the abstract
  board machine and that a snapshot restores every board but one named \<open>__proto__\<close>.
\<close>

section \<open>State and operations\<close>

record board_state =
  boardEvents :: "(string \<times> stroke list) list"
  undoneStrokeIds :: "string \<rightharpoonup> string set"
  boardStrokes :: "string \<rightharpoonup> stroke list"

definition new_boards :: board_state where
  "new_boards = \<lparr>boardEvents = [], undoneStrokeIds = Map.empty, boardStrokes = Map.empty\<rparr>"

definition ensureBoardState :: "board_state \<Rightarrow> string \<Rightarrow> board_state" where
  [op_defs]: "ensureBoardState bs bid =
     (let bs1 = (if map_of (boardEvents bs) bid = None
                 then bs\<lparr>boardEvents := AList.update bid [] (boardEvents bs)\<rparr> else bs);
          bs2 = (if undoneStrokeIds bs1 bid = None
                 then bs1\<lparr>undoneStrokeIds := (undoneStrokeIds bs1)(bid \<mapsto> {})\<rparr> else bs1)
      in if boardStrokes bs2 bid = None
         then bs2\<lparr>boardStrokes := (boardStrokes bs2)(bid \<mapsto> [])\<rparr> else bs2)"

definition applyBoardEvent :: "board_state \<Rightarrow> stroke \<Rightarrow> board_state" where
  "applyBoardEvent bs0 event =
     (let bid = boardId event;
          bs = ensureBoardState bs0 bid;
          events = the (map_of (boardEvents bs) bid) @ [event];
          undone = the (undoneStrokeIds bs bid);
          visible = the (boardStrokes bs bid);
          act = action_of event;
          target = the (targetStrokeId event);
          bs1 = bs\<lparr>boardEvents := AList.update bid events (boardEvents bs)\<rparr>
      in if act = ActUndo \<and> js_truthy (targetStrokeId event) then
           bs1\<lparr>undoneStrokeIds := (undoneStrokeIds bs1)(bid \<mapsto> insert target undone),
               boardStrokes := (boardStrokes bs1)
                 (bid \<mapsto> filter (\<lambda>stroke. strokeId stroke \<noteq> target) visible)\<rparr>
         else if act = ActRedo \<and> js_truthy (targetStrokeId event) then
           let bs2 = bs1\<lparr>undoneStrokeIds := (undoneStrokeIds bs1)(bid \<mapsto> undone - {target})\<rparr>;
               alreadyVisible = list_ex (\<lambda>stroke. strokeId stroke = target) visible
           in if alreadyVisible then bs2
              else (case List.find (\<lambda>e. action_of e = ActStroke \<and> strokeId e = target) events of
                      Some tgt \<Rightarrow> bs2\<lparr>boardStrokes := (boardStrokes bs2)(bid \<mapsto> visible @ [tgt])\<rparr>
                    | None \<Rightarrow> bs2)
         else if strokeId event \<notin> undone then
           bs1\<lparr>boardStrokes := (boardStrokes bs1)(bid \<mapsto> visible @ [event])\<rparr>
         else bs1)"

text \<open>The \<open>boards\<close> object of \<open>takeSnapshot\<close>.\<close>
definition snapshot_boards :: "board_state \<Rightarrow> (string \<times> stroke list) list" where
  "snapshot_boards bs = foldl (\<lambda>obj (bid, events). js_object_set bid events obj) [] (boardEvents bs)"

definition restoreBoardState :: "(string \<times> stroke list) list \<Rightarrow> board_state" where
  "restoreBoardState boards =
     foldl (\<lambda>bs (bid, events). foldl applyBoardEvent bs events) new_boards (js_own_order boards)"

definition getStrokes :: "board_state \<Rightarrow> string \<Rightarrow> stroke list" where
  [op_defs]: "getStrokes bs bid = nullish (boardStrokes bs bid) []"

section \<open>The board machine\<close>

definition board_view_of :: "board_state \<Rightarrow> string \<Rightarrow> board_view" where
  "board_view_of bs bid =
     \<lparr>bv_events = nullish (map_of (boardEvents bs) bid) [],
      bv_undone = nullish (undoneStrokeIds bs bid) {},
      bv_visible = nullish (boardStrokes bs bid) []\<rparr>"

lemma getStrokes_view: "getStrokes bs bid = bv_visible (board_view_of bs bid)"
  by (simp add: getStrokes_def board_view_of_def)

lemma board_view_of_new [simp]: "board_view_of new_boards b = empty_view"
  by (simp add: board_view_of_def new_boards_def empty_view_def)

lemma view_ensure [simp]: "board_view_of (ensureBoardState bs bid) b = board_view_of bs b"
  by (auto simp: ensureBoardState_def board_view_of_def Let_def update_conv')

lemma ensure_present:
  "map_of (boardEvents (ensureBoardState bs bid)) bid = Some (bv_events (board_view_of bs bid))"
  "undoneStrokeIds (ensureBoardState bs bid) bid = Some (bv_undone (board_view_of bs bid))"
  "boardStrokes (ensureBoardState bs bid) bid = Some (bv_visible (board_view_of bs bid))"
  by (auto simp: ensureBoardState_def board_view_of_def Let_def update_conv')

lemma ensure_other:
  assumes "b \<noteq> bid"
  shows "map_of (boardEvents (ensureBoardState bs bid)) b = map_of (boardEvents bs) b"
    "undoneStrokeIds (ensureBoardState bs bid) b = undoneStrokeIds bs b"
    "boardStrokes (ensureBoardState bs bid) b = boardStrokes bs b"
  using assms by (auto simp: ensureBoardState_def Let_def update_conv')

lemma request_of_cases_unfold:
  "request_of e =
    (if action_of e = ActUndo \<and> js_truthy (targetStrokeId e) then Undo (the (targetStrokeId e))
     else if action_of e = ActRedo \<and> js_truthy (targetStrokeId e) then Redo (the (targetStrokeId e))
     else Draw)"
  by (auto simp: request_of_def split: option.splits action.splits)

lemma applyBoardEvent_view:
  "board_view_of (applyBoardEvent bs e) b =
     (if b = boardId e then view_step (board_view_of bs b) e else board_view_of bs b)"
proof (cases "b = boardId e")
  case True
  have ex: "list_ex (\<lambda>stroke. strokeId stroke = t) xs \<longleftrightarrow> (\<exists>s\<in>set xs. strokeId s = t)" for t and xs :: "stroke list"
    by (simp add: list_ex_iff)
  have dr: "(\<lambda>e. action_of e = ActStroke \<and> strokeId e = t) = draws t" for t
    by (simp add: fun_eq_iff draws_def)
  show ?thesis
    unfolding True
    by (simp add: applyBoardEvent_def view_step_def Let_def request_of_cases_unfold ensure_present ex
        dr board_view_of_def update_conv' split: option.split)
next
  case False
  then show ?thesis
    by (simp add: applyBoardEvent_def Let_def ensure_other board_view_of_def update_conv'
        split: option.split)
qed

section \<open>Well-formed boards\<close>

text \<open>
  The event lists are keyed by the board their events name, and each board is what replaying its
  own events gives.
\<close>
definition boards_ok :: "board_state \<Rightarrow> bool" where
  "boards_ok bs \<longleftrightarrow>
     distinct (map fst (boardEvents bs)) \<and>
     (\<forall>(k, evs)\<in>set (boardEvents bs). \<forall>e\<in>set evs. boardId e = k) \<and>
     (\<forall>b. board_view_of bs b = replay_view (bv_events (board_view_of bs b)))"

lemma boards_ok_new [simp]: "boards_ok new_boards"
  by (simp add: boards_ok_def) (simp add: new_boards_def empty_view_def replay_view_def)

lemma boardEvents_apply:
  "boardEvents (applyBoardEvent bs e) =
     AList.update (boardId e) (bv_events (board_view_of bs (boardId e)) @ [e])
       (boardEvents (ensureBoardState bs (boardId e)))"
  by (simp add: applyBoardEvent_def Let_def ensure_present split: option.split)

lemma boardEvents_ensure:
  "boardEvents (ensureBoardState bs bid) =
     (if map_of (boardEvents bs) bid = None then AList.update bid [] (boardEvents bs) else boardEvents bs)"
  by (auto simp: ensureBoardState_def Let_def)

lemma keyed_update:
  assumes "\<forall>(k, evs)\<in>set kvs. \<forall>e\<in>set evs. boardId e = k" and "\<forall>e\<in>set new. boardId e = bid"
  shows "\<forall>(k, evs)\<in>set (AList.update bid new kvs). \<forall>e\<in>set evs. boardId e = k"
  using assms by (induction kvs) auto

lemma events_keyed:
  assumes "boards_ok bs"
  shows "\<forall>e\<in>set (bv_events (board_view_of bs b)). boardId e = b"
  using assms by (auto simp: boards_ok_def board_view_of_def nullish_def split: option.splits dest!: map_of_SomeD)

lemma boards_ok_apply:
  assumes ok: "boards_ok bs"
  shows "boards_ok (applyBoardEvent bs e)"
proof -
  let ?b = "boardId e"
  have d: "distinct (map fst (boardEvents bs))"
    and k: "\<forall>(k, evs)\<in>set (boardEvents bs). \<forall>e\<in>set evs. boardId e = k"
    and r: "board_view_of bs b = replay_view (bv_events (board_view_of bs b))" for b
    using ok by (auto simp: boards_ok_def)
  have "board_view_of (applyBoardEvent bs e) b =
      replay_view (bv_events (board_view_of (applyBoardEvent bs e) b))" for b
    by (simp add: applyBoardEvent_view replay_view_append r[symmetric])
  moreover have "distinct (map fst (boardEvents (applyBoardEvent bs e)))"
    using d by (simp add: boardEvents_apply boardEvents_ensure distinct_update)
  moreover have "\<forall>(k, evs)\<in>set (boardEvents (applyBoardEvent bs e)). \<forall>e\<in>set evs. boardId e = k"
    unfolding boardEvents_apply
  proof (rule keyed_update)
    show "\<forall>(k, evs)\<in>set (boardEvents (ensureBoardState bs ?b)). \<forall>e\<in>set evs. boardId e = k"
      using k keyed_update[OF k, of "[]" ?b] by (simp add: boardEvents_ensure)
    show "\<forall>e'\<in>set (bv_events (board_view_of bs ?b) @ [e]). boardId e' = ?b"
      using events_keyed[OF ok] by simp
  qed
  ultimately show ?thesis
    unfolding boards_ok_def by blast
qed

interpretation replica_boards: board_machine applyBoardEvent board_view_of boards_ok
  by unfold_locales (simp_all add: applyBoardEvent_view boards_ok_apply)

section \<open>Snapshots of the boards\<close>

lemma restore_is_replay:
  "restoreBoardState boards = foldl applyBoardEvent new_boards (concat (map snd (js_own_order boards)))"
proof -
  have "foldl (\<lambda>bs (bid, events). foldl applyBoardEvent bs events) bs0 kvs =
      foldl applyBoardEvent bs0 (concat (map snd kvs))" for bs0 and kvs :: "(string \<times> stroke list) list"
    by (induction kvs arbitrary: bs0) auto
  then show ?thesis by (simp add: restoreBoardState_def)
qed

lemma boards_ok_restore [simp]: "boards_ok (restoreBoardState boards)"
  by (simp add: restore_is_replay replica_boards.ok_foldl)

lemma filter_concat_keyed:
  assumes "distinct (map fst kvs)" and "\<forall>(k, evs)\<in>set kvs. \<forall>e\<in>set evs. boardId e = k"
  shows "filter (\<lambda>e. boardId e = b) (concat (map snd kvs)) = nullish (map_of kvs b) []"
  using assms
proof (induction kvs)
  case (Cons kv kvs)
  obtain k evs where kv: "kv = (k, evs)" by (cases kv)
  have evs: "filter (\<lambda>e. boardId e = b) evs = (if k = b then evs else [])"
    using Cons.prems kv by (auto simp: filter_empty_conv filter_id_conv)
  have "k = b \<Longrightarrow> map_of kvs b = None"
    using Cons.prems kv by (auto simp: map_of_eq_None_iff)
  with Cons evs kv show ?case by auto
qed simp

lemma view_restore:
  assumes "distinct (map fst boards)" and "\<forall>(k, evs)\<in>set boards. \<forall>e\<in>set evs. boardId e = k"
  shows "board_view_of (restoreBoardState boards) b = replay_view (nullish (map_of boards b) [])"
proof -
  have "filter (\<lambda>e. boardId e = b) (concat (map snd (js_own_order boards))) = nullish (map_of boards b) []"
    using assms by (subst filter_concat_keyed)
      (auto simp: distinct_js_own_order map_of_js_own_order)
  then show ?thesis
    by (simp add: restore_is_replay replica_boards.view_replay)
qed

lemma snapshot_boards_eq:
  assumes "distinct (map fst (boardEvents bs))"
  shows "snapshot_boards bs = filter (\<lambda>kv. fst kv \<noteq> ''__proto__'') (boardEvents bs)"
proof -
  have "foldl (\<lambda>obj (bid, events). js_object_set bid events obj) acc kvs =
      acc @ filter (\<lambda>kv. fst kv \<noteq> ''__proto__'') kvs"
    if "distinct (map fst (acc @ kvs))" for acc and kvs :: "(string \<times> stroke list) list"
    using that
  proof (induction kvs arbitrary: acc)
    case (Cons kv kvs)
    obtain k v where kv: "kv = (k, v)" by (cases kv)
    have "k \<notin> fst ` set acc" using Cons.prems kv by auto
    then have upd: "AList.update k v acc = acc @ [(k, v)]"
      by (induction acc) auto
    show ?case
    proof (cases "k = ''__proto__''")
      case True
      then show ?thesis using Cons kv by (simp add: js_object_set_def)
    next
      case False
      then show ?thesis using Cons.IH[of "acc @ [(k, v)]"] Cons.prems kv
        by (simp add: js_object_set_def upd)
    qed
  qed simp
  from this[of "[]"] assms show ?thesis by (simp add: snapshot_boards_def)
qed

lemma map_of_filter_fst: "map_of (filter (\<lambda>kv. fst kv \<noteq> k) kvs) b = (if b = k then None else map_of kvs b)"
  by (induction kvs) auto

lemma snapshot_boards_keyed:
  assumes "boards_ok bs"
  shows "distinct (map fst (snapshot_boards bs))"
    and "\<forall>(k, evs)\<in>set (snapshot_boards bs). \<forall>e\<in>set evs. boardId e = k"
proof -
  have d: "distinct (map fst (boardEvents bs))"
    and k: "\<forall>(k, evs)\<in>set (boardEvents bs). \<forall>e\<in>set evs. boardId e = k"
    using assms by (auto simp: boards_ok_def)
  show "distinct (map fst (snapshot_boards bs))"
    using d by (simp add: snapshot_boards_eq distinct_map_filter)
  show "\<forall>(k, evs)\<in>set (snapshot_boards bs). \<forall>e\<in>set evs. boardId e = k"
    using k by (auto simp: snapshot_boards_eq[OF d])
qed

lemma view_restore_snapshot:
  assumes "boards_ok bs"
  shows "board_view_of (restoreBoardState (snapshot_boards bs)) b =
    (if b = ''__proto__'' then empty_view else board_view_of bs b)"
proof -
  have d: "distinct (map fst (boardEvents bs))"
    and r: "board_view_of bs b = replay_view (bv_events (board_view_of bs b))"
    using assms by (auto simp: boards_ok_def)
  have "map_of (snapshot_boards bs) b = (if b = ''__proto__'' then None else map_of (boardEvents bs) b)"
    by (simp add: snapshot_boards_eq[OF d] map_of_filter_fst)
  then have "board_view_of (restoreBoardState (snapshot_boards bs)) b =
      (if b = ''__proto__'' then replay_view [] else replay_view (bv_events (board_view_of bs b)))"
    using view_restore[OF snapshot_boards_keyed[OF assms]] by (simp add: board_view_of_def)
  then show ?thesis
    using r by (simp add: replay_view_def)
qed

end
