(* ===== verification/Timers.thy ===== *)
theory Timers
  imports Replica_Types
begin

text \<open>
  The timing constants of \<open>replica/src/config.ts\<close> and the class \<open>DefaultTimerManager\<close> of
  \<open>replica/src/electionTimer.ts\<close>. \<open>Math.random()\<close> is a stream of numerators over $2^{53}$,
  read one draw at a time. A handle that is not null and a timeout that is still pending in the
  event loop are two different things, because firing does not clear the handle; the model keeps
  both (\<open>electionTimer\<close> and \<open>electionPending\<close>).
\<close>

section \<open>Constants\<close>

definition electionTimeoutMinMs :: nat where "electionTimeoutMinMs = 500"
definition electionTimeoutMaxMs :: nat where "electionTimeoutMaxMs = 800"
definition heartbeatIntervalMs :: nat where "heartbeatIntervalMs = 150"
definition electionSkewStepMs :: nat where "electionSkewStepMs = 300"
definition rpcTimeoutMs :: nat where "rpcTimeoutMs = 2000"
definition catchUpDelayMs :: nat where "catchUpDelayMs = 1000"
definition snapshotThresholdEntries :: nat where "snapshotThresholdEntries = 500"
definition appendEntriesBatchCap :: nat where "appendEntriesBatchCap = 128"

lemmas raft_timing = electionTimeoutMinMs_def electionTimeoutMaxMs_def heartbeatIntervalMs_def
  electionSkewStepMs_def rpcTimeoutMs_def catchUpDelayMs_def snapshotThresholdEntries_def appendEntriesBatchCap_def

section \<open>State and operations\<close>

record timer_manager =
  electionTimer :: "nat option"
  electionPending :: bool
  heartbeatTimer :: "nat option"
  electionCallback :: bool
  electionSkewMs :: nat
  randoms :: "nat \<Rightarrow> nat"
  draws_taken :: nat

text \<open>\<open>Number.parseInt(replicaId.replace(/\D+/g, ''), 10)\<close> is NaN when no digit is left.\<close>
definition computeElectionSkew :: "string option \<Rightarrow> nat" where
  "computeElectionSkew replicaId =
     (if \<not> js_truthy replicaId then 0
      else let digits = filter is_digit (the replicaId)
           in if digits = [] then 0 else digits_value digits * electionSkewStepMs)"

definition new_timers :: "string option \<Rightarrow> (nat \<Rightarrow> nat) \<Rightarrow> timer_manager" where
  "new_timers replicaId rnd =
     \<lparr>electionTimer = None, electionPending = False, heartbeatTimer = None, electionCallback = False,
      electionSkewMs = computeElectionSkew replicaId, randoms = rnd, draws_taken = 0\<rparr>"

text \<open>\<open>Math.floor(Math.random() * n)\<close> for the next draw. (A product that the doubles round up to the
  next integer would count one more; the range is the same.)\<close>
definition random_below :: "timer_manager \<Rightarrow> nat \<Rightarrow> nat" where
  "random_below tm n = (randoms tm (draws_taken tm) mod 2 ^ 53) * n div 2 ^ 53"

definition randomTimeout :: "timer_manager \<Rightarrow> nat \<times> timer_manager" where
  "randomTimeout tm =
     (electionTimeoutMinMs + random_below tm (electionTimeoutMaxMs - electionTimeoutMinMs + 1)
        + electionSkewMs tm,
      tm\<lparr>draws_taken := draws_taken tm + 1\<rparr>)"

definition resetElectionTimer :: "timer_manager \<Rightarrow> timer_manager" where
  "resetElectionTimer tm =
     (let tm1 = (if electionTimer tm \<noteq> None then tm\<lparr>electionPending := False\<rparr> else tm)
      in if electionCallback tm1
         then let (timeout, tm2) = randomTimeout tm1
              in tm2\<lparr>electionTimer := Some timeout, electionPending := True\<rparr>
         else tm1)"

definition startElectionTimer :: "timer_manager \<Rightarrow> timer_manager" where
  "startElectionTimer tm = resetElectionTimer (tm\<lparr>electionCallback := True\<rparr>)"

definition stopElectionTimer :: "timer_manager \<Rightarrow> timer_manager" where
  "stopElectionTimer tm =
     (if electionTimer tm \<noteq> None then tm\<lparr>electionTimer := None, electionPending := False\<rparr> else tm)"

definition stopHeartbeat :: "timer_manager \<Rightarrow> timer_manager" where
  "stopHeartbeat tm = (if heartbeatTimer tm \<noteq> None then tm\<lparr>heartbeatTimer := None\<rparr> else tm)"

definition startHeartbeat :: "timer_manager \<Rightarrow> timer_manager" where
  "startHeartbeat tm = (stopHeartbeat tm)\<lparr>heartbeatTimer := Some heartbeatIntervalMs\<rparr>"

text \<open>The event loop runs the callback of a pending timeout; the handle stays.\<close>
definition fireElectionTimer :: "timer_manager \<Rightarrow> timer_manager" where
  "fireElectionTimer tm = tm\<lparr>electionPending := False\<rparr>"

lemmas timer_ops = resetElectionTimer_def startElectionTimer_def stopElectionTimer_def
  stopHeartbeat_def startHeartbeat_def randomTimeout_def fireElectionTimer_def

section \<open>Lemmas\<close>

text \<open>A timeout is pending only while its handle is kept, and never before \<open>start\<close>.\<close>
definition timers_ok :: "timer_manager \<Rightarrow> bool" where
  "timers_ok tm \<longleftrightarrow> (electionPending tm \<longrightarrow> electionTimer tm \<noteq> None) \<and>
     (electionTimer tm \<noteq> None \<longrightarrow> electionCallback tm)"

lemma timers_ok_ops [simp]:
  "timers_ok (new_timers r rnd)"
  "timers_ok tm \<Longrightarrow> timers_ok (resetElectionTimer tm)"
  "timers_ok tm \<Longrightarrow> timers_ok (startElectionTimer tm)"
  "timers_ok tm \<Longrightarrow> timers_ok (stopElectionTimer tm)"
  "timers_ok tm \<Longrightarrow> timers_ok (startHeartbeat tm)"
  "timers_ok tm \<Longrightarrow> timers_ok (stopHeartbeat tm)"
  "timers_ok tm \<Longrightarrow> timers_ok (fireElectionTimer tm)"
  by (auto simp: timers_ok_def timer_ops new_timers_def Let_def)

lemma heartbeat_ops [simp]:
  "heartbeatTimer (resetElectionTimer tm) = heartbeatTimer tm"
  "heartbeatTimer (startElectionTimer tm) = heartbeatTimer tm"
  "heartbeatTimer (stopElectionTimer tm) = heartbeatTimer tm"
  "heartbeatTimer (startHeartbeat tm) = Some heartbeatIntervalMs"
  "heartbeatTimer (stopHeartbeat tm) = None"
  by (simp_all add: timer_ops Let_def split: prod.split)

lemma random_below_less: "0 < n \<Longrightarrow> random_below tm n < n"
proof -
  assume n: "0 < n"
  have "(randoms tm (draws_taken tm) mod 2 ^ 53) * n < n * 2 ^ 53"
    using n by simp
  then show ?thesis
    unfolding random_below_def by (rule less_mult_imp_div_less)
qed

lemma randomTimeout_bounds:
  "electionTimeoutMinMs + electionSkewMs tm \<le> fst (randomTimeout tm) \<and>
   fst (randomTimeout tm) \<le> electionTimeoutMaxMs + electionSkewMs tm"
proof -
  have "random_below tm (electionTimeoutMaxMs - electionTimeoutMinMs + 1) <
      electionTimeoutMaxMs - electionTimeoutMinMs + 1"
    by (rule random_below_less) simp
  then show ?thesis by (simp add: randomTimeout_def raft_timing)
qed

text \<open>In the cluster of three an election timer fires before a call to a peer is given up.\<close>
lemma call_outlives_election:
  "electionSkewMs tm \<le> 3 * electionSkewStepMs \<Longrightarrow> fst (randomTimeout tm) < rpcTimeoutMs"
  using randomTimeout_bounds[of tm] by (simp add: raft_timing)

section \<open>The contract of a timer manager\<close>

text \<open>
  What the node relies on in the interface \<open>TimerManager\<close>: \<open>ready\<close> is a manager that has been
  given the election callback, \<open>waiting\<close> one whose election callback will be run, \<open>beats\<close> and \<open>quiet\<close>
  say whether heartbeats are sent. The event loop takes the callback with \<open>fire\<close>.
\<close>
locale timer_service =
  fixes start_election reset_election stop_election start_beat stop_beat fire :: "'t \<Rightarrow> 't"
    and okay ready waiting beats quiet :: "'t \<Rightarrow> bool"
  assumes started: "okay t \<Longrightarrow> ready (start_election t) \<and> waiting (start_election t)"
    and reset: "ready t \<Longrightarrow> ready (reset_election t) \<and> waiting (reset_election t)"
    and stopped: "ready t \<Longrightarrow> ready (stop_election t) \<and> \<not> waiting (stop_election t)"
    and fired: "ready t \<Longrightarrow> ready (fire t)"
    and beat_started: "ready t \<Longrightarrow> ready (start_beat t) \<and> beats (start_beat t)"
    and beat_stopped: "ready t \<Longrightarrow> ready (stop_beat t) \<and> quiet (stop_beat t) \<and> waiting (stop_beat t) = waiting t"
    and beats_kept: "beats (start_election t) = beats t" "beats (reset_election t) = beats t"
      "beats (stop_election t) = beats t" "beats (fire t) = beats t"
    and quiet_kept: "quiet (start_election t) = quiet t" "quiet (reset_election t) = quiet t"
      "quiet (stop_election t) = quiet t" "quiet (fire t) = quiet t"
begin

text \<open>A node that follows, one that leads, and one that stops.\<close>
lemma follows:
  assumes "ready t" and "leads \<or> quiet t"
  shows "ready (reset_election (if leads then stop_beat t else t))"
    and "waiting (reset_election (if leads then stop_beat t else t))"
    and "quiet (reset_election (if leads then stop_beat t else t))"
  using assms reset beat_stopped by (auto simp: quiet_kept)

lemma leads: "ready t \<Longrightarrow> ready (start_beat (stop_election t)) \<and> beats (start_beat (stop_election t))"
  using stopped beat_started by blast

lemma halts: "ready t \<Longrightarrow> \<not> waiting (stop_beat (stop_election t)) \<and> quiet (stop_beat (stop_election t))"
  using stopped beat_stopped by blast

text \<open>Stopping does not take the callback back, so a later reset undoes it.\<close>
lemma revived: "ready t \<Longrightarrow> waiting (reset_election (stop_beat (stop_election t)))"
  using stopped beat_stopped reset by blast

end

interpretation tm: timer_service startElectionTimer resetElectionTimer stopElectionTimer startHeartbeat stopHeartbeat
    fireElectionTimer timers_ok "\<lambda>t. timers_ok t \<and> electionCallback t" electionPending
    "\<lambda>t. heartbeatTimer t = Some heartbeatIntervalMs" "\<lambda>t. heartbeatTimer t = None"
  by unfold_locales (auto simp: timers_ok_def timer_ops Let_def)

end
