(* ===== verification/Metrics.thy ===== *)
theory Metrics
  imports Replica_Types
begin

text \<open>
  The Prometheus metrics of \<open>replica/src/metrics.ts\<close>: two counters, a cumulative latency
  histogram, and the text rendering of a status together with them. The module's variables are
  one record that the node's operations thread through.
\<close>

section \<open>State and operations\<close>

definition LATENCY_BUCKETS_MS :: "nat list" where
  "LATENCY_BUCKETS_MS = [5, 10, 25, 50, 100, 250, 500, 1000]"

record metrics =
  electionsStarted :: nat
  leadershipChanges :: nat
  latencyBucketCounts :: "nat list"
  latencySum :: nat
  latencyCount :: nat

definition new_metrics :: metrics where
  "new_metrics = \<lparr>electionsStarted = 0, leadershipChanges = 0,
     latencyBucketCounts = replicate (length LATENCY_BUCKETS_MS) 0, latencySum = 0, latencyCount = 0\<rparr>"

definition recordElectionStarted :: "metrics \<Rightarrow> metrics" where
  "recordElectionStarted m = m\<lparr>electionsStarted := electionsStarted m + 1\<rparr>"

definition recordLeadershipChange :: "metrics \<Rightarrow> metrics" where
  "recordLeadershipChange m = m\<lparr>leadershipChanges := leadershipChanges m + 1\<rparr>"

text \<open>The loop over the buckets, from index \<open>i\<close> on.\<close>
fun bump_buckets :: "nat \<Rightarrow> nat list \<Rightarrow> nat list \<Rightarrow> nat list" where
  "bump_buckets ms (b # bs) (c # cs) = (if ms \<le> b then c + 1 else c) # bump_buckets ms bs cs"
| "bump_buckets ms _ cs = cs"

definition observeWriteLatency :: "metrics \<Rightarrow> nat \<Rightarrow> metrics" where
  "observeWriteLatency m ms =
     m\<lparr>latencySum := latencySum m + ms, latencyCount := latencyCount m + 1,
       latencyBucketCounts := bump_buckets ms LATENCY_BUCKETS_MS (latencyBucketCounts m)\<rparr>"

definition digit_char :: "nat \<Rightarrow> char" where
  "digit_char d = char_of (48 + d)"

fun show_nat :: "nat \<Rightarrow> string" where
  "show_nat n = (if n < 10 then [digit_char n] else show_nat (n div 10) @ [digit_char (n mod 10)])"

declare show_nat.simps [simp del]

fun STATE_VALUE :: "node_state \<Rightarrow> nat" where
  "STATE_VALUE Follower = 0"
| "STATE_VALUE Candidate = 1"
| "STATE_VALUE Leader = 2"

definition bucket_lines :: "metrics \<Rightarrow> string list" where
  "bucket_lines m =
     map (\<lambda>(b, c). ''raft_write_latency_ms_bucket{le=\"'' @ show_nat b @ ''\"} '' @ show_nat c)
       (zip LATENCY_BUCKETS_MS (latencyBucketCounts m))"

definition metric_lines :: "metrics \<Rightarrow> replica_status \<Rightarrow> string list" where
  "metric_lines m status =
    [''# HELP raft_state Node state (0=follower, 1=candidate, 2=leader)'',
     ''# TYPE raft_state gauge'',
     ''raft_state '' @ show_nat (STATE_VALUE (st_state status)),
     ''# HELP raft_current_term Current Raft term'',
     ''# TYPE raft_current_term gauge'',
     ''raft_current_term '' @ show_nat (st_currentTerm status),
     ''# HELP raft_commit_index Highest log index known committed'',
     ''# TYPE raft_commit_index gauge'',
     ''raft_commit_index '' @ show_nat (st_commitIndex status),
     ''# HELP raft_last_applied Highest log index applied to the state machine'',
     ''# TYPE raft_last_applied gauge'',
     ''raft_last_applied '' @ show_nat (st_lastApplied status),
     ''# HELP raft_log_length Number of entries currently held in the log'',
     ''# TYPE raft_log_length gauge'',
     ''raft_log_length '' @ show_nat (st_logLength status),
     ''# HELP raft_elections_started_total Elections this node has started as candidate'',
     ''# TYPE raft_elections_started_total counter'',
     ''raft_elections_started_total '' @ show_nat (electionsStarted m),
     ''# HELP raft_leadership_changes_total Times this node has become leader'',
     ''# TYPE raft_leadership_changes_total counter'',
     ''raft_leadership_changes_total '' @ show_nat (leadershipChanges m),
     ''# HELP raft_write_latency_ms Committed client-write latency in milliseconds'',
     ''# TYPE raft_write_latency_ms histogram'']
    @ bucket_lines m
    @ [''raft_write_latency_ms_bucket{le=\"+Inf\"} '' @ show_nat (latencyCount m),
       ''raft_write_latency_ms_sum '' @ show_nat (latencySum m),
       ''raft_write_latency_ms_count '' @ show_nat (latencyCount m)]"

definition newline :: char where
  "newline = char_of (10 :: nat)"

definition renderMetrics :: "metrics \<Rightarrow> replica_status \<Rightarrow> string" where
  "renderMetrics m status = concat (map (\<lambda>line. line @ [newline]) (metric_lines m status))"

section \<open>Lemmas\<close>

lemma bump_buckets_map:
  "bump_buckets ms bs (map (\<lambda>b. f b) bs) = map (\<lambda>b. if ms \<le> b then f b + 1 else f b) bs"
  by (induction bs) simp_all

text \<open>Each bucket holds the number of observations that are at most its bound.\<close>
lemma observed_buckets:
  "latencyBucketCounts (foldl observeWriteLatency new_metrics obs) =
     map (\<lambda>b. length (filter (\<lambda>ms. ms \<le> b) obs)) LATENCY_BUCKETS_MS"
proof (induction obs rule: rev_induct)
  case Nil
  then show ?case by (simp add: new_metrics_def LATENCY_BUCKETS_MS_def)
next
  case (snoc ms obs)
  then show ?case
    by (simp add: observeWriteLatency_def bump_buckets_map)
qed

lemma observed_count:
  "latencyCount (foldl observeWriteLatency new_metrics obs) = length obs \<and>
   latencySum (foldl observeWriteLatency new_metrics obs) = sum_list obs"
  by (induction obs rule: rev_induct) (simp_all add: observeWriteLatency_def new_metrics_def)

end
