(* ===== verification/Raft_Node.thy ===== *)
theory Raft_Node
  imports Raft_Log Boards Timers Metrics
begin

text \<open>
  The class \<open>RaftNode\<close> of \<open>replica/src/raftNode.ts\<close>: its state and every handler that runs
  without waiting for the network (role changes, the five RPC handlers, applying committed entries,
  snapshots, commit advancement, queries). The asynchronous operations, which send RPCs and go on
  when the answers arrive, are in \<open>Raft_Async\<close>, cut at their \<open>await\<close>s. Logging to the
  console is left out. An operation returns the new node, and its reply where it has one.
\<close>

section \<open>State\<close>

record node_config =
  replicaId :: string
  peers :: "url list"
  selfUrl :: url
  snapshotThreshold :: nat
  batchCap :: nat

record raft_node =
  config :: node_config
  currentTerm :: nat
  votedFor :: "string option"
  raftLog :: raft_log
  state :: node_state
  leaderId :: "string option"
  leaderAddr :: "url option"
  commitIndex :: nat
  lastApplied :: nat
  nextIndex :: "url \<rightharpoonup> nat"
  matchIndex :: "url \<rightharpoonup> nat"
  replicating :: "url set"
  boards :: board_state
  timers :: timer_manager
  nodeMetrics :: metrics

abbreviation my_id :: "raft_node \<Rightarrow> string" where
  "my_id n \<equiv> replicaId (config n)"

abbreviation my_peers :: "raft_node \<Rightarrow> url list" where
  "my_peers n \<equiv> peers (config n)"

abbreviation my_majority :: "raft_node \<Rightarrow> nat" where
  "my_majority n \<equiv> majority (length (my_peers n))"

abbreviation store :: "raft_node \<Rightarrow> persistence" where
  "store n \<equiv> persistence (raftLog n)"

section \<open>Durable state\<close>

definition persistState :: "raft_node \<Rightarrow> raft_node" where
  "persistState n =
     n\<lparr>raftLog := (raftLog n)\<lparr>persistence := saveState (store n)
        \<lparr>ps_currentTerm = currentTerm n, ps_votedFor = votedFor n, ps_commitIndex = commitIndex n\<rparr>\<rparr>\<rparr>"

section \<open>Snapshots and applying committed entries\<close>

definition takeSnapshot :: "raft_node \<Rightarrow> raft_node" where
  "takeSnapshot n =
     (let trm = getTermAt (raftLog n) (commitIndex n);
          sn = \<lparr>sn_lastIncludedIndex = commitIndex n, sn_lastIncludedTerm = trm,
                sn_boards = snapshot_boards (boards n)\<rparr>;
          l = (raftLog n)\<lparr>persistence := saveSnapshot (store n) sn\<rparr>
      in n\<lparr>raftLog := log_compact l (commitIndex n) trm\<rparr>)"

definition maybeSnapshot :: "raft_node \<Rightarrow> raft_node" where
  "maybeSnapshot n =
     (if int (commitIndex n) - int (lastIncludedIndex (raftLog n)) < int (snapshotThreshold (config n))
      then n else takeSnapshot n)"

text \<open>One turn of the loop of \<open>applyCommitted\<close>, then the loop.\<close>
definition apply_next :: "raft_node \<Rightarrow> raft_node" where
  "apply_next n =
     (let n1 = n\<lparr>lastApplied := lastApplied n + 1\<rparr> in
      case getEntry (raftLog n1) (lastApplied n1) of
        Some entry \<Rightarrow> n1\<lparr>boards := applyBoardEvent (boards n1) (e_stroke entry)\<rparr>
      | None \<Rightarrow> n1)"

lemma apply_next_fields [simp]:
  "lastApplied (apply_next n) = lastApplied n + 1" "commitIndex (apply_next n) = commitIndex n"
  "raftLog (apply_next n) = raftLog n" "config (apply_next n) = config n"
  by (simp_all add: apply_next_def Let_def split: option.split)

function apply_loop :: "raft_node \<Rightarrow> raft_node" where
  "apply_loop n = (if lastApplied n < commitIndex n then apply_loop (apply_next n) else n)"
  by pat_completeness auto
termination
  by (relation "measure (\<lambda>n. commitIndex n - lastApplied n)") auto

declare apply_loop.simps [simp del]

definition applyCommitted :: "raft_node \<Rightarrow> raft_node" where
  "applyCommitted n = maybeSnapshot (apply_loop n)"

definition applySnapshot :: "raft_node \<Rightarrow> nat \<Rightarrow> nat \<Rightarrow> (string \<times> stroke list) list \<Rightarrow> raft_node" where
  "applySnapshot n li lt bds =
     (let n1 = n\<lparr>raftLog := log_installSnapshot (raftLog n) li lt\<rparr>;
          n2 = n1\<lparr>boards := restoreBoardState bds, commitIndex := li, lastApplied := li\<rparr>;
          n3 = n2\<lparr>raftLog := (raftLog n2)\<lparr>persistence := saveSnapshot (store n2)
                 \<lparr>sn_lastIncludedIndex = li, sn_lastIncludedTerm = lt, sn_boards = bds\<rparr>\<rparr>\<rparr>
      in persistState n3)"

text \<open>
  The tail that \<open>handleAppendEntries\<close>, \<open>handleHeartbeat\<close> and \<open>requestCatchUp\<close> share: follow
  the leader's commit index as far as the own log goes.
\<close>
definition follow_commit :: "raft_node \<Rightarrow> nat \<Rightarrow> raft_node" where
  "follow_commit n leaderCommit =
     (if leaderCommit > commitIndex n
      then applyCommitted (persistState (n\<lparr>commitIndex := min leaderCommit (getLastIndex (raftLog n))\<rparr>))
      else n)"

section \<open>Construction, start and stop\<close>

definition new_RaftNode :: "node_config \<Rightarrow> timer_manager \<Rightarrow> metrics \<Rightarrow> persistence \<Rightarrow> raft_node" where
  "new_RaftNode cfg tm m p =
     (let n0 = \<lparr>config = cfg, currentTerm = 0, votedFor = None, raftLog = new_RaftLog p,
               state = Follower, leaderId = None, leaderAddr = None, commitIndex = 0, lastApplied = 0,
               nextIndex = Map.empty, matchIndex = Map.empty, replicating = {}, boards = new_boards,
               timers = tm, nodeMetrics = m\<rparr>;
          n1 = (case loadSnapshot p of
                  None \<Rightarrow> n0
                | Some sn \<Rightarrow> n0\<lparr>boards := restoreBoardState (sn_boards sn),
                               lastApplied := sn_lastIncludedIndex sn\<rparr>);
          saved = loadState p;
          n2 = n1\<lparr>currentTerm := ps_currentTerm saved, votedFor := ps_votedFor saved,
                  commitIndex := max (ps_commitIndex saved) (lastIncludedIndex (raftLog n1))\<rparr>
      in applyCommitted n2)"

definition start :: "raft_node \<Rightarrow> raft_node" where
  "start n = n\<lparr>timers := startElectionTimer (timers n)\<rparr>"

definition stop :: "raft_node \<Rightarrow> raft_node" where
  "stop n = n\<lparr>timers := stopHeartbeat (stopElectionTimer (timers n))\<rparr>"

section \<open>Role changes\<close>

definition becomeFollower :: "raft_node \<Rightarrow> nat \<Rightarrow> string option \<Rightarrow> url option \<Rightarrow> raft_node" where
  "becomeFollower n trm lid laddr =
     (let wasLeader = (state n = Leader);
          n1 = n\<lparr>state := Follower, currentTerm := trm, votedFor := None\<rparr>;
          n2 = (if lid \<noteq> None then n1\<lparr>leaderId := lid\<rparr> else n1);
          n3 = (if laddr \<noteq> None then n2\<lparr>leaderAddr := laddr\<rparr> else n2);
          n4 = persistState n3;
          n5 = (if wasLeader then n4\<lparr>timers := stopHeartbeat (timers n4)\<rparr> else n4)
      in n5\<lparr>timers := resetElectionTimer (timers n5)\<rparr>)"

definition becomeCandidate :: "raft_node \<Rightarrow> raft_node" where
  "becomeCandidate n =
     (let n1 = n\<lparr>state := Candidate, currentTerm := currentTerm n + 1, votedFor := Some (my_id n),
                leaderId := None\<rparr>;
          n2 = persistState n1
      in n2\<lparr>nodeMetrics := recordElectionStarted (nodeMetrics n2)\<rparr>)"

definition becomeLeader :: "raft_node \<Rightarrow> raft_node" where
  "becomeLeader n =
     (let n1 = n\<lparr>state := Leader, leaderId := Some (my_id n), leaderAddr := Some (selfUrl (config n)),
                nodeMetrics := recordLeadershipChange (nodeMetrics n)\<rparr>;
          nextIdx = getLastIndex (raftLog n1) + 1;
          n2 = n1\<lparr>nextIndex := foldl (\<lambda>m peer. m(peer \<mapsto> nextIdx)) (nextIndex n1) (my_peers n1),
                  matchIndex := foldl (\<lambda>m peer. m(peer \<mapsto> 0)) (matchIndex n1) (my_peers n1)\<rparr>
      in n2\<lparr>timers := startHeartbeat (stopElectionTimer (timers n2))\<rparr>)"

section \<open>RequestVote\<close>

definition isLogUpToDate :: "raft_node \<Rightarrow> nat \<Rightarrow> nat \<Rightarrow> bool" where
  "isLogUpToDate n candidateLastIndex candidateLastTerm =
     (let myLastTerm = getLastTerm (raftLog n) in
      if candidateLastTerm \<noteq> myLastTerm then candidateLastTerm > myLastTerm
      else candidateLastIndex \<ge> getLastIndex (raftLog n))"

definition handleRequestVote :: "raft_node \<Rightarrow> request_vote_args \<Rightarrow> raft_node \<times> request_vote_result" where
  "handleRequestVote n0 args =
     (let n = (if rv_term args > currentTerm n0 then becomeFollower n0 (rv_term args) None None else n0);
          canVote = (rv_term args \<ge> currentTerm n \<and>
                     (votedFor n = None \<or> votedFor n = Some (rv_candidateId args)) \<and>
                     isLogUpToDate n (rv_lastLogIndex args) (rv_lastLogTerm args));
          n' = (if canVote
                then let n1 = persistState (n\<lparr>votedFor := Some (rv_candidateId args), currentTerm := rv_term args\<rparr>)
                     in n1\<lparr>timers := resetElectionTimer (timers n1)\<rparr>
                else n)
      in (n', \<lparr>rvr_term = currentTerm n', rvr_voteGranted = canVote, rvr_responderId = my_id n'\<rparr>))"

section \<open>AppendEntries\<close>

text \<open>
  The first lines of every handler of a message from a leader: adopt its term and step down, or
  note who leads and keep the election timer from firing.
\<close>
definition accept_leader :: "raft_node \<Rightarrow> nat \<Rightarrow> string \<Rightarrow> url option \<Rightarrow> raft_node" where
  "accept_leader n trm lid laddr =
     (if trm > currentTerm n \<or> state n \<noteq> Follower
      then becomeFollower n trm (Some lid) laddr
      else let n1 = n\<lparr>leaderId := Some lid\<rparr>;
               n2 = (if laddr \<noteq> None then n1\<lparr>leaderAddr := laddr\<rparr> else n1)
           in n2\<lparr>timers := resetElectionTimer (timers n2)\<rparr>)"

definition log_consistent :: "raft_log \<Rightarrow> append_entries_args \<Rightarrow> bool" where
  "log_consistent l args =
     (let lastIncluded = lastIncludedIndex l in
      if ae_prevLogIndex args > lastIncluded then
        (case getEntry l (ae_prevLogIndex args) of
           None \<Rightarrow> False
         | Some prevEntry \<Rightarrow> e_term prevEntry = ae_prevLogTerm args)
      else if ae_prevLogIndex args = lastIncluded \<and> lastIncluded > 0 then
        lastIncludedTerm l = ae_prevLogTerm args
      else True)"

text \<open>
  The loop over the received entries: \<open>Inl\<close> is the early return at a conflict with a committed
  entry, with the log as it is then, \<open>Inr\<close> the normal end.
\<close>
fun ae_loop :: "nat \<Rightarrow> nat \<Rightarrow> log_entry list \<Rightarrow> raft_log \<Rightarrow> raft_log + raft_log" where
  "ae_loop lastIncluded commit [] l = Inr l"
| "ae_loop lastIncluded commit (entry # rest) l =
     (if e_index entry \<le> lastIncluded then ae_loop lastIncluded commit rest l
      else if (case getEntry l (e_index entry) of
                 None \<Rightarrow> False
               | Some existing \<Rightarrow> e_term existing \<noteq> e_term entry \<and> e_index entry \<le> commit)
           then Inl l
      else ae_loop lastIncluded commit rest (place l entry))"

definition append_reply :: "raft_node \<Rightarrow> bool \<Rightarrow> append_entries_result" where
  "append_reply n success = \<lparr>aer_term = currentTerm n, aer_success = success,
     aer_responderId = my_id n, aer_currentLogLength = getLength (raftLog n)\<rparr>"

definition handleAppendEntries :: "raft_node \<Rightarrow> append_entries_args \<Rightarrow> raft_node \<times> append_entries_result" where
  "handleAppendEntries n0 args =
     (if ae_term args < currentTerm n0 then (n0, append_reply n0 False)
      else let n = accept_leader n0 (ae_term args) (ae_leaderId args) (ae_leaderAddr args) in
      if \<not> log_consistent (raftLog n) args then (n, append_reply n False)
      else case ae_loop (lastIncludedIndex (raftLog n)) (commitIndex n) (ae_entries args) (raftLog n) of
          Inl l \<Rightarrow> let n1 = n\<lparr>raftLog := l\<rparr> in (n1, append_reply n1 False)
        | Inr l \<Rightarrow> let n1 = follow_commit (n\<lparr>raftLog := l\<rparr>) (ae_leaderCommit args) in (n1, append_reply n1 True))"

section \<open>Heartbeat\<close>

definition heartbeat_reply :: "raft_node \<Rightarrow> bool \<Rightarrow> heartbeat_result" where
  "heartbeat_reply n success = \<lparr>hbr_term = currentTerm n, hbr_success = success, hbr_responderId = my_id n\<rparr>"

definition handleHeartbeat :: "raft_node \<Rightarrow> heartbeat_args \<Rightarrow> raft_node \<times> heartbeat_result" where
  "handleHeartbeat n0 args =
     (if hb_term args < currentTerm n0 then (n0, heartbeat_reply n0 False)
      else let n = follow_commit
                     (accept_leader n0 (hb_term args) (hb_leaderId args) (hb_leaderAddr args))
                     (hb_leaderCommit args)
           in (n, heartbeat_reply n True))"

section \<open>InstallSnapshot and SyncLog\<close>

definition handleInstallSnapshot ::
    "raft_node \<Rightarrow> install_snapshot_args \<Rightarrow> raft_node \<times> install_snapshot_result" where
  "handleInstallSnapshot n0 args =
     (let reply = (\<lambda>n. \<lparr>isr_term = currentTerm n, isr_responderId = my_id n\<rparr>) in
      if is_term args < currentTerm n0 then (n0, reply n0)
      else let n = accept_leader n0 (is_term args) (is_leaderId args) None in
      if is_lastIncludedIndex args \<le> commitIndex n then (n, reply n)
      else let n1 = applySnapshot n (is_lastIncludedIndex args) (is_lastIncludedTerm args) (is_boards args)
           in (n1, reply n1))"

definition handleSyncLog :: "raft_node \<Rightarrow> sync_log_args \<Rightarrow> raft_node \<times> sync_log_result" where
  "handleSyncLog n0 args =
     (let n = (if sl_term args > currentTerm n0 then becomeFollower n0 (sl_term args) None None else n0);
          committed = \<lparr>slr_term = currentTerm n,
                       slr_entries = filter (\<lambda>e. e_index e \<le> commitIndex n)
                                       (getEntriesFrom (raftLog n) (sl_fromIndex args)),
                       slr_commitIndex = commitIndex n, slr_snapshot = None\<rparr>
      in if sl_fromIndex args \<le> lastIncludedIndex (raftLog n)
         then (case loadSnapshot (store n) of
                 Some sn \<Rightarrow> (n, \<lparr>slr_term = currentTerm n, slr_entries = [],
                               slr_commitIndex = commitIndex n, slr_snapshot = Some sn\<rparr>)
               | None \<Rightarrow> (n, committed))
         else (n, committed))"

section \<open>Commit advancement on the leader\<close>

definition replicatedCount :: "raft_node \<Rightarrow> nat \<Rightarrow> nat" where
  "replicatedCount n i = 1 + length (filter (\<lambda>peer. i \<le> nullish (matchIndex n peer) 0) (my_peers n))"

text \<open>The loop from the last index down to the first uncommitted one.\<close>
fun find_commit :: "raft_node \<Rightarrow> nat \<Rightarrow> nat option" where
  "find_commit n 0 = None"
| "find_commit n (Suc k) =
     (let i = Suc k in
      if i \<le> commitIndex n then None
      else case getEntry (raftLog n) i of
             None \<Rightarrow> find_commit n k
           | Some entry \<Rightarrow>
               if e_term entry = currentTerm n \<and> replicatedCount n i \<ge> my_majority n then Some i
               else find_commit n k)"

definition updateCommitIndex :: "raft_node \<Rightarrow> raft_node" where
  "updateCommitIndex n =
     (case find_commit n (getLastIndex (raftLog n)) of
        None \<Rightarrow> n
      | Some i \<Rightarrow> applyCommitted (persistState (n\<lparr>commitIndex := i\<rparr>)))"

section \<open>Queries\<close>

definition isReady :: "raft_node \<Rightarrow> bool" where
  "isReady n \<longleftrightarrow> state n = Leader \<or> (state n = Follower \<and> leaderId n \<noteq> None)"

definition getStatus :: "raft_node \<Rightarrow> replica_status" where
  "getStatus n = \<lparr>st_replicaId = my_id n, st_state = state n, st_currentTerm = currentTerm n,
     st_leaderId = leaderId n, st_logLength = getLength (raftLog n), st_commitIndex = commitIndex n,
     st_lastApplied = lastApplied n\<rparr>"

end
