(* ===== verification/Raft_Async.thy ===== *)
theory Raft_Async
  imports Raft_Node
begin

text \<open>
  The asynchronous operations of \<open>RaftNode\<close> (\<open>replica/src/raftNode.ts\<close>), cut at their
  \<open>await\<close>s: what runs before the RPCs are sent, and what runs when an answer (or an error)
  arrives, on the node as it is by then. A reply that is \<open>None\<close> is a call that failed. The
  \<open>then\<close> and \<open>finally\<close> callbacks of one vote reply are two functions that run one after the
  other. The whole \<open>handleClientWrite\<close> and \<open>readBoardState\<close> have the awaits as arguments: for each,
  how the node that went to sleep becomes the node that goes on, whatever it handled meanwhile. A closed
  round, in which the answers come and nothing else, is one such argument.
\<close>

section \<open>Elections\<close>

text \<open>The local variables of one call of \<open>runElection\<close>.\<close>
record election =
  el_args :: request_vote_args
  el_votesGranted :: nat
  el_pendingReplies :: nat
  el_settled :: bool

definition finalizeElection :: "raft_node \<Rightarrow> election \<Rightarrow> raft_node \<times> election" where
  "finalizeElection n el =
     (if el_settled el then (n, el)
      else (if state n = Candidate \<and> currentTerm n = rv_term (el_args el)
            then (if el_votesGranted el \<ge> my_majority n then becomeLeader n
                  else n\<lparr>timers := resetElectionTimer (timers n)\<rparr>)
            else n,
            el\<lparr>el_settled := True\<rparr>))"

definition runElection :: "raft_node \<Rightarrow> raft_node \<times> election" where
  "runElection n0 =
     (let n = becomeCandidate n0;
          args = \<lparr>rv_term = currentTerm n, rv_candidateId = my_id n,
                  rv_lastLogIndex = getLastIndex (raftLog n), rv_lastLogTerm = getLastTerm (raftLog n)\<rparr>;
          el = \<lparr>el_args = args, el_votesGranted = 1, el_pendingReplies = length (my_peers n),
                el_settled = False\<rparr>
      in if el_pendingReplies el = 0 then finalizeElection n el else (n, el))"

definition vote_then :: "raft_node \<Rightarrow> election \<Rightarrow> request_vote_result \<Rightarrow> raft_node \<times> election" where
  "vote_then n el reply =
     (if el_settled el \<or> state n \<noteq> Candidate \<or> currentTerm n \<noteq> rv_term (el_args el) then (n, el)
      else if rvr_term reply > currentTerm n
           then finalizeElection (becomeFollower n (rvr_term reply) None None) el
      else if rvr_voteGranted reply
           then let el1 = el\<lparr>el_votesGranted := el_votesGranted el + 1\<rparr>
                in if el_votesGranted el1 \<ge> my_majority n then finalizeElection n el1 else (n, el1)
      else (n, el))"

definition vote_finally :: "raft_node \<Rightarrow> election \<Rightarrow> raft_node \<times> election" where
  "vote_finally n el =
     (let el1 = el\<lparr>el_pendingReplies := el_pendingReplies el - 1\<rparr>
      in if el_pendingReplies el1 = 0 then finalizeElection n el1 else (n, el1))"

definition vote_settled ::
    "raft_node \<Rightarrow> election \<Rightarrow> request_vote_result option \<Rightarrow> raft_node \<times> election" where
  "vote_settled n el reply =
     (let (n1, el1) = (case reply of None \<Rightarrow> (n, el) | Some r \<Rightarrow> vote_then n el r)
      in vote_finally n1 el1)"

definition onElectionTimeout :: "raft_node \<Rightarrow> (raft_node \<times> election) option" where
  "onElectionTimeout n = (if state n = Leader then None else Some (runElection n))"

section \<open>Replication to one peer\<close>

datatype replication =
    NoSend
  | SendAppend nat append_entries_args
  | SendSnapshot install_snapshot_args

datatype rpc_outcome =
    AppendResult append_entries_result
  | SnapshotResult install_snapshot_result
  | RpcFailed

definition sendInstallSnapshot :: "raft_node \<Rightarrow> replication" where
  "sendInstallSnapshot n =
     (case loadSnapshot (store n) of
        None \<Rightarrow> NoSend
      | Some sn \<Rightarrow> SendSnapshot \<lparr>is_term = currentTerm n, is_leaderId = my_id n,
          is_lastIncludedIndex = sn_lastIncludedIndex sn, is_lastIncludedTerm = sn_lastIncludedTerm sn,
          is_boards = sn_boards sn\<rparr>)"

definition replicateOnce :: "raft_node \<Rightarrow> url \<Rightarrow> replication" where
  "replicateOnce n peer =
     (if state n \<noteq> Leader then NoSend
      else let nextIdx = nullish (nextIndex n peer) (getLastIndex (raftLog n) + 1) in
      if nextIdx \<le> lastIncludedIndex (raftLog n) then sendInstallSnapshot n
      else let prevLogIndex = nextIdx - 1;
               prevLogTerm = getTermAt (raftLog n) prevLogIndex;
               es = take (batchCap (config n)) (getEntriesFrom (raftLog n) nextIdx)
           in SendAppend nextIdx
                \<lparr>ae_term = currentTerm n, ae_leaderId = my_id n, ae_leaderAddr = Some (selfUrl (config n)),
                 ae_prevLogIndex = prevLogIndex, ae_prevLogTerm = prevLogTerm, ae_entries = es,
                 ae_leaderCommit = commitIndex n\<rparr>)"

definition appendEntries_settled ::
    "raft_node \<Rightarrow> url \<Rightarrow> nat \<Rightarrow> append_entries_args \<Rightarrow> append_entries_result \<Rightarrow> raft_node" where
  "appendEntries_settled n peer nextIdx args result =
     (if aer_term result > currentTerm n then becomeFollower n (aer_term result) None None
      else if aer_success result then
        (let es = ae_entries args in
         if length es > 0
         then n\<lparr>nextIndex := (nextIndex n)(peer \<mapsto> nextIdx + length es),
                matchIndex := (matchIndex n)(peer \<mapsto> nextIdx + length es - 1)\<rparr>
         else n\<lparr>matchIndex := (matchIndex n)(peer \<mapsto> max (nullish (matchIndex n peer) 0) (ae_prevLogIndex args))\<rparr>)
      else n\<lparr>nextIndex := (nextIndex n)(peer \<mapsto> max 1 (aer_currentLogLength result + 1))\<rparr>)"

definition installSnapshot_settled ::
    "raft_node \<Rightarrow> url \<Rightarrow> install_snapshot_args \<Rightarrow> install_snapshot_result \<Rightarrow> raft_node" where
  "installSnapshot_settled n peer args result =
     (if isr_term result > currentTerm n then becomeFollower n (isr_term result) None None
      else n\<lparr>nextIndex := (nextIndex n)(peer \<mapsto> is_lastIncludedIndex args + 1),
             matchIndex := (matchIndex n)(peer \<mapsto> is_lastIncludedIndex args)\<rparr>)"

text \<open>
  The guard of \<open>driveReplication\<close>: a peer with a send in flight gets no second one. The
  returned sending is what goes on the wire.
\<close>
definition driveReplication :: "raft_node \<Rightarrow> url \<Rightarrow> raft_node \<times> replication" where
  "driveReplication n peer =
     (if peer \<in> replicating n then (n, NoSend)
      else let r = replicateOnce n peer
           in (if r = NoSend then n else n\<lparr>replicating := insert peer (replicating n)\<rparr>, r))"

definition replication_settled :: "raft_node \<Rightarrow> url \<Rightarrow> replication \<Rightarrow> rpc_outcome \<Rightarrow> raft_node" where
  "replication_settled n peer r outcome =
     (let n1 = (case (r, outcome) of
                  (SendAppend nextIdx args, AppendResult result) \<Rightarrow>
                    appendEntries_settled n peer nextIdx args result
                | (SendSnapshot args, SnapshotResult result) \<Rightarrow> installSnapshot_settled n peer args result
                | _ \<Rightarrow> n)
      in n1\<lparr>replicating := replicating n1 - {peer}\<rparr>)"

text \<open>\<open>this.peers.map((peer) => this.driveReplication(peer))\<close>: the sendings, in order.\<close>
fun drive_peers :: "raft_node \<Rightarrow> url list \<Rightarrow> raft_node \<times> (url \<times> replication) list" where
  "drive_peers n [] = (n, [])"
| "drive_peers n (peer # ps) =
     (let (n1, r) = driveReplication n peer;
          (n2, rs) = drive_peers n1 ps
      in (n2, if r = NoSend then rs else (peer, r) # rs))"

section \<open>Heartbeats\<close>

definition sendHeartbeats_begin :: "raft_node \<Rightarrow> raft_node \<times> (url \<times> replication) list" where
  "sendHeartbeats_begin n = (if state n \<noteq> Leader then (n, []) else drive_peers n (my_peers n))"

definition sendHeartbeats_end :: "raft_node \<Rightarrow> raft_node" where
  "sendHeartbeats_end n = (if state n = Leader then updateCommitIndex n else n)"

text \<open>A closed round of replication: every sending is answered before anything else happens.\<close>
definition replicate_round :: "raft_node \<Rightarrow> (url \<Rightarrow> replication \<Rightarrow> rpc_outcome) \<Rightarrow> raft_node" where
  "replicate_round n answer =
     (let (n1, sends) = drive_peers n (my_peers n)
      in foldl (\<lambda>n (peer, r). replication_settled n peer r (answer peer r)) n1 sends)"

definition sendHeartbeats :: "raft_node \<Rightarrow> (url \<Rightarrow> replication \<Rightarrow> rpc_outcome) \<Rightarrow> raft_node" where
  "sendHeartbeats n answer =
     (if state n \<noteq> Leader then n else sendHeartbeats_end (replicate_round n answer))"

section \<open>Client writes\<close>

definition maxRetries :: nat where "maxRetries = 3"

definition client_write_begin :: "raft_node \<Rightarrow> stroke \<Rightarrow> client_write_result + raft_node \<times> nat" where
  "client_write_begin n stroke =
     (if state n \<noteq> Leader then Inl \<lparr>cw_success = False, cw_leaderHint = leaderAddr n\<rparr>
      else let entry = \<lparr>e_index = getLastIndex (raftLog n) + 1, e_term = currentTerm n, e_stroke = stroke\<rparr>;
               n1 = n\<lparr>raftLog := log_append (raftLog n) entry\<rparr>
           in Inr (n1\<lparr>matchIndex := (matchIndex n1)(my_id n1 \<mapsto> e_index entry)\<rparr>, e_index entry))"

text \<open>
  What follows a round of replication: \<open>None\<close> starts the next attempt. The last argument is the
  latency to record.
\<close>
definition client_write_check :: "raft_node \<Rightarrow> nat \<Rightarrow> nat \<Rightarrow> (raft_node \<times> client_write_result) option" where
  "client_write_check n index latency =
     (if state n \<noteq> Leader then Some (n, \<lparr>cw_success = False, cw_leaderHint = leaderAddr n\<rparr>)
      else if replicatedCount n index \<ge> my_majority n
      then let n1 = updateCommitIndex n
           in Some (n1\<lparr>nodeMetrics := observeWriteLatency (nodeMetrics n1) latency\<rparr>,
                    \<lparr>cw_success = True, cw_leaderHint = None\<rparr>)
      else None)"

text \<open>
  The \<open>await\<close> of an attempt: its number, what this call has put on the wire and the node then; the result is
  the node when every one of these calls, and of those in flight that it joined, is settled.
\<close>
type_synonym write_wait = "nat \<Rightarrow> (url \<times> replication) list \<Rightarrow> raft_node \<Rightarrow> raft_node"

fun client_write_attempts ::
    "raft_node \<Rightarrow> nat \<Rightarrow> nat \<Rightarrow> write_wait \<Rightarrow> nat \<Rightarrow> raft_node \<times> client_write_result"
where
  "client_write_attempts n index latency wait 0 = (n, \<lparr>cw_success = False, cw_leaderHint = None\<rparr>)"
| "client_write_attempts n index latency wait (Suc left) =
     (let (n1, sends) = drive_peers n (my_peers n);
          n2 = wait (maxRetries - Suc left) sends n1
      in case client_write_check n2 index latency of
           Some r \<Rightarrow> r
         | None \<Rightarrow> client_write_attempts n2 index latency wait left)"

definition handleClientWrite :: "raft_node \<Rightarrow> stroke \<Rightarrow> nat \<Rightarrow> write_wait \<Rightarrow> raft_node \<times> client_write_result" where
  "handleClientWrite n stroke latency wait =
     (case client_write_begin n stroke of
        Inl r \<Rightarrow> (n, r)
      | Inr (n1, index) \<Rightarrow> client_write_attempts n1 index latency wait maxRetries)"

text \<open>Nothing happens but that the calls are answered, in the order in which they were made.\<close>
definition quiet_wait :: "(nat \<Rightarrow> url \<Rightarrow> replication \<Rightarrow> rpc_outcome) \<Rightarrow> write_wait" where
  "quiet_wait answer attempt sends n = foldl (\<lambda>n (peer, r). replication_settled n peer r (answer attempt peer r)) n sends"

section \<open>Follower catch-up\<close>

definition catch_up_targets :: "raft_node \<Rightarrow> url list" where
  "catch_up_targets n =
     (if state n \<noteq> Follower then []
      else if js_truthy (leaderAddr n) then [the (leaderAddr n)] else my_peers n)"

definition catch_up_args :: "raft_node \<Rightarrow> sync_log_args" where
  "catch_up_args n = \<lparr>sl_fromIndex = getLastIndex (raftLog n) + 1, sl_term = currentTerm n,
     sl_leaderId = nullish (leaderId n) []\<rparr>"

text \<open>Unlike \<open>ae_loop\<close>, a conflict with a committed entry is skipped, not an early return.\<close>
fun cu_loop :: "nat \<Rightarrow> nat \<Rightarrow> log_entry list \<Rightarrow> raft_log \<Rightarrow> raft_log" where
  "cu_loop lastIncluded commit [] l = l"
| "cu_loop lastIncluded commit (entry # rest) l =
     (if e_index entry \<le> lastIncluded then cu_loop lastIncluded commit rest l
      else if (case getEntry l (e_index entry) of
                 None \<Rightarrow> False
               | Some existing \<Rightarrow> e_term existing \<noteq> e_term entry \<and> e_index entry \<le> commit)
           then cu_loop lastIncluded commit rest l
      else cu_loop lastIncluded commit rest (place l entry))"

definition catch_up_apply :: "raft_node \<Rightarrow> sync_log_result \<Rightarrow> raft_node" where
  "catch_up_apply n0 result =
     (let n1 = (if slr_term result > currentTerm n0
                then becomeFollower n0 (slr_term result) None None else n0);
          n2 = (case slr_snapshot result of
                  None \<Rightarrow> n1
                | Some sn \<Rightarrow>
                    if sn_lastIncludedIndex sn > commitIndex n1
                    then applySnapshot n1 (sn_lastIncludedIndex sn) (sn_lastIncludedTerm sn) (sn_boards sn)
                    else n1);
          committedEntries = filter (\<lambda>e. e_index e \<le> slr_commitIndex result) (slr_entries result);
          n3 = n2\<lparr>raftLog := cu_loop (lastIncludedIndex (raftLog n2)) (commitIndex n2) committedEntries (raftLog n2)\<rparr>
      in follow_commit n3 (slr_commitIndex result))"

text \<open>The targets are asked in turn until one answers; \<open>ask\<close> is the RPC.\<close>
fun catch_up_from :: "(url \<Rightarrow> sync_log_args \<Rightarrow> sync_log_result option) \<Rightarrow> raft_node \<Rightarrow> url list \<Rightarrow> raft_node" where
  "catch_up_from ask n [] = n"
| "catch_up_from ask n (target # ts) =
     (case ask target (catch_up_args n) of
        Some result \<Rightarrow> catch_up_apply n result
      | None \<Rightarrow> catch_up_from ask n ts)"

definition requestCatchUp :: "(url \<Rightarrow> sync_log_args \<Rightarrow> sync_log_result option) \<Rightarrow> raft_node \<Rightarrow> raft_node" where
  "requestCatchUp ask n = catch_up_from ask n (catch_up_targets n)"

section \<open>Confirmed reads\<close>

definition confirmLeadership_begin :: "raft_node \<Rightarrow> heartbeat_args option" where
  "confirmLeadership_begin n =
     (if state n \<noteq> Leader then None
      else Some \<lparr>hb_term = currentTerm n, hb_leaderId = my_id n,
                 hb_leaderAddr = Some (selfUrl (config n)), hb_leaderCommit = commitIndex n\<rparr>)"

text \<open>The loop over the settled results: \<open>None\<close> is the early return of false.\<close>
fun confirm_loop :: "raft_node \<Rightarrow> heartbeat_result option list \<Rightarrow> nat \<Rightarrow> raft_node \<times> nat option" where
  "confirm_loop n [] acks = (n, Some acks)"
| "confirm_loop n (None # rs) acks = confirm_loop n rs acks"
| "confirm_loop n (Some r # rs) acks =
     (if hbr_term r > currentTerm n then (becomeFollower n (hbr_term r) None None, None)
      else confirm_loop n rs (if hbr_success r then acks + 1 else acks))"

definition confirmLeadership_end ::
    "raft_node \<Rightarrow> heartbeat_args \<Rightarrow> heartbeat_result option list \<Rightarrow> raft_node \<times> bool" where
  "confirmLeadership_end n args results =
     (let (n1, acks) = confirm_loop n results 1
      in (n1, case acks of
                None \<Rightarrow> False
              | Some k \<Rightarrow> state n1 = Leader \<and> currentTerm n1 = hb_term args \<and> k \<ge> my_majority n1))"

definition read_refused :: "raft_node \<Rightarrow> read_board_state_result" where
  "read_refused n = \<lparr>rb_success = False, rb_strokes = None, rb_leaderHint = leaderAddr n\<rparr>"

definition readBoardState_end ::
    "raft_node \<Rightarrow> string \<Rightarrow> heartbeat_args \<Rightarrow> heartbeat_result option list \<Rightarrow> raft_node \<times> read_board_state_result" where
  "readBoardState_end n bid args results =
     (let (n1, confirmed) = confirmLeadership_end n args results
      in (n1, if \<not> confirmed then read_refused n1
              else \<lparr>rb_success = True, rb_strokes = Some (getStrokes (boards n1) bid), rb_leaderHint = None\<rparr>))"

text \<open>The second argument is the await: the node when the last heartbeat of the call is settled.\<close>
definition readBoardState ::
    "raft_node \<Rightarrow> string \<Rightarrow> (raft_node \<Rightarrow> raft_node) \<Rightarrow> (url \<Rightarrow> heartbeat_args \<Rightarrow> heartbeat_result option) \<Rightarrow>
     raft_node \<times> read_board_state_result" where
  "readBoardState n bid wait answer =
     (case confirmLeadership_begin n of
        None \<Rightarrow> (n, read_refused n)
      | Some args \<Rightarrow> readBoardState_end (wait n) bid args (map (\<lambda>peer. answer peer args) (my_peers n)))"

end
