(* ===== verification/Node_Inv.thy ===== *)
theory Node_Inv
  imports Raft_Async
begin

text \<open>
  The invariant of a replica and its preservation by every operation of \<open>RaftNode\<close>. It says that
  the log is indexed without gaps, that the snapshot boundary, the commit index and the end of the
  log are ordered, that exactly the committed entries are applied, and that the store would give
  back the node's term, vote, log and boards: what a node answers with is on disk.
\<close>

named_theorems node_fields "fields that an operation leaves alone"

section \<open>Logs up to their store\<close>

lemma getEntry_persistence [simp]: "getEntry (l\<lparr>persistence := p\<rparr>) i = getEntry l i"
  by (simp add: getEntry_def)

lemma getLastIndex_persistence [simp]: "getLastIndex (l\<lparr>persistence := p\<rparr>) = getLastIndex l"
  by (simp add: getLastIndex_def)

lemma getTermAt_persistence [simp]: "getTermAt (l\<lparr>persistence := p\<rparr>) i = getTermAt l i"
  by (simp add: getTermAt_def)

lemma log_wf_persistence [simp]: "log_wf (l\<lparr>persistence := p\<rparr>) \<longleftrightarrow> log_wf l"
  by (simp add: log_wf_def)

lemma log_durable_saveState [simp]:
  "log_durable (l\<lparr>persistence := saveState (persistence l) s\<rparr>) \<longleftrightarrow> log_durable l"
  by (auto simp: log_durable_fields file_store.load_saved split: option.split)

text \<open>The entries after the boundary up to an absolute index.\<close>
definition upto_index :: "raft_log \<Rightarrow> nat \<Rightarrow> log_entry list" where
  "upto_index l i = take (i - lastIncludedIndex l) (entries l)"

lemma upto_index_persistence [simp]: "upto_index (l\<lparr>persistence := p\<rparr>) i = upto_index l i"
  by (simp add: upto_index_def)

lemma upto_index_Suc:
  assumes "getEntry l (Suc i) = Some e" and "lastIncludedIndex l \<le> i"
  shows "upto_index l (Suc i) = upto_index l i @ [e]"
proof -
  have "Suc i - lastIncludedIndex l = Suc (i - lastIncludedIndex l)"
    using assms(2) by simp
  then show ?thesis
    using assms by (auto simp: upto_index_def getEntry_def js_at_def take_Suc_conv_app_nth split: if_splits)
qed

lemma upto_index_cong:
  assumes "lastIncludedIndex l' = lastIncludedIndex l"
    and "i \<le> getLastIndex l" and "i \<le> getLastIndex l'"
    and same: "\<And>j. j \<le> i \<Longrightarrow> getEntry l' j = getEntry l j"
  shows "upto_index l' i = upto_index l i"
proof (rule nth_equalityI)
  show len: "length (upto_index l' i) = length (upto_index l i)"
    using assms(1-3) by (simp add: upto_index_def getLastIndex_def)
  fix k assume k: "k < length (upto_index l' i)"
  let ?j = "lastIncludedIndex l + 1 + k"
  have j: "?j \<le> i" and k': "k < length (entries l)" "k < length (entries l')"
    using k len by (auto simp: upto_index_def)
  have "getEntry l' ?j = getEntry l ?j" by (rule same) (rule j)
  then have "entries l' ! k = entries l ! k"
    using assms(1) k' by (simp add: getEntry_def js_at_def)
  then show "upto_index l' i ! k = upto_index l i ! k"
    using k len assms(1) by (simp add: upto_index_def)
qed

section \<open>The invariant\<close>

text \<open>The boards that the snapshot and the log up to an index give.\<close>
definition snapshot_state :: "persistence \<Rightarrow> board_state" where
  "snapshot_state p =
     (case loadSnapshot p of None \<Rightarrow> new_boards | Some sn \<Rightarrow> restoreBoardState (sn_boards sn))"

definition replayed :: "raft_log \<Rightarrow> nat \<Rightarrow> board_state" where
  "replayed l i = foldl applyBoardEvent (snapshot_state (persistence l)) (map e_stroke (upto_index l i))"

text \<open>
  Boards agree when every board looks the same, the one named \<open>__proto__\<close> aside: no snapshot
  can hold it.
\<close>
definition same_boards :: "board_state \<Rightarrow> board_state \<Rightarrow> bool" where
  "same_boards bs bs' \<longleftrightarrow> (\<forall>b. b \<noteq> ''__proto__'' \<longrightarrow> board_view_of bs b = board_view_of bs' b)"

definition log_inv :: "raft_node \<Rightarrow> bool" where
  "log_inv n \<longleftrightarrow> log_wf (raftLog n) \<and> log_durable (raftLog n) \<and>
     lastIncludedIndex (raftLog n) \<le> lastApplied n \<and> lastApplied n \<le> commitIndex n \<and>
     commitIndex n \<le> getLastIndex (raftLog n)"

definition boards_inv :: "raft_node \<Rightarrow> bool" where
  "boards_inv n \<longleftrightarrow> boards_ok (boards n) \<and>
     (pkind (store n) = FilePersistence \<longrightarrow> same_boards (boards n) (replayed (raftLog n) (lastApplied n)))"

definition state_saved :: "raft_node \<Rightarrow> bool" where
  "state_saved n \<longleftrightarrow> (pkind (store n) = FilePersistence \<longrightarrow>
     ps_currentTerm (loadState (store n)) = currentTerm n \<and>
     ps_votedFor (loadState (store n)) = votedFor n \<and>
     max (ps_commitIndex (loadState (store n))) (lastIncludedIndex (raftLog n)) = commitIndex n)"

definition node_inv :: "raft_node \<Rightarrow> bool" where
  "node_inv n \<longleftrightarrow> log_inv n \<and> boards_inv n \<and> state_saved n \<and> lastApplied n = commitIndex n"

lemma same_boards_refl [simp]: "same_boards bs bs"
  by (simp add: same_boards_def)

lemma same_boards_apply: "same_boards bs bs' \<Longrightarrow> same_boards (applyBoardEvent bs e) (applyBoardEvent bs' e)"
  by (simp add: same_boards_def applyBoardEvent_view)

lemma same_boards_foldl: "same_boards bs bs' \<Longrightarrow> same_boards (foldl applyBoardEvent bs es) (foldl applyBoardEvent bs' es)"
  by (induction es arbitrary: bs bs') (simp_all add: same_boards_apply)

lemma boards_ok_snapshot_state [simp]: "boards_ok (snapshot_state p)"
  by (simp add: snapshot_state_def split: option.split)

lemma snapshot_state_saveState [simp]: "snapshot_state (saveState p s) = snapshot_state p"
  by (cases "pkind p") (simp_all add: snapshot_state_def persistence_ops)

lemma replayed_saveState [simp]: "replayed (l\<lparr>persistence := saveState (persistence l) s\<rparr>) i = replayed l i"
  by (simp add: replayed_def)

section \<open>Saving the state\<close>

lemma persistState_fields [simp]:
  "config (persistState n) = config n" "currentTerm (persistState n) = currentTerm n"
  "votedFor (persistState n) = votedFor n" "state (persistState n) = state n"
  "leaderId (persistState n) = leaderId n" "leaderAddr (persistState n) = leaderAddr n"
  "commitIndex (persistState n) = commitIndex n" "lastApplied (persistState n) = lastApplied n"
  "nextIndex (persistState n) = nextIndex n" "matchIndex (persistState n) = matchIndex n"
  "replicating (persistState n) = replicating n" "boards (persistState n) = boards n"
  "timers (persistState n) = timers n" "nodeMetrics (persistState n) = nodeMetrics n"
  "entries (raftLog (persistState n)) = entries (raftLog n)"
  "lastIncludedIndex (raftLog (persistState n)) = lastIncludedIndex (raftLog n)"
  "lastIncludedTerm (raftLog (persistState n)) = lastIncludedTerm (raftLog n)"
  "getEntry (raftLog (persistState n)) i = getEntry (raftLog n) i"
  "getLastIndex (raftLog (persistState n)) = getLastIndex (raftLog n)"
  "pkind (store (persistState n)) = pkind (store n)"
  by (simp_all add: persistState_def)

lemma log_inv_persistState [simp]: "log_inv (persistState n) \<longleftrightarrow> log_inv n"
  unfolding log_inv_def by (simp add: persistState_def)

lemma boards_inv_persistState [simp]: "boards_inv (persistState n) \<longleftrightarrow> boards_inv n"
  unfolding boards_inv_def by (simp add: persistState_def)

lemma state_saved_persistState:
  "lastIncludedIndex (raftLog n) \<le> commitIndex n \<Longrightarrow> state_saved (persistState n)"
  by (simp add: state_saved_def persistState_def file_store.load_saved max_absorb1)


text \<open>Fields that the invariant does not read.\<close>

lemma inv_updates [simp]:
  "log_inv (n\<lparr>timers := a\<rparr>) = log_inv n" "log_inv (n\<lparr>nodeMetrics := b\<rparr>) = log_inv n"
  "log_inv (n\<lparr>leaderId := c\<rparr>) = log_inv n" "log_inv (n\<lparr>leaderAddr := d\<rparr>) = log_inv n"
  "log_inv (n\<lparr>state := e\<rparr>) = log_inv n" "log_inv (n\<lparr>currentTerm := f\<rparr>) = log_inv n"
  "log_inv (n\<lparr>votedFor := g\<rparr>) = log_inv n" "log_inv (n\<lparr>nextIndex := h\<rparr>) = log_inv n"
  "log_inv (n\<lparr>matchIndex := j\<rparr>) = log_inv n" "log_inv (n\<lparr>replicating := k\<rparr>) = log_inv n"
  "boards_inv (n\<lparr>timers := a\<rparr>) = boards_inv n" "boards_inv (n\<lparr>nodeMetrics := b\<rparr>) = boards_inv n"
  "boards_inv (n\<lparr>leaderId := c\<rparr>) = boards_inv n" "boards_inv (n\<lparr>leaderAddr := d\<rparr>) = boards_inv n"
  "boards_inv (n\<lparr>state := e\<rparr>) = boards_inv n" "boards_inv (n\<lparr>currentTerm := f\<rparr>) = boards_inv n"
  "boards_inv (n\<lparr>votedFor := g\<rparr>) = boards_inv n" "boards_inv (n\<lparr>nextIndex := h\<rparr>) = boards_inv n"
  "boards_inv (n\<lparr>matchIndex := j\<rparr>) = boards_inv n" "boards_inv (n\<lparr>replicating := k\<rparr>) = boards_inv n"
  "boards_inv (n\<lparr>commitIndex := i\<rparr>) = boards_inv n"
  "state_saved (n\<lparr>timers := a\<rparr>) = state_saved n" "state_saved (n\<lparr>nodeMetrics := b\<rparr>) = state_saved n"
  "state_saved (n\<lparr>leaderId := c\<rparr>) = state_saved n" "state_saved (n\<lparr>leaderAddr := d\<rparr>) = state_saved n"
  "state_saved (n\<lparr>state := e\<rparr>) = state_saved n" "state_saved (n\<lparr>nextIndex := h\<rparr>) = state_saved n"
  "state_saved (n\<lparr>matchIndex := j\<rparr>) = state_saved n" "state_saved (n\<lparr>replicating := k\<rparr>) = state_saved n"
  by (simp_all add: log_inv_def boards_inv_def state_saved_def)

lemma node_inv_updates [simp]:
  "node_inv (n\<lparr>timers := a\<rparr>) = node_inv n" "node_inv (n\<lparr>nodeMetrics := b\<rparr>) = node_inv n"
  "node_inv (n\<lparr>leaderId := c\<rparr>) = node_inv n" "node_inv (n\<lparr>leaderAddr := d\<rparr>) = node_inv n"
  "node_inv (n\<lparr>state := e\<rparr>) = node_inv n" "node_inv (n\<lparr>nextIndex := h\<rparr>) = node_inv n"
  "node_inv (n\<lparr>matchIndex := j\<rparr>) = node_inv n" "node_inv (n\<lparr>replicating := k\<rparr>) = node_inv n"
  by (simp_all add: node_inv_def)

text \<open>Whatever a handler set before it, saving the state makes the invariant whole.\<close>
lemma node_inv_persistState:
  assumes "log_inv n" and "boards_inv n" and "lastApplied n = commitIndex n"
  shows "node_inv (persistState n)"
proof -
  have "lastIncludedIndex (raftLog n) \<le> commitIndex n"
    using assms(1) by (simp add: log_inv_def)
  with assms show ?thesis
    by (simp add: node_inv_def state_saved_persistState)
qed

section \<open>Applying committed entries\<close>

lemma log_inv_next_entry:
  assumes "log_inv n" and "lastApplied n < commitIndex n"
  obtains e where "getEntry (raftLog n) (Suc (lastApplied n)) = Some e"
  using assms getEntry_Some_iff[of "raftLog n" "Suc (lastApplied n)"] that
  by (auto simp: log_inv_def)

lemma log_inv_apply_next:
  "log_inv n \<Longrightarrow> lastApplied n < commitIndex n \<Longrightarrow> log_inv (apply_next n)"
  by (simp add: log_inv_def)

lemma boards_inv_apply_next:
  assumes "log_inv n" and "boards_inv n" and "lastApplied n < commitIndex n"
  shows "boards_inv (apply_next n)"
proof -
  obtain e where e: "getEntry (raftLog n) (Suc (lastApplied n)) = Some e"
    using assms(1,3) by (rule log_inv_next_entry)
  have "upto_index (raftLog n) (Suc (lastApplied n)) = upto_index (raftLog n) (lastApplied n) @ [e]"
    using e assms(1) by (simp add: upto_index_Suc log_inv_def)
  then have "replayed (raftLog n) (Suc (lastApplied n)) =
      applyBoardEvent (replayed (raftLog n) (lastApplied n)) (e_stroke e)"
    by (simp add: replayed_def)
  with assms(2) e show ?thesis
    by (simp add: boards_inv_def apply_next_def boards_ok_apply same_boards_apply)
qed

lemma apply_loop_inv:
  assumes "log_inv n" and "boards_inv n"
  shows "log_inv (apply_loop n) \<and> boards_inv (apply_loop n) \<and>
    lastApplied (apply_loop n) = commitIndex n \<and> raftLog (apply_loop n) = raftLog n \<and>
    commitIndex (apply_loop n) = commitIndex n"
  using assms
proof (induction n rule: apply_loop.induct)
  case (1 n)
  show ?case
  proof (cases "lastApplied n < commitIndex n")
    case True
    then show ?thesis
      using 1 by (simp add: apply_loop.simps[of n] log_inv_apply_next boards_inv_apply_next)
  next
    case False
    then show ?thesis
      using 1(2,3) by (simp add: apply_loop.simps[of n] log_inv_def)
  qed
qed

lemma apply_next_frame [simp]:
  "currentTerm (apply_next n) = currentTerm n" "votedFor (apply_next n) = votedFor n"
  "state (apply_next n) = state n" "leaderId (apply_next n) = leaderId n"
  "leaderAddr (apply_next n) = leaderAddr n" "nextIndex (apply_next n) = nextIndex n"
  "matchIndex (apply_next n) = matchIndex n" "replicating (apply_next n) = replicating n"
  "timers (apply_next n) = timers n" "nodeMetrics (apply_next n) = nodeMetrics n"
  by (simp_all add: apply_next_def Let_def split: option.split)

lemma apply_loop_frame [simp]:
  "config (apply_loop n) = config n" "raftLog (apply_loop n) = raftLog n"
  "commitIndex (apply_loop n) = commitIndex n"
  "currentTerm (apply_loop n) = currentTerm n" "votedFor (apply_loop n) = votedFor n"
  "state (apply_loop n) = state n" "leaderId (apply_loop n) = leaderId n"
  "leaderAddr (apply_loop n) = leaderAddr n" "nextIndex (apply_loop n) = nextIndex n"
  "matchIndex (apply_loop n) = matchIndex n" "replicating (apply_loop n) = replicating n"
  "timers (apply_loop n) = timers n" "nodeMetrics (apply_loop n) = nodeMetrics n"
  by (induction n rule: apply_loop.induct; subst apply_loop.simps; simp)+

section \<open>Snapshots\<close>

lemma takeSnapshot_frame [simp]:
  "config (takeSnapshot n) = config n" "currentTerm (takeSnapshot n) = currentTerm n"
  "votedFor (takeSnapshot n) = votedFor n" "state (takeSnapshot n) = state n"
  "leaderId (takeSnapshot n) = leaderId n" "leaderAddr (takeSnapshot n) = leaderAddr n"
  "commitIndex (takeSnapshot n) = commitIndex n" "lastApplied (takeSnapshot n) = lastApplied n"
  "nextIndex (takeSnapshot n) = nextIndex n" "matchIndex (takeSnapshot n) = matchIndex n"
  "replicating (takeSnapshot n) = replicating n" "boards (takeSnapshot n) = boards n"
  "timers (takeSnapshot n) = timers n" "nodeMetrics (takeSnapshot n) = nodeMetrics n"
  "pkind (store (takeSnapshot n)) = pkind (store n)"
  by (simp_all add: takeSnapshot_def Let_def)

lemma takeSnapshot_log:
  assumes "lastIncludedIndex (raftLog n) \<le> commitIndex n" and "commitIndex n \<le> getLastIndex (raftLog n)"
  shows "lastIncludedIndex (raftLog (takeSnapshot n)) = commitIndex n"
    and "getLastIndex (raftLog (takeSnapshot n)) = getLastIndex (raftLog n)"
    and "getEntry (raftLog (takeSnapshot n)) i = (if i \<le> commitIndex n then None else getEntry (raftLog n) i)"
  using assms
  by (simp_all add: takeSnapshot_def Let_def lastIncludedIndex_compact getLastIndex_compact getEntry_compact)

lemma log_durable_takeSnapshot:
  assumes wf: "log_wf (raftLog n)" and dur: "log_durable (raftLog n)"
    and le: "lastIncludedIndex (raftLog n) \<le> commitIndex n" "commitIndex n \<le> getLastIndex (raftLog n)"
  shows "log_durable (raftLog (takeSnapshot n))"
proof (cases "commitIndex n = lastIncludedIndex (raftLog n)")
  case True
  have "filter (\<lambda>e. lastIncludedIndex (raftLog n) < e_index e) (loadLog (store n)) = entries (raftLog n)"
    if "pkind (store n) = FilePersistence"
    using dur that filter_all_index[OF wf] by (auto simp: log_durable_fields split: option.splits)
  with True show ?thesis
    by (auto simp: log_durable_fields takeSnapshot_def Let_def log_compact_def file_store.load_saved getTermAt_def)
next
  case False
  have "log_wf (log_compact (raftLog n) (commitIndex n) (getTermAt (raftLog n) (commitIndex n)))"
    using wf le by (simp add: log_wf_compact)
  then have "filter (\<lambda>e. commitIndex n < e_index e) (drop (commitIndex n - lastIncludedIndex (raftLog n)) (entries (raftLog n))) =
      drop (commitIndex n - lastIncludedIndex (raftLog n)) (entries (raftLog n))"
    using False le filter_all_index
      [of "log_compact (raftLog n) (commitIndex n) (getTermAt (raftLog n) (commitIndex n))"]
    by (simp add: log_compact_def Let_def js_slice_def)
  with False le show ?thesis
    by (auto simp: log_durable_fields takeSnapshot_def Let_def log_compact_def file_store.load_saved js_slice_def)
qed

lemma log_inv_takeSnapshot:
  assumes "log_inv n" and "lastApplied n = commitIndex n"
  shows "log_inv (takeSnapshot n)"
proof -
  have "log_wf (raftLog (takeSnapshot n))"
    using assms by (auto simp: log_inv_def takeSnapshot_def Let_def intro!: log_wf_compact)
  then show ?thesis
    using assms by (auto simp: log_inv_def takeSnapshot_log log_durable_takeSnapshot)
qed

lemma boards_inv_takeSnapshot:
  assumes "log_inv n" and "boards_inv n" and "lastApplied n = commitIndex n"
  shows "boards_inv (takeSnapshot n)"
proof -
  have "upto_index (raftLog (takeSnapshot n)) (commitIndex n) = []"
    using assms takeSnapshot_log(1)[of n] by (simp add: upto_index_def log_inv_def)
  moreover have "snapshot_state (store (takeSnapshot n)) = restoreBoardState (snapshot_boards (boards n))"
    if "pkind (store n) = FilePersistence"
    using that by (simp add: snapshot_state_def takeSnapshot_def Let_def log_compact_def file_store.load_saved)
  ultimately show ?thesis
    using assms by (simp add: boards_inv_def replayed_def same_boards_def view_restore_snapshot)
qed

lemma state_saved_takeSnapshot:
  assumes "log_inv n" and "state_saved n" and "lastApplied n = commitIndex n"
  shows "state_saved (takeSnapshot n)"
proof -
  have "loadState (store (takeSnapshot n)) = loadState (store n)" if "pkind (store n) = FilePersistence"
    using that by (simp add: takeSnapshot_def Let_def log_compact_def file_store.load_saved)
  then show ?thesis
    using assms by (auto simp: state_saved_def takeSnapshot_log(1) log_inv_def max_def)
qed

lemma node_inv_takeSnapshot: "node_inv n \<Longrightarrow> node_inv (takeSnapshot n)"
  by (simp add: node_inv_def log_inv_takeSnapshot boards_inv_takeSnapshot state_saved_takeSnapshot)

lemma state_saved_apply_loop [simp]: "state_saved (apply_loop n) = state_saved n"
  by (simp add: state_saved_def)

lemma node_inv_applyCommitted:
  assumes "log_inv n" and "boards_inv n" and "state_saved n"
  shows "node_inv (applyCommitted n)"
  using apply_loop_inv[OF assms(1,2)] assms(3)
  by (auto simp: applyCommitted_def maybeSnapshot_def node_inv_def
      intro!: log_inv_takeSnapshot boards_inv_takeSnapshot state_saved_takeSnapshot)


lemma applyCommitted_frame [simp]:
  "config (applyCommitted n) = config n" "currentTerm (applyCommitted n) = currentTerm n"
  "votedFor (applyCommitted n) = votedFor n" "state (applyCommitted n) = state n"
  "leaderId (applyCommitted n) = leaderId n" "leaderAddr (applyCommitted n) = leaderAddr n"
  "commitIndex (applyCommitted n) = commitIndex n" "nextIndex (applyCommitted n) = nextIndex n"
  "matchIndex (applyCommitted n) = matchIndex n" "replicating (applyCommitted n) = replicating n"
  "timers (applyCommitted n) = timers n" "nodeMetrics (applyCommitted n) = nodeMetrics n"
  "pkind (store (applyCommitted n)) = pkind (store n)"
  by (simp_all add: applyCommitted_def maybeSnapshot_def)

lemma applyCommitted_log:
  assumes "lastIncludedIndex (raftLog n) \<le> commitIndex n" and "commitIndex n \<le> getLastIndex (raftLog n)"
  shows "getLastIndex (raftLog (applyCommitted n)) = getLastIndex (raftLog n)"
    and "lastIncludedIndex (raftLog n) \<le> lastIncludedIndex (raftLog (applyCommitted n))"
    and "lastIncludedIndex (raftLog (applyCommitted n)) \<le> commitIndex n"
    and "lastIncludedIndex (raftLog (applyCommitted n)) < i \<Longrightarrow>
      getEntry (raftLog (applyCommitted n)) i = getEntry (raftLog n) i"
  using assms
  by (auto simp: applyCommitted_def maybeSnapshot_def takeSnapshot_log split: if_splits)

section \<open>Following a leader\<close>

lemma node_inv_follow_commit:
  assumes "node_inv n"
  shows "node_inv (follow_commit n c)"
proof (cases "c > commitIndex n")
  case True
  let ?n = "n\<lparr>commitIndex := min c (getLastIndex (raftLog n))\<rparr>"
  have h: "log_inv ?n" "boards_inv ?n"
    using assms True by (auto simp: node_inv_def log_inv_def)
  then have "state_saved (persistState ?n)"
    by (intro state_saved_persistState) (simp add: log_inv_def)
  with h True show ?thesis
    by (simp add: follow_commit_def node_inv_applyCommitted)
next
  case False
  then show ?thesis using assms by (simp add: follow_commit_def)
qed

lemma follow_commit_frame [simp]:
  "config (follow_commit n c) = config n" "currentTerm (follow_commit n c) = currentTerm n"
  "votedFor (follow_commit n c) = votedFor n" "state (follow_commit n c) = state n"
  "leaderId (follow_commit n c) = leaderId n" "leaderAddr (follow_commit n c) = leaderAddr n"
  "nextIndex (follow_commit n c) = nextIndex n" "matchIndex (follow_commit n c) = matchIndex n"
  "replicating (follow_commit n c) = replicating n" "timers (follow_commit n c) = timers n"
  "nodeMetrics (follow_commit n c) = nodeMetrics n" "pkind (store (follow_commit n c)) = pkind (store n)"
  by (simp_all add: follow_commit_def)

lemma follow_commit_commitIndex:
  "commitIndex n \<le> getLastIndex (raftLog n) \<Longrightarrow>
   commitIndex (follow_commit n c) = max (commitIndex n) (min c (getLastIndex (raftLog n)))"
  by (auto simp: follow_commit_def)

lemma follow_commit_log:
  assumes "lastIncludedIndex (raftLog n) \<le> commitIndex n" and "commitIndex n \<le> getLastIndex (raftLog n)"
  shows "getLastIndex (raftLog (follow_commit n c)) = getLastIndex (raftLog n)"
    and "lastIncludedIndex (raftLog n) \<le> lastIncludedIndex (raftLog (follow_commit n c))"
    and "lastIncludedIndex (raftLog (follow_commit n c)) < i \<Longrightarrow>
      getEntry (raftLog (follow_commit n c)) i = getEntry (raftLog n) i"
proof -
  let ?n = "persistState (n\<lparr>commitIndex := min c (getLastIndex (raftLog n))\<rparr>)"
  have "lastIncludedIndex (raftLog ?n) \<le> commitIndex ?n" if "c > commitIndex n"
    using that assms by simp
  moreover have "commitIndex ?n \<le> getLastIndex (raftLog ?n)" by simp
  ultimately show "getLastIndex (raftLog (follow_commit n c)) = getLastIndex (raftLog n)"
    and "lastIncludedIndex (raftLog n) \<le> lastIncludedIndex (raftLog (follow_commit n c))"
    and "lastIncludedIndex (raftLog (follow_commit n c)) < i \<Longrightarrow>
      getEntry (raftLog (follow_commit n c)) i = getEntry (raftLog n) i"
    using applyCommitted_log[of ?n] by (auto simp: follow_commit_def)
qed

lemma becomeFollower_frame [simp]:
  "config (becomeFollower n t l a) = config n" "currentTerm (becomeFollower n t l a) = t"
  "votedFor (becomeFollower n t l a) = None" "state (becomeFollower n t l a) = Follower"
  "leaderId (becomeFollower n t l a) = (if l = None then leaderId n else l)"
  "leaderAddr (becomeFollower n t l a) = (if a = None then leaderAddr n else a)"
  "commitIndex (becomeFollower n t l a) = commitIndex n"
  "lastApplied (becomeFollower n t l a) = lastApplied n"
  "nextIndex (becomeFollower n t l a) = nextIndex n" "matchIndex (becomeFollower n t l a) = matchIndex n"
  "replicating (becomeFollower n t l a) = replicating n" "boards (becomeFollower n t l a) = boards n"
  "nodeMetrics (becomeFollower n t l a) = nodeMetrics n"
  "entries (raftLog (becomeFollower n t l a)) = entries (raftLog n)"
  "lastIncludedIndex (raftLog (becomeFollower n t l a)) = lastIncludedIndex (raftLog n)"
  "lastIncludedTerm (raftLog (becomeFollower n t l a)) = lastIncludedTerm (raftLog n)"
  "getEntry (raftLog (becomeFollower n t l a)) i = getEntry (raftLog n) i"
  "getLastIndex (raftLog (becomeFollower n t l a)) = getLastIndex (raftLog n)"
  "pkind (store (becomeFollower n t l a)) = pkind (store n)"
  by (simp_all add: becomeFollower_def Let_def)

lemma node_inv_becomeFollower:
  assumes "node_inv n"
  shows "node_inv (becomeFollower n t l a)"
proof -
  have "log_inv n" "boards_inv n" "lastApplied n = commitIndex n"
    using assms by (simp_all add: node_inv_def)
  then show ?thesis
    by (auto simp: becomeFollower_def Let_def intro!: node_inv_persistState)
qed

lemma accept_leader_frame [simp]:
  "config (accept_leader n t l a) = config n" "state (accept_leader n t l a) = Follower"
  "leaderId (accept_leader n t l a) = Some l"
  "commitIndex (accept_leader n t l a) = commitIndex n"
  "lastApplied (accept_leader n t l a) = lastApplied n"
  "nextIndex (accept_leader n t l a) = nextIndex n" "matchIndex (accept_leader n t l a) = matchIndex n"
  "replicating (accept_leader n t l a) = replicating n" "boards (accept_leader n t l a) = boards n"
  "entries (raftLog (accept_leader n t l a)) = entries (raftLog n)"
  "lastIncludedIndex (raftLog (accept_leader n t l a)) = lastIncludedIndex (raftLog n)"
  "lastIncludedTerm (raftLog (accept_leader n t l a)) = lastIncludedTerm (raftLog n)"
  "getEntry (raftLog (accept_leader n t l a)) i = getEntry (raftLog n) i"
  "getLastIndex (raftLog (accept_leader n t l a)) = getLastIndex (raftLog n)"
  "pkind (store (accept_leader n t l a)) = pkind (store n)"
  by (auto simp: accept_leader_def Let_def)

lemma currentTerm_accept_leader:
  "currentTerm n \<le> t \<Longrightarrow> currentTerm (accept_leader n t l a) = t"
  by (auto simp: accept_leader_def Let_def)

lemma node_inv_accept_leader: "node_inv n \<Longrightarrow> node_inv (accept_leader n t l a)"
  by (simp add: accept_leader_def Let_def node_inv_becomeFollower)


section \<open>Merging the entries of a leader\<close>

text \<open>Entries whose indices run on from \<open>s\<close>, as every leader sends them.\<close>
fun entries_from :: "nat \<Rightarrow> log_entry list \<Rightarrow> bool" where
  "entries_from s [] \<longleftrightarrow> True"
| "entries_from s (e # es) \<longleftrightarrow> e_index e = s \<and> entries_from (Suc s) es"

lemma entries_from_nth: "entries_from s es \<longleftrightarrow> (\<forall>k < length es. e_index (es ! k) = s + k)"
proof (induction es arbitrary: s)
  case (Cons e es)
  show ?case
    unfolding entries_from.simps Cons.IH
    by (auto simp: less_Suc_eq_0_disj)
qed simp

text \<open>
  What a merge may do to a log: nothing up to the commit index or below the first received index,
  and nothing to the state and the snapshot in the store.
\<close>
definition merged :: "nat \<Rightarrow> nat \<Rightarrow> raft_log \<Rightarrow> raft_log \<Rightarrow> bool" where
  "merged commit s l l' \<longleftrightarrow>
     log_wf l' \<and> log_durable l' \<and> lastIncludedIndex l' = lastIncludedIndex l \<and>
     lastIncludedTerm l' = lastIncludedTerm l \<and> commit \<le> getLastIndex l' \<and>
     (\<forall>j. j \<le> commit \<or> j < s \<longrightarrow> getEntry l' j = getEntry l j) \<and>
     pkind (persistence l') = pkind (persistence l) \<and>
     loadState (persistence l') = loadState (persistence l) \<and>
     loadSnapshot (persistence l') = loadSnapshot (persistence l)"

lemma place_store:
  "pkind (persistence (place l e)) = pkind (persistence l)"
  "loadState (persistence (place l e)) = loadState (persistence l)"
  "loadSnapshot (persistence (place l e)) = loadSnapshot (persistence l)"
  "lastIncludedTerm (place l e) = lastIncludedTerm l"
  by (auto simp: place_entry_def Let_def log_append_def truncateFrom_def persistence_ops
      split: option.split pkind.split)

lemma merged_refl: "log_wf l \<Longrightarrow> log_durable l \<Longrightarrow> commit \<le> getLastIndex l \<Longrightarrow> merged commit s l l"
  by (simp add: merged_def)

lemma merged_place:
  assumes "log_wf l" and "log_durable l" and "commit \<le> getLastIndex l"
    and "lastIncludedIndex l < e_index e" and "e_index e \<le> getLastIndex l + 1"
    and free: "\<not> (case getEntry l (e_index e) of None \<Rightarrow> False
                 | Some x \<Rightarrow> e_term x \<noteq> e_term e \<and> e_index e \<le> commit)"
  shows "merged commit (e_index e) l (place l e)"
proof -
  have below: "getEntry (place l e) j = getEntry l j" if "j < e_index e" for j
    using assms(4,5) that by (rule rl.place_below)
  have committed: "getEntry (place l e) j = getEntry l j" if "j \<le> commit" for j
  proof (cases "e_index e \<le> commit")
    case True
    then obtain x where "getEntry l (e_index e) = Some x"
      using assms(3,4) getEntry_Some_iff[of l "e_index e"] by auto
    with free True show ?thesis
      by (simp add: rl.place_present)
  next
    case False
    with that below show ?thesis by simp
  qed
  have "commit \<le> getLastIndex (place l e)"
  proof (cases "e_index e \<le> commit")
    case True
    then obtain x where "getEntry l (e_index e) = Some x"
      using assms(3,4) getEntry_Some_iff[of l "e_index e"] by auto
    with free True assms(3) show ?thesis
      by (simp add: rl.place_present)
  next
    case False
    then show ?thesis
      using rl.place_top[OF assms(4,5)] by simp
  qed
  then show ?thesis
    using assms below committed rl.place_ok log_durable_place
    by (auto simp: merged_def place_store rl.place_base)
qed

lemma merged_weaken: "merged commit s l l' \<Longrightarrow> s' \<le> s \<Longrightarrow> merged commit s' l l'"
  by (auto simp: merged_def)

lemma merged_trans: "merged commit s l l' \<Longrightarrow> merged commit s l' l'' \<Longrightarrow> merged commit s l l''"
  by (auto simp: merged_def)

text \<open>One fact per ending of the loop: the log it returns, with, at the early return, the conflict
  with a committed entry, and, at its normal end, that it holds every received entry beyond the boundary.\<close>
lemma ae_loop_merged:
  assumes "log_wf l" and "log_durable l" and "lastIncludedIndex l = b" and "b \<le> commit"
    and "commit \<le> getLastIndex l" and "entries_from s es" and "s \<le> getLastIndex l + 1"
  shows "case ae_loop b commit es l of
      Inl l' \<Rightarrow> merged commit s l l' \<and>
        (\<exists>e\<in>set es. \<exists>x. e_index e \<le> commit \<and> getEntry l (e_index e) = Some x \<and> e_term x \<noteq> e_term e)
    | Inr l' \<Rightarrow> merged commit s l l' \<and>
        (\<forall>e\<in>set es. b < e_index e \<longrightarrow> (\<exists>x. getEntry l' (e_index e) = Some x \<and> e_term x = e_term e))"
  using assms
proof (induction es arbitrary: s l)
  case Nil
  then show ?case by (simp add: merged_refl)
next
  case (Cons e es)
  have idx: "e_index e = s" and rest: "entries_from (Suc s) es"
    using Cons.prems(6) by auto
  show ?case
  proof (cases "e_index e \<le> b")
    case True
    then have "Suc s \<le> getLastIndex l + 1"
      using idx Cons.prems(3,7) lastIncludedIndex_le_last[of l] by linarith
    with True Cons.IH[OF Cons.prems(1-5) rest] show ?thesis
      by (auto split: sum.splits intro: merged_weaken[of commit "Suc s" l _ s])
  next
    case beyond: False
    let ?clash = "case getEntry l (e_index e) of None \<Rightarrow> False
      | Some x \<Rightarrow> e_term x \<noteq> e_term e \<and> e_index e \<le> commit"
    show ?thesis
    proof (cases ?clash)
      case True
      with beyond Cons.prems show ?thesis by (auto simp: merged_refl split: option.splits)
    next
      case False
      have in_range: "lastIncludedIndex l < e_index e" "e_index e \<le> getLastIndex l + 1"
        using beyond idx Cons.prems(3,7) by auto
      have step: "merged commit s l (place l e)"
        using merged_place[OF Cons.prems(1,2,5) in_range False] idx by simp
      have "Suc s \<le> getLastIndex (place l e) + 1"
        using rl.place_top[OF in_range] idx by simp
      with step rest Cons.prems(3,4)
      have ih: "case ae_loop b commit es (place l e) of
          Inl l' \<Rightarrow> merged commit (Suc s) (place l e) l' \<and>
            (\<exists>e'\<in>set es. \<exists>x. e_index e' \<le> commit \<and> getEntry (place l e) (e_index e') = Some x \<and> e_term x \<noteq> e_term e')
        | Inr l' \<Rightarrow> merged commit (Suc s) (place l e) l' \<and>
            (\<forall>e\<in>set es. b < e_index e \<longrightarrow> (\<exists>x. getEntry l' (e_index e) = Some x \<and> e_term x = e_term e))"
        by (intro Cons.IH) (auto simp: merged_def)
      have held: "\<exists>x. getEntry l' (e_index e) = Some x \<and> e_term x = e_term e"
        if "merged commit (Suc s) (place l e) l'" for l'
        using rl.place_holds[OF in_range] that idx by (auto simp: merged_def)
      have "merged commit s l l'" if "merged commit (Suc s) (place l e) l'" for l'
        using merged_trans[OF step merged_weaken[OF that]] by simp
      moreover have "getEntry (place l e) j = getEntry l j" if "j \<le> commit" for j
        using step that by (simp add: merged_def)
      ultimately show ?thesis
        using ih held False beyond by (auto split: sum.splits)
    qed
  qed
qed

lemma node_inv_merged:
  assumes inv: "node_inv n" and m: "merged (commitIndex n) s (raftLog n) l"
  shows "node_inv (n\<lparr>raftLog := l\<rparr>)"
proof -
  have same: "upto_index l (commitIndex n) = upto_index (raftLog n) (commitIndex n)"
    using inv m by (intro upto_index_cong) (auto simp: merged_def node_inv_def log_inv_def)
  have "snapshot_state (persistence l) = snapshot_state (store n)"
    using m by (simp add: merged_def snapshot_state_def)
  then have "replayed l (commitIndex n) = replayed (raftLog n) (commitIndex n)"
    by (simp add: replayed_def same)
  then show ?thesis
    using inv m by (auto simp: node_inv_def log_inv_def boards_inv_def state_saved_def merged_def)
qed


section \<open>Every handler keeps the invariant\<close>

definition ae_wf :: "append_entries_args \<Rightarrow> bool" where
  "ae_wf args \<longleftrightarrow> entries_from (Suc (ae_prevLogIndex args)) (ae_entries args)"

lemma log_consistent_range:
  assumes "log_consistent l args"
  shows "ae_prevLogIndex args \<le> getLastIndex l"
proof (cases "lastIncludedIndex l < ae_prevLogIndex args")
  case True
  then show ?thesis
    using assms getEntry_Some_iff[of l "ae_prevLogIndex args"]
    by (auto simp: log_consistent_def split: option.splits)
next
  case False
  then show ?thesis
    using lastIncludedIndex_le_last[of l] by linarith
qed

text \<open>The merge that \<open>handleAppendEntries\<close> makes, with the node it starts from.\<close>
lemma ae_merge:
  assumes "node_inv n" and "ae_wf args" and "log_consistent (raftLog n) args"
  shows "case ae_loop (lastIncludedIndex (raftLog n)) (commitIndex n) (ae_entries args) (raftLog n) of
      Inl l \<Rightarrow> merged (commitIndex n) (Suc (ae_prevLogIndex args)) (raftLog n) l \<and>
        (\<exists>e\<in>set (ae_entries args). \<exists>x. e_index e \<le> commitIndex n \<and>
           getEntry (raftLog n) (e_index e) = Some x \<and> e_term x \<noteq> e_term e)
    | Inr l \<Rightarrow> merged (commitIndex n) (Suc (ae_prevLogIndex args)) (raftLog n) l \<and>
        (\<forall>e\<in>set (ae_entries args). lastIncludedIndex (raftLog n) < e_index e \<longrightarrow>
           (\<exists>x. getEntry l (e_index e) = Some x \<and> e_term x = e_term e))"
  using assms log_consistent_range[OF assms(3)]
  by (intro ae_loop_merged) (auto simp: node_inv_def log_inv_def ae_wf_def)

lemma node_inv_handleAppendEntries:
  assumes "node_inv n" and "ae_wf args"
  shows "node_inv (fst (handleAppendEntries n args))"
proof -
  let ?n = "accept_leader n (ae_term args) (ae_leaderId args) (ae_leaderAddr args)"
  have inv: "node_inv ?n" using assms(1) by (rule node_inv_accept_leader)
  show ?thesis
  proof (cases "ae_term args < currentTerm n \<or> \<not> log_consistent (raftLog ?n) args")
    case True
    then show ?thesis using assms(1) inv by (auto simp: handleAppendEntries_def Let_def)
  next
    case False
    then show ?thesis
      using ae_merge[OF inv assms(2)] node_inv_merged[OF inv]
      by (auto simp: handleAppendEntries_def Let_def split: sum.splits intro!: node_inv_follow_commit)
  qed
qed

lemma node_inv_handleHeartbeat: "node_inv n \<Longrightarrow> node_inv (fst (handleHeartbeat n args))"
  by (simp add: handleHeartbeat_def Let_def node_inv_accept_leader node_inv_follow_commit)

lemma node_inv_handleRequestVote:
  assumes "node_inv n"
  shows "node_inv (fst (handleRequestVote n args))"
proof -
  have "node_inv (persistState (m\<lparr>votedFor := v, currentTerm := t\<rparr>))" if "node_inv m" for m v t
    using that by (intro node_inv_persistState) (auto simp: node_inv_def)
  with assms show ?thesis
    by (simp add: handleRequestVote_def Let_def node_inv_becomeFollower)
qed

lemma node_inv_becomeCandidate: "node_inv n \<Longrightarrow> node_inv (becomeCandidate n)"
  unfolding becomeCandidate_def Let_def node_inv_updates
  by (intro node_inv_persistState) (simp_all add: node_inv_def)

lemma node_inv_becomeLeader: "node_inv n \<Longrightarrow> node_inv (becomeLeader n)"
  by (simp add: becomeLeader_def Let_def)

lemma applySnapshot_frame [simp]:
  "config (applySnapshot n i t bds) = config n" "currentTerm (applySnapshot n i t bds) = currentTerm n"
  "votedFor (applySnapshot n i t bds) = votedFor n" "state (applySnapshot n i t bds) = state n"
  "leaderId (applySnapshot n i t bds) = leaderId n" "leaderAddr (applySnapshot n i t bds) = leaderAddr n"
  "commitIndex (applySnapshot n i t bds) = i" "lastApplied (applySnapshot n i t bds) = i"
  "nextIndex (applySnapshot n i t bds) = nextIndex n" "matchIndex (applySnapshot n i t bds) = matchIndex n"
  "replicating (applySnapshot n i t bds) = replicating n"
  "boards (applySnapshot n i t bds) = restoreBoardState bds"
  "timers (applySnapshot n i t bds) = timers n" "nodeMetrics (applySnapshot n i t bds) = nodeMetrics n"
  "lastIncludedIndex (raftLog (applySnapshot n i t bds)) = i"
  "pkind (store (applySnapshot n i t bds)) = pkind (store n)"
  by (simp_all add: applySnapshot_def Let_def)

lemma node_inv_applySnapshot:
  assumes inv: "node_inv n" and ahead: "commitIndex n < i"
  shows "node_inv (applySnapshot n i t bds)"
proof -
  let ?l = "log_installSnapshot (raftLog n) i t"
  let ?sn = "\<lparr>sn_lastIncludedIndex = i, sn_lastIncludedTerm = t, sn_boards = bds\<rparr>"
  define m where "m = n\<lparr>boards := restoreBoardState bds, commitIndex := i, lastApplied := i,
    raftLog := ?l\<lparr>persistence := saveSnapshot (persistence ?l) ?sn\<rparr>\<rparr>"
  have wf: "log_wf (raftLog n)" and le: "lastIncludedIndex (raftLog n) \<le> i"
    using inv ahead by (auto simp: node_inv_def log_inv_def)
  have wf': "log_wf ?l" using wf le by (rule log_wf_install)
  have on_disk: "loadLog (saveSnapshot (persistence ?l) ?sn) = entries ?l"
    "loadSnapshot (saveSnapshot (persistence ?l) ?sn) = Some ?sn"
    if "pkind (store n) = FilePersistence"
    using that by (simp_all add: file_store.load_saved log_installSnapshot_def Let_def)
  have "log_durable (?l\<lparr>persistence := saveSnapshot (persistence ?l) ?sn\<rparr>)"
    using on_disk filter_all_index[OF wf'] by (auto simp: log_durable_fields)
  then have "log_inv m"
    using wf' lastIncludedIndex_le_last[of ?l] by (simp add: log_inv_def m_def)
  moreover have "boards_inv m"
    using on_disk by (simp add: boards_inv_def m_def replayed_def upto_index_def snapshot_state_def)
  moreover have "applySnapshot n i t bds = persistState m"
    by (simp add: applySnapshot_def Let_def m_def)
  ultimately show ?thesis
    using node_inv_persistState[of m] by (simp add: m_def)
qed

lemma node_inv_handleInstallSnapshot: "node_inv n \<Longrightarrow> node_inv (fst (handleInstallSnapshot n args))"
  by (simp add: handleInstallSnapshot_def Let_def node_inv_accept_leader node_inv_applySnapshot)

lemma node_inv_handleSyncLog: "node_inv n \<Longrightarrow> node_inv (fst (handleSyncLog n args))"
  by (simp add: handleSyncLog_def Let_def node_inv_becomeFollower split: option.split)

lemma find_commit_Some:
  "find_commit n k = Some i \<Longrightarrow>
   commitIndex n < i \<and> i \<le> k \<and> replicatedCount n i \<ge> my_majority n \<and>
   (\<exists>e. getEntry (raftLog n) i = Some e \<and> e_term e = currentTerm n)"
  by (induction k) (auto simp: Let_def split: if_splits option.splits)

lemma node_inv_updateCommitIndex:
  assumes "node_inv n"
  shows "node_inv (updateCommitIndex n)"
proof (cases "find_commit n (getLastIndex (raftLog n))")
  case None
  then show ?thesis using assms by (simp add: updateCommitIndex_def)
next
  case (Some i)
  note i = find_commit_Some[OF Some]
  have h: "log_inv (n\<lparr>commitIndex := i\<rparr>)" "boards_inv (n\<lparr>commitIndex := i\<rparr>)"
    using assms i by (auto simp: node_inv_def log_inv_def)
  then have "state_saved (persistState (n\<lparr>commitIndex := i\<rparr>))"
    by (intro state_saved_persistState) (simp add: log_inv_def)
  with h Some show ?thesis
    by (simp add: updateCommitIndex_def node_inv_applyCommitted)
qed

end
