(* ===== verification/Async_Inv.thy ===== *)
theory Async_Inv
  imports Node_Inv
begin

text \<open>
  The node invariant through the asynchronous operations: elections, replication, client writes,
  catching up from a sync-log answer, confirmed reads; and the constructor, which recovers a node
  from its store.
\<close>

section \<open>The asynchronous operations keep the invariant\<close>

lemma node_inv_finalizeElection: "node_inv n \<Longrightarrow> node_inv (fst (finalizeElection n el))"
  by (simp add: finalizeElection_def node_inv_becomeLeader)

lemma node_inv_runElection: "node_inv n \<Longrightarrow> node_inv (fst (runElection n))"
  by (simp add: runElection_def Let_def node_inv_becomeCandidate node_inv_finalizeElection)

lemma node_inv_vote_then: "node_inv n \<Longrightarrow> node_inv (fst (vote_then n el reply))"
  by (simp add: vote_then_def Let_def node_inv_becomeFollower node_inv_finalizeElection)

lemma node_inv_vote_settled: "node_inv n \<Longrightarrow> node_inv (fst (vote_settled n el reply))"
  by (cases reply)
    (simp_all add: vote_settled_def vote_finally_def Let_def split_beta
      node_inv_finalizeElection node_inv_vote_then)

lemma node_inv_replication_settled:
  "node_inv n \<Longrightarrow> node_inv (replication_settled n peer r outcome)"
  by (simp add: replication_settled_def appendEntries_settled_def installSnapshot_settled_def Let_def
      node_inv_becomeFollower split: replication.split rpc_outcome.split)

lemma node_inv_driveReplication: "node_inv n \<Longrightarrow> node_inv (fst (driveReplication n peer))"
  by (simp add: driveReplication_def Let_def)

lemma node_inv_drive_peers: "node_inv n \<Longrightarrow> node_inv (fst (drive_peers n ps))"
  by (induction ps arbitrary: n) (simp_all add: Let_def split_beta node_inv_driveReplication)

lemma node_inv_replicate_round: "node_inv n \<Longrightarrow> node_inv (replicate_round n answer)"
proof -
  have "node_inv (foldl (\<lambda>n (peer, r). replication_settled n peer r (answer peer r)) m sends)"
    if "node_inv m" for m sends
    using that by (induction sends arbitrary: m) (auto simp: node_inv_replication_settled)
  then show "node_inv n \<Longrightarrow> node_inv (replicate_round n answer)"
    by (auto simp: replicate_round_def split: prod.split dest: node_inv_drive_peers[of n "my_peers n"])
qed

lemma node_inv_sendHeartbeats: "node_inv n \<Longrightarrow> node_inv (sendHeartbeats n answer)"
  by (simp add: sendHeartbeats_def sendHeartbeats_end_def node_inv_replicate_round node_inv_updateCommitIndex)

lemma merged_append:
  assumes "log_wf l" and "log_durable l" and "commit \<le> getLastIndex l" and "e_index e = getLastIndex l + 1"
  shows "merged commit (e_index e) l (log_append l e)"
proof -
  have "place l e = log_append l e"
    using assms(4) by (intro rl.place_absent) (simp add: getEntry_None_iff)
  moreover have "getEntry l (e_index e) = None"
    using assms(4) by (simp add: getEntry_None_iff)
  ultimately show ?thesis
    using merged_place[of l commit e] assms lastIncludedIndex_le_last[of l] by simp
qed

lemma node_inv_client_write_begin:
  assumes "node_inv n" and "client_write_begin n stroke = Inr (n', i)"
  shows "node_inv n'"
proof -
  let ?e = "\<lparr>e_index = getLastIndex (raftLog n) + 1, e_term = currentTerm n, e_stroke = stroke\<rparr>"
  have "merged (commitIndex n) (e_index ?e) (raftLog n) (log_append (raftLog n) ?e)"
    using assms(1) by (intro merged_append) (auto simp: node_inv_def log_inv_def)
  then have "node_inv (n\<lparr>raftLog := log_append (raftLog n) ?e\<rparr>)"
    using assms(1) node_inv_merged by blast
  with assms(2) show ?thesis
    by (auto simp: client_write_begin_def Let_def split: if_splits)
qed

lemma node_inv_client_write_check:
  "node_inv n \<Longrightarrow> client_write_check n i latency = Some r \<Longrightarrow> node_inv (fst r)"
  by (auto simp: client_write_check_def Let_def node_inv_updateCommitIndex split: if_splits)

lemma node_inv_confirm_loop: "node_inv n \<Longrightarrow> node_inv (fst (confirm_loop n results acks))"
  by (induction n results acks rule: confirm_loop.induct) (simp_all add: node_inv_becomeFollower)

lemma cu_loop_merged:
  assumes "log_wf l" and "log_durable l" and "lastIncludedIndex l = b" and "b \<le> commit"
    and "commit \<le> getLastIndex l" and "entries_from s es" and "s \<le> getLastIndex l + 1"
  shows "merged commit s l (cu_loop b commit es l)"
  using assms
proof (induction es arbitrary: s l)
  case Nil
  then show ?case by (simp add: merged_refl)
next
  case (Cons e es)
  have idx: "e_index e = s" and rest: "entries_from (Suc s) es"
    using Cons.prems(6) by auto
  let ?clash = "case getEntry l (e_index e) of None \<Rightarrow> False
      | Some x \<Rightarrow> e_term x \<noteq> e_term e \<and> e_index e \<le> commit"
  show ?case
  proof (cases "e_index e \<le> b \<or> ?clash")
    case True
    have "Suc s \<le> getLastIndex l + 1"
      using True idx Cons.prems(3,4,5) lastIncludedIndex_le_last[of l] by (auto split: option.splits)
    with True Cons.IH[OF Cons.prems(1-5) rest] show ?thesis
      by (auto intro: merged_weaken[of commit "Suc s" l _ s])
  next
    case False
    have in_range: "lastIncludedIndex l < e_index e" "e_index e \<le> getLastIndex l + 1"
      using False idx Cons.prems(3,7) by auto
    have step: "merged commit s l (place l e)"
      using merged_place[OF Cons.prems(1,2,5) in_range] False idx by simp
    have "Suc s \<le> getLastIndex (place l e) + 1"
      using rl.place_top[OF in_range] idx by simp
    with step rest Cons.prems(3,4)
    have "merged commit (Suc s) (place l e) (cu_loop b commit es (place l e))"
      by (intro Cons.IH) (auto simp: merged_def)
    then have "merged commit s l (cu_loop b commit es (place l e))"
      using merged_trans[OF step merged_weaken] by simp
    with False show ?thesis by auto
  qed
qed


section \<open>Catching up\<close>

text \<open>
  What a follower may take from a sync-log answer: the committed entries run on without a gap
  from an index that is at most one past the end of its log. The code does not check it: an answer
  comes like this as long as the log was not cut since the request was sent (\<open>Crash_Points\<close>).
\<close>
definition sync_entries :: "sync_log_result \<Rightarrow> log_entry list" where
  "sync_entries r = filter (\<lambda>e. e_index e \<le> slr_commitIndex r) (slr_entries r)"

definition sync_wf :: "raft_node \<Rightarrow> sync_log_result \<Rightarrow> bool" where
  "sync_wf n r \<longleftrightarrow>
     (case sync_entries r of
        [] \<Rightarrow> True
      | e # es \<Rightarrow> entries_from (e_index e) (e # es) \<and> e_index e \<le> getLastIndex (raftLog n) + 1)"

lemma sync_wf_from:
  assumes "sync_wf n r"
  obtains s where "entries_from s (sync_entries r)" and "s \<le> getLastIndex (raftLog n) + 1"
proof (cases "sync_entries r")
  case Nil
  then show ?thesis using that[of 0] by simp
next
  case (Cons e es)
  then show ?thesis using assms that[of "e_index e"] by (simp add: sync_wf_def)
qed

lemma getLastIndex_applySnapshot:
  assumes "log_wf (raftLog n)" and "lastIncludedIndex (raftLog n) \<le> i"
  shows "getLastIndex (raftLog (applySnapshot n i t bds)) = max i (getLastIndex (raftLog n))"
proof -
  have "getLastIndex (raftLog (applySnapshot n i t bds)) = getLastIndex (log_installSnapshot (raftLog n) i t)"
    by (simp add: applySnapshot_def Let_def)
  also have "\<dots> = i + length (drop (i - lastIncludedIndex (raftLog n)) (entries (raftLog n)))"
    by (simp add: getLastIndex_def log_wf_install(1)[OF assms])
  finally show ?thesis
    using assms(2) by (auto simp: getLastIndex_def max_def)
qed

text \<open>The node after the optional step-down and the optional snapshot of a catch-up.\<close>
definition catch_up_base :: "raft_node \<Rightarrow> sync_log_result \<Rightarrow> raft_node" where
  "catch_up_base n0 r =
     (let n1 = (if slr_term r > currentTerm n0 then becomeFollower n0 (slr_term r) None None else n0)
      in case slr_snapshot r of
           None \<Rightarrow> n1
         | Some sn \<Rightarrow> if sn_lastIncludedIndex sn > commitIndex n1
             then applySnapshot n1 (sn_lastIncludedIndex sn) (sn_lastIncludedTerm sn) (sn_boards sn)
             else n1)"

lemma catch_up_apply_eq:
  "catch_up_apply n r =
     (let n2 = catch_up_base n r
      in follow_commit (n2\<lparr>raftLog := cu_loop (lastIncludedIndex (raftLog n2)) (commitIndex n2)
           (sync_entries r) (raftLog n2)\<rparr>) (slr_commitIndex r))"
  by (simp add: catch_up_apply_def catch_up_base_def sync_entries_def Let_def)

lemma catch_up_base_inv:
  assumes "node_inv n"
  shows "node_inv (catch_up_base n r)"
    and "getLastIndex (raftLog n) \<le> getLastIndex (raftLog (catch_up_base n r))"
    and "commitIndex n \<le> commitIndex (catch_up_base n r)"
proof -
  let ?n1 = "if slr_term r > currentTerm n then becomeFollower n (slr_term r) None None else n"
  have inv: "node_inv ?n1" and same: "commitIndex ?n1 = commitIndex n"
    "getLastIndex (raftLog ?n1) = getLastIndex (raftLog n)"
    using assms by (simp_all add: node_inv_becomeFollower)
  have base: "catch_up_base n r = (case slr_snapshot r of
      None \<Rightarrow> ?n1
    | Some sn \<Rightarrow> if sn_lastIncludedIndex sn > commitIndex ?n1
        then applySnapshot ?n1 (sn_lastIncludedIndex sn) (sn_lastIncludedTerm sn) (sn_boards sn) else ?n1)"
    by (simp add: catch_up_base_def Let_def)
  have last: "getLastIndex (raftLog (applySnapshot ?n1 i t bds)) = max i (getLastIndex (raftLog ?n1))"
    if "commitIndex ?n1 < i" for i t bds
    using inv that by (intro getLastIndex_applySnapshot) (auto simp: node_inv_def log_inv_def)
  show "node_inv (catch_up_base n r)"
    unfolding base using inv by (auto split: option.split simp: node_inv_applySnapshot)
  show "getLastIndex (raftLog n) \<le> getLastIndex (raftLog (catch_up_base n r))"
    unfolding base using last same by (auto split: option.split)
  show "commitIndex n \<le> commitIndex (catch_up_base n r)"
    unfolding base using same by (auto split: option.split)
qed

lemma catch_up_merged:
  assumes "node_inv n" and "sync_wf n r"
  shows "merged (commitIndex (catch_up_base n r)) 0 (raftLog (catch_up_base n r))
    (cu_loop (lastIncludedIndex (raftLog (catch_up_base n r))) (commitIndex (catch_up_base n r))
       (sync_entries r) (raftLog (catch_up_base n r)))"
proof -
  obtain s where s: "entries_from s (sync_entries r)" "s \<le> getLastIndex (raftLog n) + 1"
    using assms(2) by (rule sync_wf_from)
  have "s \<le> getLastIndex (raftLog (catch_up_base n r)) + 1"
    using s(2) catch_up_base_inv(2)[OF assms(1), of r] by simp
  then show ?thesis
    using s(1) catch_up_base_inv(1)[OF assms(1), of r]
    by (intro merged_weaken[OF cu_loop_merged]) (auto simp: node_inv_def log_inv_def)
qed

lemma node_inv_catch_up_apply:
  assumes "node_inv n" and "sync_wf n r"
  shows "node_inv (catch_up_apply n r)"
  unfolding catch_up_apply_eq Let_def
  by (intro node_inv_follow_commit node_inv_merged[OF catch_up_base_inv(1)[OF assms(1)] catch_up_merged[OF assms]])

section \<open>Construction and recovery\<close>

text \<open>A store that a node can be opened on.\<close>
definition store_ok :: "persistence \<Rightarrow> bool" where
  "store_ok p \<longleftrightarrow> log_wf (new_RaftLog p) \<and>
     max (ps_commitIndex (loadState p)) (lastIncludedIndex (new_RaftLog p)) \<le> getLastIndex (new_RaftLog p)"

text \<open>The node just before the constructor replays the committed entries.\<close>
definition opened :: "node_config \<Rightarrow> timer_manager \<Rightarrow> metrics \<Rightarrow> persistence \<Rightarrow> raft_node" where
  "opened cfg tm m p =
     \<lparr>config = cfg, currentTerm = ps_currentTerm (loadState p), votedFor = ps_votedFor (loadState p),
      raftLog = new_RaftLog p, state = Follower, leaderId = None, leaderAddr = None,
      commitIndex = max (ps_commitIndex (loadState p)) (lastIncludedIndex (new_RaftLog p)),
      lastApplied = lastIncludedIndex (new_RaftLog p), nextIndex = Map.empty, matchIndex = Map.empty,
      replicating = {}, boards = snapshot_state p, timers = tm, nodeMetrics = m\<rparr>"

lemma new_RaftNode_opened: "new_RaftNode cfg tm m p = applyCommitted (opened cfg tm m p)"
  by (simp add: new_RaftNode_def opened_def Let_def new_RaftLog_def snapshot_state_def split: option.split)

lemma persistence_new_RaftLog [simp]: "persistence (new_RaftLog p) = p"
  by (simp add: new_RaftLog_def Let_def split: option.split)

lemma log_durable_new [simp]: "log_durable (new_RaftLog p)"
  by (simp add: log_durable_def)

lemma opened_inv:
  assumes "store_ok p"
  shows "log_inv (opened cfg tm m p)" and "boards_inv (opened cfg tm m p)" and "state_saved (opened cfg tm m p)"
  using assms
  by (simp_all add: opened_def log_inv_def boards_inv_def state_saved_def store_ok_def replayed_def upto_index_def)

lemma node_inv_new: "store_ok p \<Longrightarrow> node_inv (new_RaftNode cfg tm m p)"
  by (simp add: new_RaftNode_opened node_inv_applyCommitted opened_inv)

lemma store_ok_node: "node_inv n \<Longrightarrow> store_ok (store n)"
proof (cases "pkind (store n)")
  case MemoryPersistence
  then show ?thesis
    by (simp add: store_ok_def new_RaftLog_def persistence_ops Let_def log_wf_def getLastIndex_def)
next
  case FilePersistence
  assume "node_inv n"
  with FilePersistence show ?thesis
    by (auto simp: store_ok_def node_inv_def log_inv_def log_durable_def state_saved_def)
qed

lemma store_ok_empty: "disk p = empty_disk \<Longrightarrow> store_ok p"
  by (cases "pkind p")
    (simp_all add: store_ok_def new_RaftLog_def persistence_ops Let_def log_wf_def getLastIndex_def empty_disk_def)

text \<open>
  The node that opens the store of another one: the same durable state, the same log beyond the
  commit index, the same boards.
\<close>
lemma reopened:
  assumes inv: "node_inv n" and on_disk: "pkind (store n) = FilePersistence"
    and new: "n' = new_RaftNode cfg tm m (store n)"
  shows "node_inv n'" and "currentTerm n' = currentTerm n" and "votedFor n' = votedFor n"
    and "commitIndex n' = commitIndex n" and "state n' = Follower"
    and "getLastIndex (raftLog n') = getLastIndex (raftLog n)"
    and "lastIncludedIndex (raftLog n') < i \<Longrightarrow> getEntry (raftLog n') i = getEntry (raftLog n) i"
    and "same_boards (boards n') (boards n)"
proof -
  let ?o = "opened cfg tm m (store n)"
  have log: "new_RaftLog (store n) = raftLog n"
    using inv on_disk by (simp add: node_inv_def log_inv_def log_durable_def)
  have st: "currentTerm ?o = currentTerm n" "votedFor ?o = votedFor n" "commitIndex ?o = commitIndex n"
    using inv on_disk log by (auto simp: opened_def node_inv_def state_saved_def)
  have ok: "store_ok (store n)" using inv by (rule store_ok_node)
  note o = opened_inv[OF ok]
  have range: "lastIncludedIndex (raftLog ?o) \<le> commitIndex ?o" "commitIndex ?o \<le> getLastIndex (raftLog ?o)"
    using o(1)[of cfg tm m] by (auto simp: log_inv_def)
  show "node_inv n'" unfolding new using ok by (rule node_inv_new)
  show "currentTerm n' = currentTerm n" "votedFor n' = votedFor n" "commitIndex n' = commitIndex n"
    using st by (simp_all add: new new_RaftNode_opened)
  show "state n' = Follower"
    by (simp add: new new_RaftNode_opened) (simp add: opened_def)
  have rlo: "raftLog ?o = raftLog n" using log by (simp add: opened_def)
  show "getLastIndex (raftLog n') = getLastIndex (raftLog n)"
    using applyCommitted_log(1)[OF range] rlo by (simp add: new new_RaftNode_opened)
  show "lastIncludedIndex (raftLog n') < i \<Longrightarrow> getEntry (raftLog n') i = getEntry (raftLog n) i"
    using applyCommitted_log(4)[OF range] rlo by (simp add: new new_RaftNode_opened)
  have "boards n' = boards (apply_loop ?o)"
    by (simp add: new new_RaftNode_opened applyCommitted_def maybeSnapshot_def)
  moreover have "same_boards (boards (apply_loop ?o)) (replayed (raftLog n) (commitIndex n))"
    using apply_loop_inv[OF o(1)[of cfg tm m] o(2)[of cfg tm m]] rlo st(3) on_disk by (auto simp: boards_inv_def)
  moreover have "same_boards (boards n) (replayed (raftLog n) (commitIndex n))"
    using inv on_disk by (auto simp: node_inv_def boards_inv_def)
  ultimately show "same_boards (boards n') (boards n)"
    by (simp add: same_boards_def)
qed

end
