(* ===== verification/Votes.thy ===== *)
theory Votes
  imports Async_Inv
begin

text \<open>
  What each operation of a node does to its term, its vote and its role, without any assumption on
  the messages it handles. Almost every operation is \<open>quiet\<close>: it leaves term and vote alone and
  at most steps down, or it moves to a later term as a follower that has not voted. The
  exceptions are listed one by one: an election timeout, a vote request, a message from a leader,
  and the reply that completes an election.
\<close>

section \<open>Votes on disk\<close>

definition vote_saved :: "raft_node \<Rightarrow> bool" where
  "vote_saved n \<longleftrightarrow> (pkind (store n) = FilePersistence \<longrightarrow>
     ps_currentTerm (loadState (store n)) = currentTerm n \<and>
     ps_votedFor (loadState (store n)) = votedFor n)"

text \<open>Logs that share the saved state; all the log's own operations keep it.\<close>
definition same_saved :: "raft_log \<Rightarrow> raft_log \<Rightarrow> bool" where
  "same_saved l l' \<longleftrightarrow> pkind (persistence l') = pkind (persistence l) \<and>
     loadState (persistence l') = loadState (persistence l)"

lemma same_saved_refl [simp]: "same_saved l l"
  by (simp add: same_saved_def)

lemma same_saved_trans: "same_saved l l' \<Longrightarrow> same_saved l' l'' \<Longrightarrow> same_saved l l''"
  by (simp add: same_saved_def)

lemma loadState_other_writes [simp]:
  "loadState (appendLog p e) = loadState p" "loadState (rewriteLog p es) = loadState p"
  "loadState (saveSnapshot p sn) = loadState p"
  by (cases "pkind p"; simp add: persistence_ops)+

lemma same_saved_log [simp]:
  "same_saved l (log_append l e)" "same_saved l (truncateFrom l i)" "same_saved l (place l e)"
  "same_saved l (log_compact l i t)" "same_saved l (log_installSnapshot l i t)"
  by (simp_all add: same_saved_def log_append_def truncateFrom_def place_entry_def
      log_compact_def log_installSnapshot_def Let_def split: option.split)

lemma same_saved_ae_loop:
  "case ae_loop b commit es l of Inl l' \<Rightarrow> same_saved l l' | Inr l' \<Rightarrow> same_saved l l'"
proof (induction es arbitrary: l)
  case (Cons e es)
  show ?case
    using Cons[of l] Cons[of "place l e"] same_saved_trans[OF same_saved_log(3)[of l e]]
    by (auto split: sum.splits)
qed simp

lemma same_saved_cu_loop: "same_saved l (cu_loop b commit es l)"
proof (induction es arbitrary: l)
  case (Cons e es)
  show ?case
    using Cons[of l] same_saved_trans[OF same_saved_log(3)[of l e] Cons[of "place l e"]] by auto
qed simp

section \<open>Quiet operations\<close>

definition quiet :: "raft_node \<Rightarrow> raft_node \<Rightarrow> bool" where
  "quiet n n' \<longleftrightarrow> config n' = config n \<and> pkind (store n') = pkind (store n) \<and>
     (vote_saved n \<longrightarrow> vote_saved n') \<and>
     (currentTerm n' = currentTerm n \<and> votedFor n' = votedFor n \<and> (state n' = state n \<or> state n' = Follower) \<or>
      currentTerm n < currentTerm n' \<and> votedFor n' = None \<and> state n' = Follower)"

lemma quiet_refl [simp]: "quiet n n"
  by (simp add: quiet_def)

lemma quiet_trans: "quiet n n' \<Longrightarrow> quiet n' n'' \<Longrightarrow> quiet n n''"
  by (auto simp: quiet_def)

lemma vote_saved_persistState [simp]: "vote_saved (persistState n)"
  by (simp add: vote_saved_def persistState_def file_store.load_saved)

lemma vote_saved_updates [simp]:
  "vote_saved (n\<lparr>timers := a\<rparr>) = vote_saved n" "vote_saved (n\<lparr>nodeMetrics := b\<rparr>) = vote_saved n"
  "vote_saved (n\<lparr>nextIndex := h\<rparr>) = vote_saved n" "vote_saved (n\<lparr>matchIndex := j\<rparr>) = vote_saved n"
  "vote_saved (n\<lparr>replicating := k\<rparr>) = vote_saved n" "vote_saved (n\<lparr>state := s\<rparr>) = vote_saved n"
  "vote_saved (n\<lparr>leaderId := c\<rparr>) = vote_saved n" "vote_saved (n\<lparr>leaderAddr := d\<rparr>) = vote_saved n"
  "vote_saved (n\<lparr>commitIndex := i\<rparr>) = vote_saved n" "vote_saved (n\<lparr>lastApplied := i\<rparr>) = vote_saved n"
  "vote_saved (n\<lparr>boards := bs\<rparr>) = vote_saved n"
  by (simp_all add: vote_saved_def)

lemma quiet_updates [simp]:
  "quiet n (n'\<lparr>timers := a\<rparr>) = quiet n n'" "quiet n (n'\<lparr>nodeMetrics := b\<rparr>) = quiet n n'"
  "quiet n (n'\<lparr>nextIndex := h\<rparr>) = quiet n n'" "quiet n (n'\<lparr>matchIndex := j\<rparr>) = quiet n n'"
  "quiet n (n'\<lparr>replicating := k\<rparr>) = quiet n n'" "quiet n (n'\<lparr>leaderId := c\<rparr>) = quiet n n'"
  "quiet n (n'\<lparr>leaderAddr := d\<rparr>) = quiet n n'" "quiet n (n'\<lparr>commitIndex := i\<rparr>) = quiet n n'"
  "quiet n (n'\<lparr>lastApplied := i\<rparr>) = quiet n n'" "quiet n (n'\<lparr>boards := bs\<rparr>) = quiet n n'"
  by (simp_all add: quiet_def)

lemma quiet_log: "same_saved (raftLog n) l \<Longrightarrow> quiet n (n\<lparr>raftLog := l\<rparr>)"
  by (simp add: quiet_def same_saved_def vote_saved_def)

lemma quiet_persistState [simp]: "quiet n (persistState n)"
  by (simp add: quiet_def)

lemma quiet_becomeFollower: "currentTerm n < t \<Longrightarrow> quiet n (becomeFollower n t l a)"
  by (simp add: quiet_def becomeFollower_def Let_def)

lemma quiet_takeSnapshot: "quiet n (takeSnapshot n)"
proof -
  have "same_saved (raftLog n) (log_compact ((raftLog n)\<lparr>persistence := saveSnapshot (store n) sn\<rparr>) i t)" for sn i t
    by (rule same_saved_trans[OF _ same_saved_log(4)]) (simp add: same_saved_def)
  then show ?thesis by (simp add: takeSnapshot_def Let_def quiet_log)
qed

lemma quiet_applyCommitted: "quiet n (applyCommitted n)"
proof -
  have "quiet n (apply_loop n)" by (simp add: quiet_def vote_saved_def)
  then show ?thesis
    using quiet_trans[OF _ quiet_takeSnapshot] by (simp add: applyCommitted_def maybeSnapshot_def)
qed

lemma quiet_follow_commit: "quiet n (follow_commit n c)"
proof -
  have "quiet n (persistState (n\<lparr>commitIndex := i\<rparr>))" for i
    by (rule quiet_trans[OF _ quiet_persistState]) simp
  then show ?thesis
    using quiet_trans[OF _ quiet_applyCommitted] by (simp add: follow_commit_def)
qed

lemma quiet_updateCommitIndex: "quiet n (updateCommitIndex n)"
proof -
  have "quiet n (persistState (n\<lparr>commitIndex := i\<rparr>))" for i
    by (rule quiet_trans[OF _ quiet_persistState]) simp
  then show ?thesis
    using quiet_trans[OF _ quiet_applyCommitted] by (simp add: updateCommitIndex_def split: option.split)
qed

lemma quiet_applySnapshot: "quiet n (applySnapshot n i t bds)"
proof -
  have "same_saved (raftLog n)
      ((log_installSnapshot (raftLog n) i t)\<lparr>persistence := saveSnapshot (persistence (log_installSnapshot (raftLog n) i t)) sn\<rparr>)" for sn
    by (rule same_saved_trans[OF same_saved_log(5)]) (simp add: same_saved_def)
  then have "quiet n (n\<lparr>boards := bs, commitIndex := i, lastApplied := i,
      raftLog := (log_installSnapshot (raftLog n) i t)
        \<lparr>persistence := saveSnapshot (persistence (log_installSnapshot (raftLog n) i t)) sn\<rparr>\<rparr>)" for sn bs
    by (intro quiet_trans[OF _ quiet_log]) simp_all
  then show ?thesis
    by (auto simp: applySnapshot_def Let_def intro!: quiet_trans[OF _ quiet_persistState])
qed

lemma quiet_step_down: "quiet n (if currentTerm n < t then becomeFollower n t None None else n)"
  by (simp add: quiet_becomeFollower)

lemma quiet_handleSyncLog: "quiet n (fst (handleSyncLog n args))"
  by (simp add: handleSyncLog_def Let_def quiet_becomeFollower split: option.split)

lemma quiet_catch_up_apply: "quiet n (catch_up_apply n r)"
proof -
  let ?n = "if currentTerm n < slr_term r then becomeFollower n (slr_term r) None None else n"
  have "quiet ?n (catch_up_base n r)"
    using quiet_applySnapshot[of ?n] by (auto simp: catch_up_base_def Let_def split: option.split)
  with quiet_step_down have "quiet n (catch_up_base n r)"
    by (rule quiet_trans)
  then show ?thesis
    unfolding catch_up_apply_eq Let_def
    by (intro quiet_trans[OF quiet_trans[OF _ quiet_log[OF same_saved_cu_loop]] quiet_follow_commit])
qed

lemma quiet_replication_settled: "quiet n (replication_settled n peer r outcome)"
  by (simp add: replication_settled_def appendEntries_settled_def installSnapshot_settled_def Let_def
      quiet_becomeFollower split: replication.split rpc_outcome.split)

lemma quiet_driveReplication: "quiet n (fst (driveReplication n peer))"
  by (simp add: driveReplication_def Let_def)

lemma quiet_client_write_begin: "client_write_begin n stroke = Inr (n', i) \<Longrightarrow> quiet n n'"
  by (auto simp: client_write_begin_def Let_def quiet_log split: if_splits)

lemma quiet_client_write_check: "client_write_check n i latency = Some r \<Longrightarrow> quiet n (fst r)"
  by (auto simp: client_write_check_def Let_def quiet_updateCommitIndex split: if_splits)

lemma quiet_confirmLeadership_end: "quiet n (fst (confirmLeadership_end n args results))"
proof -
  have "quiet n (fst (confirm_loop n results acks))" for acks
    by (induction n results acks rule: confirm_loop.induct) (simp_all add: quiet_becomeFollower)
  then show ?thesis by (simp add: confirmLeadership_end_def split_beta)
qed

text \<open>A restart forgets the role and nothing else.\<close>
lemma quiet_restart:
  assumes "vote_saved n" and "pkind (store n) = FilePersistence"
  shows "quiet n (new_RaftNode (config n) tm m (store n))"
proof -
  have "quiet n (opened (config n) tm m (store n))"
    using assms by (simp add: quiet_def opened_def vote_saved_def)
  then show ?thesis
    unfolding new_RaftNode_opened by (rule quiet_trans[OF _ quiet_applyCommitted])
qed

section \<open>The operations that are not quiet\<close>

lemma becomeCandidate_vote:
  "config (becomeCandidate n) = config n" "currentTerm (becomeCandidate n) = Suc (currentTerm n)"
  "votedFor (becomeCandidate n) = Some (my_id n)" "state (becomeCandidate n) = Candidate"
  "vote_saved (becomeCandidate n)" "pkind (store (becomeCandidate n)) = pkind (store n)"
  by (simp_all add: becomeCandidate_def Let_def)

lemma becomeLeader_vote [simp]:
  "config (becomeLeader n) = config n" "currentTerm (becomeLeader n) = currentTerm n"
  "votedFor (becomeLeader n) = votedFor n" "state (becomeLeader n) = Leader"
  "vote_saved (becomeLeader n) = vote_saved n" "raftLog (becomeLeader n) = raftLog n"
  by (simp_all add: becomeLeader_def Let_def vote_saved_def)

text \<open>What it takes to end an election as its leader.\<close>
definition wins :: "raft_node \<Rightarrow> election \<Rightarrow> raft_node \<Rightarrow> bool" where
  "wins n el n' \<longleftrightarrow> state n = Candidate \<and> currentTerm n = rv_term (el_args el) \<and>
     my_majority n \<le> el_votesGranted el \<and> state n' = Leader \<and> config n' = config n \<and>
     currentTerm n' = currentTerm n \<and> votedFor n' = votedFor n \<and>
     pkind (store n') = pkind (store n) \<and> (vote_saved n \<longrightarrow> vote_saved n')"

lemma finalizeElection_vote:
  assumes "finalizeElection n el = (n', el')"
  shows "n' = n \<or> state n = Candidate \<and> (quiet n n' \<or> wins n el n')" and "el_args el' = el_args el"
    and "el_votesGranted el' = el_votesGranted el"
  using assms by (auto simp: finalizeElection_def wins_def split: if_splits)

lemma runElection_vote:
  assumes "runElection n = (n', el)"
  shows "config n' = config n" and "currentTerm n' = Suc (currentTerm n)"
    and "votedFor n' = Some (my_id n)" and "vote_saved n'" and "pkind (store n') = pkind (store n)"
    and "state n' = Candidate \<or> state n' = Leader \<and> my_majority n \<le> 1"
    and "el_votesGranted el = 1" and "rv_term (el_args el) = currentTerm n'"
    and "rv_candidateId (el_args el) = my_id n"
  using assms by (auto simp: runElection_def Let_def finalizeElection_def becomeCandidate_vote split: if_splits)

abbreviation granted :: "request_vote_result option \<Rightarrow> nat" where
  "granted reply \<equiv> (case reply of None \<Rightarrow> 0 | Some r \<Rightarrow> if rvr_voteGranted r then 1 else 0)"

lemma vote_then_vote:
  assumes "vote_then n el r = (n', el')"
  shows "quiet n n' \<or> wins n el' n'" and "el_args el' = el_args el"
    and "el_votesGranted el' \<le> el_votesGranted el + granted (Some r)"
proof -
  consider (ignored) "(n', el') = (n, el)"
    | (later) "currentTerm n < rvr_term r"
        "finalizeElection (becomeFollower n (rvr_term r) None None) el = (n', el')"
    | (counted) "rvr_voteGranted r"
        "(n', el') = (n, el\<lparr>el_votesGranted := el_votesGranted el + 1\<rparr>) \<or>
         finalizeElection n (el\<lparr>el_votesGranted := el_votesGranted el + 1\<rparr>) = (n', el')"
    using assms by (auto simp: vote_then_def Let_def split: if_splits)
  then have "(quiet n n' \<or> wins n el' n') \<and> el_args el' = el_args el \<and>
      el_votesGranted el' \<le> el_votesGranted el + granted (Some r)"
  proof cases
    case later
    then show ?thesis
      using finalizeElection_vote[OF later(2)] quiet_becomeFollower[OF later(1)] by auto
  next
    case counted
    then show ?thesis
      using finalizeElection_vote[of n "el\<lparr>el_votesGranted := el_votesGranted el + 1\<rparr>" n' el']
      by (auto simp: wins_def)
  qed simp
  then show "quiet n n' \<or> wins n el' n'" "el_args el' = el_args el"
    "el_votesGranted el' \<le> el_votesGranted el + granted (Some r)" by simp_all
qed

lemma vote_finally_vote:
  assumes "vote_finally n el = (n', el')"
  shows "n' = n \<or> state n = Candidate \<and> (quiet n n' \<or> wins n el' n')" and "el_args el' = el_args el"
    and "el_votesGranted el' = el_votesGranted el"
  using assms finalizeElection_vote[of n "el\<lparr>el_pendingReplies := el_pendingReplies el - 1\<rparr>" n' el']
  by (auto simp: vote_finally_def Let_def wins_def split: if_splits)

lemma vote_settled_vote:
  assumes "vote_settled n el reply = (n', el')"
  shows "quiet n n' \<or> wins n el' n'"
    and "el_args el' = el_args el"
    and "el_votesGranted el' \<le> el_votesGranted el + granted reply"
proof -
  obtain n1 el1 where first: "(case reply of None \<Rightarrow> (n, el) | Some r \<Rightarrow> vote_then n el r) = (n1, el1)"
    and last: "vote_finally n1 el1 = (n', el')"
    using assms by (auto simp: vote_settled_def split: prod.splits)
  note fin = vote_finally_vote[OF last]
  have then1: "quiet n n1 \<or> wins n el1 n1" "el_args el1 = el_args el"
    "el_votesGranted el1 \<le> el_votesGranted el + granted reply"
    using first vote_then_vote[of n el "the reply" n1 el1] by (auto split: option.splits)
  show "el_args el' = el_args el" "el_votesGranted el' \<le> el_votesGranted el + granted reply"
    using fin(2,3) then1(2,3) by auto
  from fin(1) show "quiet n n' \<or> wins n el' n'"
  proof
    assume "n' = n1"
    then show ?thesis using then1(1) fin(2,3) by (auto simp: wins_def)
  next
    assume h: "state n1 = Candidate \<and> (quiet n1 n' \<or> wins n1 el' n')"
    then have q: "quiet n n1" using then1(1) by (auto simp: wins_def)
    from h show ?thesis
    proof (elim conjE disjE)
      assume "quiet n1 n'"
      with q show ?thesis using quiet_trans by blast
    next
      assume "wins n1 el' n'" "state n1 = Candidate"
      with q have "wins n el' n'" by (auto simp: wins_def quiet_def)
      then show ?thesis ..
    qed
  qed
qed

lemma handleRequestVote_vote:
  assumes "handleRequestVote n args = (n', r)"
  shows "rvr_voteGranted r \<Longrightarrow> config n' = config n \<and> currentTerm n \<le> rv_term args \<and>
      currentTerm n' = rv_term args \<and> rvr_term r = rv_term args \<and>
      votedFor n' = Some (rv_candidateId args) \<and>
      (currentTerm n = rv_term args \<longrightarrow>
         (votedFor n = None \<or> votedFor n = Some (rv_candidateId args)) \<and> state n' = state n) \<and>
      (currentTerm n < rv_term args \<longrightarrow> state n' = Follower) \<and>
      vote_saved n' \<and> pkind (store n') = pkind (store n)"
    and "\<not> rvr_voteGranted r \<Longrightarrow> quiet n n'"
proof -
  define m where "m = (if rv_term args > currentTerm n then becomeFollower n (rv_term args) None None else n)"
  have m: "currentTerm m = max (currentTerm n) (rv_term args)" "config m = config n"
    "pkind (store m) = pkind (store n)" "quiet n m"
    "currentTerm n < rv_term args \<Longrightarrow> state m = Follower" "\<not> currentTerm n < rv_term args \<Longrightarrow> m = n"
    by (auto simp: m_def quiet_becomeFollower)
  have r: "rvr_voteGranted r \<longleftrightarrow> rv_term args \<ge> currentTerm m \<and>
      (votedFor m = None \<or> votedFor m = Some (rv_candidateId args)) \<and>
      isLogUpToDate m (rv_lastLogIndex args) (rv_lastLogTerm args)"
    and n': "n' = (if rvr_voteGranted r
      then let n1 = persistState (m\<lparr>votedFor := Some (rv_candidateId args), currentTerm := rv_term args\<rparr>)
           in n1\<lparr>timers := resetElectionTimer (timers n1)\<rparr> else m)"
    and t: "rvr_term r = currentTerm n'"
    using assms by (auto simp: handleRequestVote_def Let_def m_def[symmetric])
  show "\<not> rvr_voteGranted r \<Longrightarrow> quiet n n'"
    using n' m(4) by simp
  assume "rvr_voteGranted r"
  then show "config n' = config n \<and> currentTerm n \<le> rv_term args \<and>
      currentTerm n' = rv_term args \<and> rvr_term r = rv_term args \<and>
      votedFor n' = Some (rv_candidateId args) \<and>
      (currentTerm n = rv_term args \<longrightarrow>
         (votedFor n = None \<or> votedFor n = Some (rv_candidateId args)) \<and> state n' = state n) \<and>
      (currentTerm n < rv_term args \<longrightarrow> state n' = Follower) \<and>
      vote_saved n' \<and> pkind (store n') = pkind (store n)"
    using n' m r t by (cases "currentTerm n < rv_term args") (auto simp: Let_def)
qed

text \<open>A message from a leader: the one step that may forget a vote within a term.\<close>
definition follows :: "raft_node \<Rightarrow> nat \<Rightarrow> raft_node \<Rightarrow> bool" where
  "follows n t n' \<longleftrightarrow> quiet n n' \<or>
     currentTerm n = t \<and> state n \<noteq> Follower \<and> config n' = config n \<and> currentTerm n' = t \<and>
     votedFor n' = None \<and> state n' = Follower \<and> pkind (store n') = pkind (store n) \<and>
     (vote_saved n \<longrightarrow> vote_saved n')"

lemma follows_quiet:
  assumes "follows n t n'" and "quiet n' n''"
  shows "follows n t n''"
proof (cases "quiet n n'")
  case True
  then show ?thesis using assms(2) quiet_trans by (auto simp: follows_def)
next
  case False
  with assms(1) have f: "currentTerm n = t" "state n \<noteq> Follower" "config n' = config n" "currentTerm n' = t"
    "votedFor n' = None" "state n' = Follower" "pkind (store n') = pkind (store n)"
    "vote_saved n \<longrightarrow> vote_saved n'" by (simp_all add: follows_def)
  then show ?thesis
    using assms(2) by (cases "currentTerm n'' = t") (auto simp: follows_def quiet_def)
qed

lemma follows_accept_leader:
  assumes "currentTerm n \<le> t"
  shows "follows n t (accept_leader n t l a)"
proof (cases "currentTerm n < t \<or> state n \<noteq> Follower")
  case True
  then have "accept_leader n t l a = becomeFollower n t (Some l) a"
    by (auto simp: accept_leader_def)
  moreover have "vote_saved (becomeFollower n t (Some l) a)"
    by (simp add: becomeFollower_def Let_def)
  ultimately show ?thesis
    using True assms quiet_becomeFollower[of n t] by (cases "currentTerm n = t") (simp_all add: follows_def)
next
  case False
  then show ?thesis by (simp add: accept_leader_def Let_def follows_def)
qed

lemma follows_handleAppendEntries: "follows n (ae_term args) (fst (handleAppendEntries n args))"
proof (cases "ae_term args < currentTerm n")
  case False
  define m where "m = accept_leader n (ae_term args) (ae_leaderId args) (ae_leaderAddr args)"
  let ?r = "ae_loop (lastIncludedIndex (raftLog m)) (commitIndex m) (ae_entries args) (raftLog m)"
  have "case ?r of Inl l \<Rightarrow> same_saved (raftLog m) l | Inr l \<Rightarrow> same_saved (raftLog m) l"
    by (rule same_saved_ae_loop)
  then have "quiet m (fst (handleAppendEntries n args))"
    using False quiet_trans[OF quiet_log quiet_follow_commit, of m]
    by (auto simp: handleAppendEntries_def Let_def m_def[symmetric] quiet_log split: sum.splits)
  with follows_accept_leader show ?thesis
    unfolding m_def by (rule follows_quiet) (use False in simp)
qed (simp add: handleAppendEntries_def follows_def)

lemma follows_handleHeartbeat: "follows n (hb_term args) (fst (handleHeartbeat n args))"
  using follows_quiet[OF follows_accept_leader quiet_follow_commit, of n "hb_term args"]
  by (auto simp: handleHeartbeat_def Let_def) (simp add: follows_def)

lemma follows_handleInstallSnapshot: "follows n (is_term args) (fst (handleInstallSnapshot n args))"
  using follows_quiet[OF follows_accept_leader quiet_applySnapshot, of n "is_term args"]
    follows_accept_leader[of n "is_term args" "is_leaderId args" None]
  by (auto simp: handleInstallSnapshot_def Let_def) (simp add: follows_def)

end
