(* ===== verification/Cluster.thy ===== *)
theory Cluster
  imports Votes
begin

text \<open>
  A cluster of replicas and its network. Every member runs the code of \<open>Raft_Node\<close> and
  \<open>Raft_Async\<close>; messages are kept in sets, so they may be lost, delayed, reordered and
  handled more than once, in any interleaving, and members crash and restart on their disks. A vote
  reply is counted at most once per election and peer, because a promise settles once. The answers
  to replication, catch-up and read calls are arbitrary, so what is proved here holds
  whatever they are. The theorem of this file is election safety: no term has two leaders.
\<close>

section \<open>The system\<close>

datatype leader_call =
    CallAppend append_entries_args
  | CallHeartbeat heartbeat_args
  | CallSnapshot install_snapshot_args

fun call_term :: "leader_call \<Rightarrow> nat" where
  "call_term (CallAppend args) = ae_term args"
| "call_term (CallHeartbeat args) = hb_term args"
| "call_term (CallSnapshot args) = is_term args"

fun handle_call :: "raft_node \<Rightarrow> leader_call \<Rightarrow> raft_node" where
  "handle_call n (CallAppend args) = fst (handleAppendEntries n args)"
| "handle_call n (CallHeartbeat args) = fst (handleHeartbeat n args)"
| "handle_call n (CallSnapshot args) = fst (handleInstallSnapshot n args)"

text \<open>
  \<open>elections u t\<close> are the variables of the election that \<open>u\<close> runs in term \<open>t\<close>, \<open>awaited\<close> the
  vote calls that have not settled, \<open>elected\<close> the terms and members that were leaders, and
  \<open>caughtUp\<close> says that some catch-up call was answered.
\<close>
record cluster =
  nodes :: "url \<Rightarrow> raft_node"
  elections :: "url \<Rightarrow> nat \<Rightarrow> election option"
  awaited :: "(url \<times> nat \<times> url) set"
  voteRequests :: "(url \<times> url \<times> request_vote_args) set"
  voteReplies :: "(url \<times> nat \<times> url \<times> request_vote_result) set"
  leaderCalls :: "(url \<times> url \<times> leader_call) set"
  elected :: "(nat \<times> url) set"
  caughtUp :: bool

definition set_node :: "url \<Rightarrow> raft_node \<Rightarrow> cluster \<Rightarrow> cluster" where
  "set_node u n c = c\<lparr>nodes := (nodes c)(u := n),
     elected := elected c \<union> (if state n = Leader then {(currentTerm n, u)} else {})\<rparr>"

text \<open>The members know each other, and their names are distinct.\<close>
definition members_ok :: "url set \<Rightarrow> (url \<Rightarrow> node_config) \<Rightarrow> bool" where
  "members_ok M cfg \<longleftrightarrow> finite M \<and> inj_on (\<lambda>u. replicaId (cfg u)) M \<and>
     (\<forall>u\<in>M. distinct (peers (cfg u)) \<and> set (peers (cfg u)) = M - {u})"

definition cluster_init :: "url set \<Rightarrow> (url \<Rightarrow> node_config) \<Rightarrow> cluster \<Rightarrow> bool" where
  "cluster_init M cfg c \<longleftrightarrow>
     (\<forall>u\<in>M. \<exists>tm m p. pkind p = FilePersistence \<and> disk p = empty_disk \<and>
        nodes c u = new_RaftNode (cfg u) tm m p) \<and>
     elections c = (\<lambda>u t. None) \<and> awaited c = {} \<and> voteRequests c = {} \<and> voteReplies c = {} \<and>
     leaderCalls c = {} \<and> elected c = {} \<and> \<not> caughtUp c"

text \<open>What a sending puts on the wire.\<close>
fun wire :: "replication \<Rightarrow> leader_call set" where
  "wire NoSend = {}"
| "wire (SendAppend i args) = {CallAppend args}"
| "wire (SendSnapshot args) = {CallSnapshot args}"

inductive cluster_step :: "url set \<Rightarrow> cluster \<Rightarrow> cluster \<Rightarrow> bool" for M where
  timeout:
    "u \<in> M \<Longrightarrow>
     onElectionTimeout ((nodes c u)\<lparr>timers := fireElectionTimer (timers (nodes c u))\<rparr>) = Some (n, el) \<Longrightarrow>
     cluster_step M c ((set_node u n c)
       \<lparr>elections := (elections c)(u := (elections c u)(currentTerm n := Some el)),
        awaited := awaited c \<union> (\<lambda>p. (u, currentTerm n, p)) ` set (my_peers n),
        voteRequests := voteRequests c \<union> (\<lambda>p. (u, p, el_args el)) ` set (my_peers n)\<rparr>)"
| vote_request:
    "v \<in> M \<Longrightarrow> (u, v, args) \<in> voteRequests c \<Longrightarrow> handleRequestVote (nodes c v) args = (n, r) \<Longrightarrow>
     cluster_step M c ((set_node v n c)\<lparr>voteReplies := insert (u, rv_term args, v, r) (voteReplies c)\<rparr>)"
| vote_reply:
    "u \<in> M \<Longrightarrow> elections c u t = Some el \<Longrightarrow> (u, t, v) \<in> awaited c \<Longrightarrow>
     (case reply of None \<Rightarrow> True | Some r \<Rightarrow> (u, t, v, r) \<in> voteReplies c) \<Longrightarrow>
     vote_settled (nodes c u) el reply = (n, el') \<Longrightarrow>
     cluster_step M c ((set_node u n c)
       \<lparr>elections := (elections c)(u := (elections c u)(t := Some el')),
        awaited := awaited c - {(u, t, v)}\<rparr>)"
| replicate:
    "u \<in> M \<Longrightarrow> v \<in> set (my_peers (nodes c u)) \<Longrightarrow> driveReplication (nodes c u) v = (n, r) \<Longrightarrow>
     cluster_step M c ((set_node u n c)
       \<lparr>leaderCalls := leaderCalls c \<union> (\<lambda>call. (u, v, call)) ` wire r\<rparr>)"
| confirm:
    "u \<in> M \<Longrightarrow> confirmLeadership_begin (nodes c u) = Some args \<Longrightarrow>
     cluster_step M c (c\<lparr>leaderCalls :=
       leaderCalls c \<union> (\<lambda>p. (u, p, CallHeartbeat args)) ` set (my_peers (nodes c u))\<rparr>)"
| leader_call:
    "v \<in> M \<Longrightarrow> (u, v, call) \<in> leaderCalls c \<Longrightarrow>
     cluster_step M c (set_node v (handle_call (nodes c v) call) c)"
| replication_answer:
    "u \<in> M \<Longrightarrow> cluster_step M c (set_node u (replication_settled (nodes c u) v r outcome) c)"
| heartbeats_done:
    "u \<in> M \<Longrightarrow> cluster_step M c (set_node u (sendHeartbeats_end (nodes c u)) c)"
| client_write:
    "u \<in> M \<Longrightarrow> client_write_begin (nodes c u) stroke = Inr (n, i) \<Longrightarrow> cluster_step M c (set_node u n c)"
| write_round:
    "u \<in> M \<Longrightarrow> client_write_check (nodes c u) i latency = Some (n, result) \<Longrightarrow>
     cluster_step M c (set_node u n c)"
| read_answers:
    "u \<in> M \<Longrightarrow> cluster_step M c (set_node u (fst (confirmLeadership_end (nodes c u) args results)) c)"
| sync_request:
    "u \<in> M \<Longrightarrow> cluster_step M c (set_node u (fst (handleSyncLog (nodes c u) sargs)) c)"
| sync_answer:
    "u \<in> M \<Longrightarrow> cluster_step M c ((set_node u (catch_up_apply (nodes c u) sresult) c)\<lparr>caughtUp := True\<rparr>)"
| restart:
    "u \<in> M \<Longrightarrow> cluster_step M c ((set_node u (new_RaftNode (config (nodes c u)) tm m (store (nodes c u))) c)
       \<lparr>elections := (elections c)(u := (\<lambda>t. None))\<rparr>)"

inductive cluster_reachable :: "url set \<Rightarrow> (url \<Rightarrow> node_config) \<Rightarrow> cluster \<Rightarrow> bool" for M cfg where
  init: "cluster_init M cfg c \<Longrightarrow> cluster_reachable M cfg c"
| step: "cluster_reachable M cfg c \<Longrightarrow> cluster_step M c c' \<Longrightarrow> cluster_reachable M cfg c'"

section \<open>The invariant\<close>

abbreviation name_of :: "(url \<Rightarrow> node_config) \<Rightarrow> url \<Rightarrow> string" where
  "name_of cfg u \<equiv> replicaId (cfg u)"

text \<open>A member's own state: its configuration, its disk, and that only a node that votes for itself
  is more than a follower.\<close>
definition member_inv :: "node_config \<Rightarrow> raft_node \<Rightarrow> bool" where
  "member_inv k n \<longleftrightarrow> config n = k \<and> pkind (store n) = FilePersistence \<and> vote_saved n \<and>
     (state n \<noteq> Follower \<longrightarrow> votedFor n = Some (replicaId k))"

text \<open>\<open>n\<close> has given its vote of term \<open>t\<close> to \<open>s\<close> and still holds to it.\<close>
definition committed_to :: "raft_node \<Rightarrow> nat \<Rightarrow> string \<Rightarrow> bool" where
  "committed_to n t s \<longleftrightarrow> t \<le> currentTerm n \<and> (currentTerm n = t \<longrightarrow> votedFor n = Some s)"

definition voters :: "cluster \<Rightarrow> url \<Rightarrow> nat \<Rightarrow> url set" where
  "voters c u t = {v. \<exists>r. (u, t, v, r) \<in> voteReplies c \<and> rvr_voteGranted r}"

definition members_inv :: "url set \<Rightarrow> (url \<Rightarrow> node_config) \<Rightarrow> cluster \<Rightarrow> bool" where
  "members_inv M cfg c \<longleftrightarrow> (\<forall>u\<in>M. member_inv (cfg u) (nodes c u) \<and>
     (state (nodes c u) = Leader \<longrightarrow> (currentTerm (nodes c u), u) \<in> elected c))"

text \<open>A vote request carries its sender's name; a vote is given to one candidate only, by a follower
  that keeps to it, and never by a leader of the term.\<close>
definition votes_inv :: "url set \<Rightarrow> (url \<Rightarrow> node_config) \<Rightarrow> cluster \<Rightarrow> bool" where
  "votes_inv M cfg c \<longleftrightarrow>
     (\<forall>u v args. (u, v, args) \<in> voteRequests c \<longrightarrow> u \<in> M \<and> u \<noteq> v \<and> rv_candidateId args = name_of cfg u) \<and>
     (\<forall>u t v. v \<in> voters c u t \<longrightarrow> u \<in> M \<and> v \<in> M \<and> u \<noteq> v \<and> (t, v) \<notin> elected c \<and>
        committed_to (nodes c v) t (name_of cfg u) \<and>
        (currentTerm (nodes c v) = t \<longrightarrow> state (nodes c v) = Follower)) \<and>
     (\<forall>u u' t v. v \<in> voters c u t \<longrightarrow> v \<in> voters c u' t \<longrightarrow> u = u')"

text \<open>The votes an election has counted are votes that were given to it.\<close>
definition elections_inv :: "url set \<Rightarrow> cluster \<Rightarrow> bool" where
  "elections_inv M c \<longleftrightarrow> (\<forall>u\<in>M. \<forall>t el. elections c u t = Some el \<longrightarrow>
     rv_term (el_args el) = t \<and> el_votesGranted el \<le> 1 + card {v \<in> voters c u t. (u, t, v) \<notin> awaited c})"

definition elected_inv :: "url set \<Rightarrow> (url \<Rightarrow> node_config) \<Rightarrow> cluster \<Rightarrow> bool" where
  "elected_inv M cfg c \<longleftrightarrow>
     (\<forall>t u. (t, u) \<in> elected c \<longrightarrow> u \<in> M \<and> committed_to (nodes c u) t (name_of cfg u) \<and>
        majority_of M (insert u (voters c u t))) \<and>
     (\<forall>u v call. (u, v, call) \<in> leaderCalls c \<longrightarrow> u \<noteq> v \<and> (call_term call, u) \<in> elected c)"

definition cluster_inv :: "url set \<Rightarrow> (url \<Rightarrow> node_config) \<Rightarrow> cluster \<Rightarrow> bool" where
  "cluster_inv M cfg c \<longleftrightarrow> members_inv M cfg c \<and> votes_inv M cfg c \<and> elections_inv M c \<and> elected_inv M cfg c"

lemmas cluster_inv_defs = cluster_inv_def members_inv_def votes_inv_def elections_inv_def elected_inv_def

section \<open>No term has two leaders\<close>

lemma one_leader:
  assumes inv: "cluster_inv M cfg c" and u: "(t, u) \<in> elected c" and w: "(t, w) \<in> elected c"
  shows "u = w"
proof (rule ccontr)
  assume ne: "u \<noteq> w"
  have q: "majority_of M (insert u (voters c u t))" "majority_of M (insert w (voters c w t))"
    using inv u w by (auto simp: cluster_inv_def elected_inv_def)
  obtain v where v: "v \<in> insert u (voters c u t)" "v \<in> insert w (voters c w t)"
    using cluster_quorums.quorum_intersect[OF q] by auto
  have "(t, x) \<notin> elected c" if "x \<in> voters c y t" for x y
    using inv that by (auto simp: cluster_inv_def votes_inv_def)
  then have "v \<in> voters c u t" "v \<in> voters c w t"
    using v ne u w by auto
  then show False
    using inv ne by (auto simp: cluster_inv_def votes_inv_def)
qed

section \<open>Every step keeps the invariant\<close>

lemma voters_set_node [simp]: "voters (set_node u n c) = voters c"
  by (simp add: voters_def set_node_def fun_eq_iff)

lemma set_node_other [simp]:
  "elections (set_node u n c) = elections c" "awaited (set_node u n c) = awaited c"
  "voteRequests (set_node u n c) = voteRequests c" "voteReplies (set_node u n c) = voteReplies c"
  "leaderCalls (set_node u n c) = leaderCalls c" "nodes (set_node u n c) = (nodes c)(u := n)"
  by (simp_all add: set_node_def)

text \<open>A member moves: what it has promised it keeps, and it leads only with a majority of votes.\<close>
lemma set_node_inv:
  assumes inv: "cluster_inv M cfg c" and u: "u \<in> M"
    and own: "member_inv (cfg u) n"
    and kept: "\<And>t s. (t, u) \<in> elected c \<or> (\<exists>w. u \<in> voters c w t) \<Longrightarrow>
      committed_to (nodes c u) t s \<Longrightarrow> committed_to n t s"
    and follower: "\<And>w. u \<in> voters c w (currentTerm n) \<Longrightarrow> state n = Follower"
    and lead: "state n = Leader \<Longrightarrow> (currentTerm n, u) \<in> elected c \<or>
      majority_of M (insert u (voters c u (currentTerm n)))"
  shows "cluster_inv M cfg (set_node u n c)"
proof -
  have el: "(t, v) \<in> elected (set_node u n c) \<longleftrightarrow>
      (t, v) \<in> elected c \<or> v = u \<and> t = currentTerm n \<and> state n = Leader" for t v
    by (auto simp: set_node_def)
  have self: "committed_to n (currentTerm n) (name_of cfg u)" if "state n = Leader"
    using own that by (simp add: member_inv_def committed_to_def)
  have "members_inv M cfg (set_node u n c)"
    using inv own by (auto simp: cluster_inv_def members_inv_def el)
  moreover have "elections_inv M (set_node u n c)"
    using inv by (simp add: cluster_inv_def elections_inv_def)
  moreover have "votes_inv M cfg (set_node u n c)"
  proof -
    have "v \<in> voters c w t \<Longrightarrow> w \<in> M \<and> v \<in> M \<and> w \<noteq> v \<and> (t, v) \<notin> elected (set_node u n c) \<and>
        committed_to (((nodes c)(u := n)) v) t (name_of cfg w) \<and>
        (currentTerm (((nodes c)(u := n)) v) = t \<longrightarrow> state (((nodes c)(u := n)) v) = Follower)" for v w t
      using inv kept[of t "name_of cfg w"] follower[of w]
      by (cases "v = u") (auto simp: cluster_inv_def votes_inv_def el)
    then show ?thesis
      using inv by (simp add: cluster_inv_def votes_inv_def)
  qed
  moreover have "elected_inv M cfg (set_node u n c)"
  proof -
    have "(t, v) \<in> elected c \<Longrightarrow> v \<in> M \<and> committed_to (((nodes c)(u := n)) v) t (name_of cfg v) \<and>
        majority_of M (insert v (voters c v t))" for t v
      using inv kept[of t "name_of cfg v"] by (cases "v = u") (auto simp: cluster_inv_def elected_inv_def)
    moreover have "majority_of M (insert u (voters c u (currentTerm n)))" if "state n = Leader"
      using lead[OF that] inv by (auto simp: cluster_inv_def elected_inv_def)
    moreover have "w \<noteq> v \<and> (call_term call, w) \<in> elected (set_node u n c)" if "(w, v, call) \<in> leaderCalls c" for w v call
      using inv that by (auto simp: cluster_inv_def elected_inv_def el)
    ultimately show ?thesis
      using u self by (auto simp: elected_inv_def el)
  qed
  ultimately show ?thesis by (simp add: cluster_inv_def)
qed

lemma quiet_member:
  assumes "member_inv k n" and "quiet n n'"
  shows "member_inv k n'"
  using assms by (auto simp: member_inv_def quiet_def)

lemma set_node_quiet:
  assumes inv: "cluster_inv M cfg c" and u: "u \<in> M" and q: "quiet (nodes c u) n"
  shows "cluster_inv M cfg (set_node u n c)"
proof (rule set_node_inv[OF inv u])
  have own: "member_inv (cfg u) (nodes c u)" "state (nodes c u) = Leader \<Longrightarrow> (currentTerm (nodes c u), u) \<in> elected c"
    using inv u by (auto simp: cluster_inv_def members_inv_def)
  show "member_inv (cfg u) n"
    using own(1) q by (rule quiet_member)
  show "committed_to n t s" if "committed_to (nodes c u) t s" for t s
    using that q by (auto simp: committed_to_def quiet_def)
  show "state n = Follower" if "u \<in> voters c w (currentTerm n)" for w
    using inv that q by (auto simp: cluster_inv_def votes_inv_def quiet_def)
  show "(currentTerm n, u) \<in> elected c \<or> majority_of M (insert u (voters c u (currentTerm n)))" if "state n = Leader"
    using own(2) q that by (auto simp: quiet_def)
qed

lemma set_node_follows:
  assumes inv: "cluster_inv M cfg c" and u: "u \<in> M" and f: "follows (nodes c u) t n"
    and sender: "(t, w) \<in> elected c" "w \<noteq> u"
  shows "cluster_inv M cfg (set_node u n c)"
proof (cases "quiet (nodes c u) n")
  case True
  with inv u show ?thesis by (rule set_node_quiet)
next
  case False
  then have d: "currentTerm (nodes c u) = t" "state (nodes c u) \<noteq> Follower" "config n = config (nodes c u)"
    "currentTerm n = t" "votedFor n = None" "state n = Follower" "pkind (store n) = pkind (store (nodes c u))"
    "vote_saved (nodes c u) \<longrightarrow> vote_saved n"
    using f by (simp_all add: follows_def)
  have "(t, u) \<notin> elected c" using one_leader[OF inv] sender by blast
  moreover have "u \<notin> voters c x t" for x
    using inv d(1,2) by (auto simp: cluster_inv_def votes_inv_def)
  ultimately have free: "(t', u) \<in> elected c \<or> (\<exists>x. u \<in> voters c x t') \<Longrightarrow> t' \<noteq> t" for t'
    by auto
  show ?thesis
  proof (rule set_node_inv[OF inv u])
    show "member_inv (cfg u) n"
      using inv u d by (auto simp: cluster_inv_def members_inv_def member_inv_def)
    show "committed_to n t' s"
      if "(t', u) \<in> elected c \<or> (\<exists>w. u \<in> voters c w t')" "committed_to (nodes c u) t' s" for t' s
      using that(2) free[OF that(1)] d by (auto simp: committed_to_def)
  qed (use d in simp_all)
qed

text \<open>The messages and elections that a step leaves behind.\<close>

lemma caughtUp_inv [simp]: "cluster_inv M cfg (c\<lparr>caughtUp := b\<rparr>) = cluster_inv M cfg c"
  by (simp add: cluster_inv_defs voters_def)

lemma leaderCalls_inv:
  assumes "cluster_inv M cfg c"
    and "\<And>u v call. (u, v, call) \<in> K \<Longrightarrow> u \<noteq> v \<and> (call_term call, u) \<in> elected c"
  shows "cluster_inv M cfg (c\<lparr>leaderCalls := leaderCalls c \<union> K\<rparr>)"
  using assms by (auto simp: cluster_inv_defs voters_def)

lemma elections_gone_inv:
  "cluster_inv M cfg c \<Longrightarrow> cluster_inv M cfg (c\<lparr>elections := (elections c)(u := (\<lambda>t. None))\<rparr>)"
  by (auto simp: cluster_inv_defs voters_def)

lemma voterD:
  assumes "cluster_inv M cfg c" and "v \<in> voters c u t"
  shows "u \<in> M" and "v \<in> M" and "u \<noteq> v" and "(t, v) \<notin> elected c"
    and "committed_to (nodes c v) t (name_of cfg u)"
    and "currentTerm (nodes c v) = t \<Longrightarrow> state (nodes c v) = Follower"
  using assms by (auto simp: cluster_inv_def votes_inv_def)

lemma electedD:
  assumes "cluster_inv M cfg c" and "(t, u) \<in> elected c"
  shows "u \<in> M" and "committed_to (nodes c u) t (name_of cfg u)" and "majority_of M (insert u (voters c u t))"
  using assms by (auto simp: cluster_inv_def elected_inv_def)

lemma finite_voters:
  assumes "members_ok M cfg" and "cluster_inv M cfg c"
  shows "finite (voters c u t)" and "u \<notin> voters c u t"
proof -
  have "voters c u t \<subseteq> M" "finite M"
    using assms by (auto simp: cluster_inv_def votes_inv_def members_ok_def)
  then show "finite (voters c u t)" by (rule finite_subset)
  show "u \<notin> voters c u t"
    using voterD(3)[OF assms(2), of u u t] by blast
qed

text \<open>The size of the quorum that a member counts up to.\<close>
lemma my_majority_card:
  assumes "members_ok M cfg" and "cluster_inv M cfg c" and "u \<in> M"
    and "my_majority (nodes c u) \<le> Suc (card (voters c u t))"
  shows "majority_of M (insert u (voters c u t))"
proof -
  have "config (nodes c u) = cfg u"
    using assms(2,3) by (auto simp: cluster_inv_def members_inv_def member_inv_def)
  then have "length (my_peers (nodes c u)) = card M - 1"
    using assms(1,3) distinct_card[of "peers (cfg u)"] by (simp add: members_ok_def)
  moreover have "voters c u t \<subseteq> M" "finite M"
    using assms by (auto simp: cluster_inv_def votes_inv_def members_ok_def)
  ultimately show ?thesis
    using assms(3,4) finite_voters[OF assms(1,2)] by (simp add: majority_of_def)
qed

text \<open>The steps that are not just a member moving.\<close>

lemma votes_inv_requests:
  assumes inv: "votes_inv M cfg c"
    and reqs: "\<And>x y a. (x, y, a) \<in> voteRequests c' \<Longrightarrow> x \<in> M \<and> x \<noteq> y \<and> rv_candidateId a = name_of cfg x"
    and same: "voters c' = voters c" "nodes c' = nodes c" "elected c' = elected c"
  shows "votes_inv M cfg c'"
  using inv reqs unfolding votes_inv_def same by blast

lemma step_timeout:
  assumes ok: "members_ok M cfg" and inv: "cluster_inv M cfg c" and u: "u \<in> M"
    and e: "onElectionTimeout ((nodes c u)\<lparr>timers := tm\<rparr>) = Some (n, el)"
  shows "cluster_inv M cfg ((set_node u n c)
      \<lparr>elections := (elections c)(u := (elections c u)(currentTerm n := Some el)),
       awaited := awaited c \<union> (\<lambda>p. (u, currentTerm n, p)) ` set (my_peers n),
       voteRequests := voteRequests c \<union> (\<lambda>p. (u, p, el_args el)) ` set (my_peers n)\<rparr>)"
    (is "cluster_inv M cfg ?c'")
proof -
  have run: "runElection ((nodes c u)\<lparr>timers := tm\<rparr>) = (n, el)"
    using e by (auto simp: onElectionTimeout_def split: if_splits)
  note r = runElection_vote[OF run]
  have own: "member_inv (cfg u) (nodes c u)"
    using inv u by (simp add: cluster_inv_def members_inv_def)
  then have cfg_n: "config n = cfg u" "votedFor n = Some (name_of cfg u)"
    using r by (simp_all add: member_inv_def)
  have peers_n: "set (my_peers n) = M - {u}"
    using ok u cfg_n by (simp add: members_ok_def)
  have late: "t < currentTerm n" if "(t, u) \<in> elected c \<or> (\<exists>w. u \<in> voters c w t)" for t
    using that electedD(2)[OF inv, of t u] voterD(5)[OF inv, of u _ t] r(2)
    by (fastforce simp: committed_to_def)
  have "cluster_inv M cfg (set_node u n c)"
  proof (rule set_node_inv[OF inv u])
    show "member_inv (cfg u) n"
      using own r cfg_n by (simp add: member_inv_def)
    show "committed_to n t s"
      if "(t, u) \<in> elected c \<or> (\<exists>w. u \<in> voters c w t)" for t s
      using late[OF that] by (simp add: committed_to_def)
    show "state n = Follower" if "u \<in> voters c w (currentTerm n)" for w
      using late[of "currentTerm n"] that by blast
    show "(currentTerm n, u) \<in> elected c \<or> majority_of M (insert u (voters c u (currentTerm n)))"
      if "state n = Leader"
    proof -
      have "my_majority (nodes c u) \<le> 1" using r(6) that by simp
      then have "majority_of M (insert u (voters c u (currentTerm n)))"
        by (intro my_majority_card[OF ok inv u]) simp
      then show ?thesis ..
    qed
  qed
  moreover have "elections_inv M ?c'"
  proof -
    have "{w \<in> voters c x t. (x, t, w) \<notin> awaited c \<union> (\<lambda>p. (u, currentTerm n, p)) ` set (my_peers n)} =
        {w \<in> voters c x t. (x, t, w) \<notin> awaited c}" if "x \<noteq> u \<or> t \<noteq> currentTerm n" for x t
      using that by auto
    moreover have "voters ?c' = voters c"
      by (simp add: voters_def fun_eq_iff)
    ultimately show ?thesis
      using inv r(7,8) by (simp add: cluster_inv_def elections_inv_def)
  qed
  moreover have "votes_inv M cfg ?c'"
  proof -
    have "rv_candidateId (el_args el) = name_of cfg u"
      using r(9) own by (simp add: member_inv_def)
    then have reqs: "x \<in> M \<and> x \<noteq> y \<and> rv_candidateId a = name_of cfg x" if "(x, y, a) \<in> voteRequests ?c'" for x y a
      using inv that u peers_n by (auto simp: cluster_inv_def votes_inv_def)
    have "votes_inv M cfg (set_node u n c)"
      using \<open>cluster_inv M cfg (set_node u n c)\<close> by (simp add: cluster_inv_def)
    then show ?thesis
    proof (rule votes_inv_requests)
      show "voters ?c' = voters (set_node u n c)" by (simp add: voters_def fun_eq_iff)
    qed (use reqs in blast, simp_all)
  qed
  ultimately show ?thesis
    by (simp add: cluster_inv_def members_inv_def elected_inv_def voters_def)
qed

lemma step_vote_request:
  assumes ok: "members_ok M cfg" and inv: "cluster_inv M cfg c" and v: "v \<in> M"
    and req: "(u, v, args) \<in> voteRequests c" and h: "handleRequestVote (nodes c v) args = (n, r)"
  shows "cluster_inv M cfg ((set_node v n c)\<lparr>voteReplies := insert (u, rv_term args, v, r) (voteReplies c)\<rparr>)"
    (is "cluster_inv M cfg ?c'")
proof (cases "rvr_voteGranted r")
  case False
  then have "cluster_inv M cfg (set_node v n c)"
    using handleRequestVote_vote(2)[OF h] set_node_quiet[OF inv v] by blast
  moreover have "voters ?c' = voters c"
    using False by (auto simp: voters_def fun_eq_iff)
  ultimately show ?thesis
    by (simp add: cluster_inv_defs)
next
  case True
  let ?t = "rv_term args" and ?s = "name_of cfg u"
  have from_u: "u \<in> M" "u \<noteq> v" "rv_candidateId args = ?s"
    using inv req by (auto simp: cluster_inv_def votes_inv_def)
  note g = handleRequestVote_vote(1)[OF h True]
  have own: "member_inv (cfg v) (nodes c v)"
    using inv v by (simp add: cluster_inv_def members_inv_def)
  have names: "name_of cfg w \<noteq> name_of cfg w'" if "w \<in> M" "w' \<in> M" "w \<noteq> w'" for w w'
    using ok that by (auto simp: members_ok_def inj_on_def)
  have "?s \<noteq> name_of cfg v" using names from_u v by blast
  then have follower: "state n = Follower"
    using g own from_u(3) by (cases "currentTerm (nodes c v) = ?t") (auto simp: member_inv_def)
  have only_u: "w = u" if "v \<in> voters c w ?t" for w
  proof (rule ccontr)
    assume "w \<noteq> u"
    then have "name_of cfg w \<noteq> ?s" using names voterD(1)[OF inv that] from_u(1) by blast
    then show False
      using voterD(5)[OF inv that] g from_u(3) by (auto simp: committed_to_def)
  qed
  have not_elected: "(?t, v) \<notin> elected c"
  proof
    assume "(?t, v) \<in> elected c"
    then have "committed_to (nodes c v) ?t (name_of cfg v)"
      using inv by (simp add: cluster_inv_def elected_inv_def)
    then show False
      using g from_u(3) \<open>?s \<noteq> name_of cfg v\<close> by (auto simp: committed_to_def)
  qed
  have c1: "cluster_inv M cfg (set_node v n c)"
  proof (rule set_node_inv[OF inv v])
    show "member_inv (cfg v) n"
      using own g follower by (simp add: member_inv_def)
    show "committed_to n t s" if "committed_to (nodes c v) t s" for t s
      using that g by (auto simp: committed_to_def)
    show "state n = Follower" by (rule follower)
    show "(currentTerm n, v) \<in> elected c \<or> majority_of M (insert v (voters c v (currentTerm n)))"
      if "state n = Leader" using that follower by simp
  qed
  have votes: "w \<in> voters ?c' x t \<longleftrightarrow> w \<in> voters c x t \<or> w = v \<and> x = u \<and> t = ?t" for w x t
    using True by (auto simp: voters_def)
  have "votes_inv M cfg ?c'"
  proof -
    have "x \<in> M \<and> w \<in> M \<and> x \<noteq> w \<and> (t, w) \<notin> elected ?c' \<and> committed_to (nodes ?c' w) t (name_of cfg x) \<and>
        (currentTerm (nodes ?c' w) = t \<longrightarrow> state (nodes ?c' w) = Follower)"
      if "w \<in> voters ?c' x t" for w x t
    proof (cases "w \<in> voters c x t")
      case True
      then show ?thesis using voterD[OF c1, of w x t] by simp
    next
      case False
      then have "w = v" "x = u" "t = ?t" using that by (simp_all add: votes)
      moreover have "(?t, v) \<notin> elected (set_node v n c)"
        using not_elected follower by (simp add: set_node_def)
      ultimately show ?thesis
        using from_u v g follower by (simp add: committed_to_def)
    qed
    moreover have "x = y" if "w \<in> voters ?c' x t" "w \<in> voters ?c' y t" for w x y t
      using that only_u inv by (auto simp: votes cluster_inv_def votes_inv_def)
    moreover have "x \<in> M \<and> x \<noteq> y \<and> rv_candidateId a = name_of cfg x" if "(x, y, a) \<in> voteRequests ?c'" for x y a
      using inv that by (simp add: cluster_inv_def votes_inv_def)
    ultimately show ?thesis unfolding votes_inv_def by blast
  qed
  moreover have "elections_inv M ?c'"
  proof -
    have "card {w \<in> voters c x t. (x, t, w) \<notin> awaited c} \<le> card {w \<in> voters ?c' x t. (x, t, w) \<notin> awaited c}" for x t
    proof (rule card_mono)
      show "finite {w \<in> voters ?c' x t. (x, t, w) \<notin> awaited c}"
        using finite_voters(1)[OF ok inv, of x t]
        by (auto simp: votes intro: finite_subset[of _ "insert v (voters c x t)"])
    qed (auto simp: votes)
    then have "b \<le> 1 + card {w \<in> voters c x t. (x, t, w) \<notin> awaited c} \<Longrightarrow>
        b \<le> 1 + card {w \<in> voters ?c' x t. (x, t, w) \<notin> awaited c}" for b x t
      by (meson add_left_mono order_trans)
    then show ?thesis
      using inv by (simp add: cluster_inv_def elections_inv_def)
  qed
  moreover have "elected_inv M cfg ?c'"
  proof -
    have "majority_of M (insert w (voters ?c' w t))" if "majority_of M (insert w (voters c w t))" for w t
    proof -
      have sub: "insert w (voters ?c' w t) \<subseteq> M" 
        using that v by (auto simp: votes majority_of_def)
      then have "card (insert w (voters c w t)) \<le> card (insert w (voters ?c' w t))"
        using that by (intro card_mono) (auto simp: majority_of_def votes intro: finite_subset)
      with sub that show ?thesis by (simp add: majority_of_def)
    qed
    then show ?thesis
      using c1 by (simp add: cluster_inv_def elected_inv_def)
  qed
  moreover have "members_inv M cfg ?c'"
    using c1 by (simp add: cluster_inv_def members_inv_def)
  ultimately show ?thesis by (simp add: cluster_inv_def)
qed

text \<open>The count of an election after one more of its calls has settled.\<close>
lemma counted_votes:
  assumes ok: "members_ok M cfg" and inv: "cluster_inv M cfg c" and u: "u \<in> M"
    and el: "elections c u t = Some el" and open_call: "(u, t, v) \<in> awaited c"
    and reply: "case reply of None \<Rightarrow> True | Some r \<Rightarrow> (u, t, v, r) \<in> voteReplies c"
    and s: "vote_settled (nodes c u) el reply = (n, el')"
  shows "el_votesGranted el' \<le> 1 + card {w \<in> voters c u t. (u, t, w) \<notin> awaited c - {(u, t, v)}}"
proof -
  let ?before = "{w \<in> voters c u t. (u, t, w) \<notin> awaited c}"
  let ?after = "{w \<in> voters c u t. (u, t, w) \<notin> awaited c - {(u, t, v)}}"
  have fin: "finite ?after" using finite_voters(1)[OF ok inv, of u t] by simp
  have "el_votesGranted el \<le> 1 + card ?before"
    using inv u el by (simp add: cluster_inv_def elections_inv_def)
  moreover have "card ?before + granted reply \<le> card ?after"
  proof (cases "granted reply = 0")
    case True
    have "card ?before \<le> card ?after" using fin by (rule card_mono) auto
    with True show ?thesis by simp
  next
    case False
    then have "v \<in> voters c u t"
      using reply by (auto simp: voters_def split: option.splits if_splits)
    then have "?after = insert v ?before" "v \<notin> ?before" using open_call by auto
    then have "card ?after = Suc (card ?before)" using fin by simp
    moreover have "granted reply \<le> 1" by (simp split: option.split)
    ultimately show ?thesis by simp
  qed
  ultimately show ?thesis
    using vote_settled_vote(3)[OF s] by linarith
qed

lemma step_vote_reply:
  assumes ok: "members_ok M cfg" and inv: "cluster_inv M cfg c" and u: "u \<in> M"
    and el: "elections c u t = Some el" and open_call: "(u, t, v) \<in> awaited c"
    and reply: "case reply of None \<Rightarrow> True | Some r \<Rightarrow> (u, t, v, r) \<in> voteReplies c"
    and s: "vote_settled (nodes c u) el reply = (n, el')"
  shows "cluster_inv M cfg ((set_node u n c)
      \<lparr>elections := (elections c)(u := (elections c u)(t := Some el')), awaited := awaited c - {(u, t, v)}\<rparr>)"
    (is "cluster_inv M cfg ?c'")
proof -
  note count = counted_votes[OF ok inv u el open_call reply s]
  have term_el: "rv_term (el_args el') = t"
    using inv u el vote_settled_vote(2)[OF s] by (simp add: cluster_inv_def elections_inv_def)
  have "cluster_inv M cfg (set_node u n c)"
  proof (cases "quiet (nodes c u) n")
    case True
    with inv u show ?thesis by (rule set_node_quiet)
  next
    case False
    then have w: "wins (nodes c u) el' n" using vote_settled_vote(1)[OF s] by blast
    then have now: "currentTerm (nodes c u) = t" "currentTerm n = t" "state (nodes c u) = Candidate"
      "votedFor n = votedFor (nodes c u)" "state n = Leader"
      using term_el by (simp_all add: wins_def)
    have own: "member_inv (cfg u) (nodes c u)"
      using inv u by (simp add: cluster_inv_def members_inv_def)
    have none: "u \<notin> voters c x t" for x
      using voterD(6)[OF inv, of u x t] now by auto
    have "card {w \<in> voters c u t. (u, t, w) \<notin> awaited c - {(u, t, v)}} \<le> card (voters c u t)"
      using finite_voters(1)[OF ok inv] by (rule card_mono) auto
    then have "my_majority (nodes c u) \<le> Suc (card (voters c u t))"
      using w count by (simp add: wins_def)
    then have "majority_of M (insert u (voters c u t))"
      by (rule my_majority_card[OF ok inv u])
    then show ?thesis
      using now none own w
      by (intro set_node_inv[OF inv u]) (auto simp: member_inv_def wins_def committed_to_def)
  qed
  moreover have "elections_inv M ?c'"
  proof -
    have "{w \<in> voters c x t'. (x, t', w) \<notin> awaited c - {(u, t, v)}} = {w \<in> voters c x t'. (x, t', w) \<notin> awaited c}"
      if "x \<noteq> u \<or> t' \<noteq> t" for x t'
      using that by auto
    then show ?thesis
      using inv count term_el by (auto simp: cluster_inv_def elections_inv_def voters_def)
  qed
  ultimately show ?thesis
    by (simp add: cluster_inv_def members_inv_def votes_inv_def elected_inv_def voters_def set_node_def)
qed

lemma step_replicate:
  assumes ok: "members_ok M cfg" and inv: "cluster_inv M cfg c" and u: "u \<in> M"
    and v: "v \<in> set (my_peers (nodes c u))" and d: "driveReplication (nodes c u) v = (n, r)"
  shows "cluster_inv M cfg ((set_node u n c)\<lparr>leaderCalls := leaderCalls c \<union> (\<lambda>call. (u, v, call)) ` wire r\<rparr>)"
proof -
  have own: "config (nodes c u) = cfg u" "state (nodes c u) = Leader \<Longrightarrow> (currentTerm (nodes c u), u) \<in> elected c"
    using inv u by (auto simp: cluster_inv_def members_inv_def member_inv_def)
  have "r = (if v \<in> replicating (nodes c u) then NoSend else replicateOnce (nodes c u) v)"
    using d by (auto simp: driveReplication_def Let_def split: if_splits)
  then have "call_term call = currentTerm (nodes c u) \<and> state (nodes c u) = Leader" if "call \<in> wire r" for call
    using that by (auto simp: replicateOnce_def sendInstallSnapshot_def Let_def split: if_splits option.splits)
  moreover have "v \<noteq> u" using v ok u own(1) by (auto simp: members_ok_def)
  moreover have "cluster_inv M cfg (set_node u n c)"
    using set_node_quiet[OF inv u] quiet_driveReplication[of "nodes c u" v] d by simp
  ultimately have "cluster_inv M cfg ((set_node u n c)
      \<lparr>leaderCalls := leaderCalls (set_node u n c) \<union> (\<lambda>call. (u, v, call)) ` wire r\<rparr>)"
    using own(2) by (intro leaderCalls_inv) (auto simp: set_node_def)
  then show ?thesis by simp
qed

lemma step_confirm:
  assumes ok: "members_ok M cfg" and inv: "cluster_inv M cfg c" and u: "u \<in> M"
    and b: "confirmLeadership_begin (nodes c u) = Some args"
  shows "cluster_inv M cfg (c\<lparr>leaderCalls :=
      leaderCalls c \<union> (\<lambda>p. (u, p, CallHeartbeat args)) ` set (my_peers (nodes c u))\<rparr>)"
proof (rule leaderCalls_inv[OF inv])
  have own: "config (nodes c u) = cfg u" "state (nodes c u) = Leader \<Longrightarrow> (currentTerm (nodes c u), u) \<in> elected c"
    using inv u by (auto simp: cluster_inv_def members_inv_def member_inv_def)
  fix x p call
  assume "(x, p, call) \<in> (\<lambda>p. (u, p, CallHeartbeat args)) ` set (my_peers (nodes c u))"
  then show "x \<noteq> p \<and> (call_term call, x) \<in> elected c"
    using b ok u own by (auto simp: confirmLeadership_begin_def members_ok_def split: if_splits)
qed

lemma follows_handle_call: "follows n (call_term call) (handle_call n call)"
  by (cases call) (simp_all add: follows_handleAppendEntries follows_handleHeartbeat follows_handleInstallSnapshot)

lemma cluster_inv_step:
  assumes ok: "members_ok M cfg" and inv: "cluster_inv M cfg c" and "cluster_step M c c'"
  shows "cluster_inv M cfg c'"
  using assms(3)
proof cases
  case (timeout u n el)
  then show ?thesis using step_timeout[OF ok inv] by simp
next
  case (vote_request v u args n r)
  then show ?thesis using step_vote_request[OF ok inv] by simp
next
  case (vote_reply u t el v reply n el')
  then show ?thesis using step_vote_reply[OF ok inv] by simp
next
  case (replicate u v n r)
  then show ?thesis using step_replicate[OF ok inv] by simp
next
  case (confirm u args)
  then show ?thesis using step_confirm[OF ok inv] by simp
next
  case (leader_call v u call)
  then have "u \<noteq> v" "(call_term call, u) \<in> elected c"
    using inv by (auto simp: cluster_inv_def elected_inv_def)
  with leader_call show ?thesis
    using set_node_follows[OF inv _ follows_handle_call] by simp
next
  case (replication_answer u v r outcome)
  then show ?thesis using set_node_quiet[OF inv _ quiet_replication_settled] by simp
next
  case (heartbeats_done u)
  then show ?thesis
    using set_node_quiet[OF inv, of u "sendHeartbeats_end (nodes c u)"]
    by (simp add: sendHeartbeats_end_def quiet_updateCommitIndex)
next
  case (client_write u stroke n i)
  then show ?thesis using set_node_quiet[OF inv _ quiet_client_write_begin] by simp
next
  case (write_round u i latency n result)
  then show ?thesis using set_node_quiet[OF inv] quiet_client_write_check by fastforce
next
  case (read_answers u args results)
  then show ?thesis using set_node_quiet[OF inv _ quiet_confirmLeadership_end] by simp
next
  case (sync_request u sargs)
  then show ?thesis using set_node_quiet[OF inv _ quiet_handleSyncLog] by simp
next
  case (sync_answer u sresult)
  then show ?thesis using set_node_quiet[OF inv _ quiet_catch_up_apply] by simp
next
  case (restart u tm m)
  then have "quiet (nodes c u) (new_RaftNode (config (nodes c u)) tm m (store (nodes c u)))"
    using inv by (intro quiet_restart) (auto simp: cluster_inv_def members_inv_def member_inv_def)
  with restart show ?thesis
    using elections_gone_inv[OF set_node_quiet[OF inv], of u _ u] by simp
qed

lemma cluster_inv_init:
  assumes "cluster_init M cfg c"
  shows "cluster_inv M cfg c"
proof -
  have "member_inv (cfg u) (nodes c u) \<and> state (nodes c u) \<noteq> Leader" if u: "u \<in> M" for u
  proof -
    obtain tm m p where n: "nodes c u = new_RaftNode (cfg u) tm m p" and p: "pkind p = FilePersistence"
      using assms u unfolding cluster_init_def by blast
    have "quiet (opened (cfg u) tm m p) (nodes c u)"
      by (simp add: n new_RaftNode_opened quiet_applyCommitted)
    moreover have "member_inv (cfg u) (opened (cfg u) tm m p)"
      using p by (simp add: member_inv_def opened_def vote_saved_def)
    ultimately have "member_inv (cfg u) (nodes c u)" by (rule quiet_member[rotated])
    moreover have "state (nodes c u) = Follower"
      by (simp add: n new_RaftNode_opened) (simp add: opened_def)
    ultimately show ?thesis by simp
  qed
  then show ?thesis
    using assms by (auto simp: cluster_inv_defs cluster_init_def voters_def)
qed

lemma cluster_inv_reachable:
  "members_ok M cfg \<Longrightarrow> cluster_reachable M cfg c \<Longrightarrow> cluster_inv M cfg c"
proof (rotate_tac, induction rule: cluster_reachable.induct)
  case (step c c')
  then show ?case using cluster_inv_step by blast
qed (rule cluster_inv_init)

end
