(* ===== verification/Cluster_Runs.thy ===== *)
theory Cluster_Runs
  imports Cluster
begin

text \<open>
  Executable runs of a cluster: each function below takes the system through one or a few steps of
  \<open>cluster_step\<close>, or leaves it alone when the step is not enabled, so that a concrete run is a
  composition that the simplifier evaluates. The properties of the cluster follow: election
  safety, with an elected leader as its witness, and a run in which two replicas apply different
  entries at one index.
\<close>

section \<open>Steps as functions\<close>

definition do_timeout :: "url \<Rightarrow> cluster \<Rightarrow> cluster" where
  "do_timeout u c =
     (case onElectionTimeout ((nodes c u)\<lparr>timers := fireElectionTimer (timers (nodes c u))\<rparr>) of
        None \<Rightarrow> c
      | Some (n, el) \<Rightarrow> (set_node u n c)
          \<lparr>elections := (elections c)(u := (elections c u)(currentTerm n := Some el)),
           awaited := awaited c \<union> (\<lambda>p. (u, currentTerm n, p)) ` set (my_peers n),
           voteRequests := voteRequests c \<union> (\<lambda>p. (u, p, el_args el)) ` set (my_peers n)\<rparr>)"

definition do_vote_request :: "url \<Rightarrow> url \<Rightarrow> request_vote_args \<Rightarrow> cluster \<Rightarrow> cluster" where
  "do_vote_request u v args c =
     (if (u, v, args) \<notin> voteRequests c then c
      else let (n, r) = handleRequestVote (nodes c v) args
           in (set_node v n c)\<lparr>voteReplies := insert (u, rv_term args, v, r) (voteReplies c)\<rparr>)"

definition do_vote_reply :: "url \<Rightarrow> nat \<Rightarrow> url \<Rightarrow> request_vote_result \<Rightarrow> cluster \<Rightarrow> cluster" where
  "do_vote_reply u t v r c =
     (case elections c u t of
        None \<Rightarrow> c
      | Some el \<Rightarrow>
          if (u, t, v) \<in> awaited c \<and> (u, t, v, r) \<in> voteReplies c
          then let (n, el') = vote_settled (nodes c u) el (Some r)
               in (set_node u n c)\<lparr>elections := (elections c)(u := (elections c u)(t := Some el')),
                                   awaited := awaited c - {(u, t, v)}\<rparr>
          else c)"

text \<open>One voter is asked by the candidate \<open>u\<close> and answers.\<close>
definition do_vote :: "url \<Rightarrow> url \<Rightarrow> cluster \<Rightarrow> cluster" where
  "do_vote u v c =
     (case elections c u (currentTerm (nodes c u)) of
        None \<Rightarrow> c
      | Some el \<Rightarrow>
          do_vote_reply u (currentTerm (nodes c u)) v (snd (handleRequestVote (nodes c v) (el_args el)))
            (do_vote_request u v (el_args el) c))"

definition do_write :: "url \<Rightarrow> stroke \<Rightarrow> cluster \<Rightarrow> cluster" where
  "do_write u stroke c =
     (case client_write_begin (nodes c u) stroke of
        Inl r \<Rightarrow> c
      | Inr (n, i) \<Rightarrow> set_node u n c)"

text \<open>The leader \<open>u\<close> sends to \<open>v\<close>, which handles the call; the answer goes back.\<close>
definition do_send :: "url \<Rightarrow> url \<Rightarrow> cluster \<Rightarrow> cluster" where
  "do_send u v c =
     (if v \<notin> set (my_peers (nodes c u)) then c
      else let (n, r) = driveReplication (nodes c u) v
           in (set_node u n c)\<lparr>leaderCalls := leaderCalls c \<union> (\<lambda>call. (u, v, call)) ` wire r\<rparr>)"

definition do_call :: "url \<Rightarrow> url \<Rightarrow> leader_call \<Rightarrow> cluster \<Rightarrow> cluster" where
  "do_call u v call c =
     (if (u, v, call) \<in> leaderCalls c then set_node v (handle_call (nodes c v) call) c else c)"

definition do_answer :: "url \<Rightarrow> url \<Rightarrow> replication \<Rightarrow> rpc_outcome \<Rightarrow> cluster \<Rightarrow> cluster" where
  "do_answer u v r outcome c = set_node u (replication_settled (nodes c u) v r outcome) c"

definition do_append :: "url \<Rightarrow> url \<Rightarrow> cluster \<Rightarrow> cluster" where
  "do_append u v c =
     (let r = snd (driveReplication (nodes c u) v); c1 = do_send u v c
      in case r of
           SendAppend i args \<Rightarrow>
             do_answer u v r (AppendResult (snd (handleAppendEntries (nodes c1 v) args)))
               (do_call u v (CallAppend args) c1)
         | _ \<Rightarrow> c1)"

text \<open>The leader \<open>u\<close> confirms its leadership, and \<open>v\<close> handles the heartbeat.\<close>
definition do_confirm :: "url \<Rightarrow> url \<Rightarrow> cluster \<Rightarrow> cluster" where
  "do_confirm u v c =
     (case confirmLeadership_begin (nodes c u) of
        None \<Rightarrow> c
      | Some args \<Rightarrow>
          do_call u v (CallHeartbeat args)
            (c\<lparr>leaderCalls := leaderCalls c \<union> (\<lambda>p. (u, p, CallHeartbeat args)) ` set (my_peers (nodes c u))\<rparr>))"

definition do_commit :: "url \<Rightarrow> cluster \<Rightarrow> cluster" where
  "do_commit u c = set_node u (sendHeartbeats_end (nodes c u)) c"


lemma do_timeout_step:
  assumes "cluster_reachable M cfg c" and "u \<in> M"
  shows "cluster_reachable M cfg (do_timeout u c)"
proof (cases "onElectionTimeout ((nodes c u)\<lparr>timers := fireElectionTimer (timers (nodes c u))\<rparr>)")
  case None
  then show ?thesis using assms(1) by (simp add: do_timeout_def)
next
  case (Some x)
  obtain n el where x: "x = (n, el)" by (cases x)
  then show ?thesis
    using cluster_reachable.step[OF assms(1) cluster_step.timeout[OF assms(2), of c n el]] Some x
    by (simp add: do_timeout_def)
qed

lemma do_vote_request_step:
  "cluster_reachable M cfg c \<Longrightarrow> v \<in> M \<Longrightarrow> cluster_reachable M cfg (do_vote_request u v args c)"
  using cluster_reachable.step[OF _ cluster_step.vote_request[of v M u args c]]
  by (auto simp: do_vote_request_def split: prod.split)

lemma do_vote_reply_step:
  assumes "cluster_reachable M cfg c" and "u \<in> M"
  shows "cluster_reachable M cfg (do_vote_reply u t v r c)"
  using assms cluster_reachable.step[OF _ cluster_step.vote_reply[of u M c t _ v "Some r"]]
  by (auto simp: do_vote_reply_def split: prod.split option.split)

lemma do_vote_step:
  "cluster_reachable M cfg c \<Longrightarrow> u \<in> M \<Longrightarrow> v \<in> M \<Longrightarrow> cluster_reachable M cfg (do_vote u v c)"
  by (auto simp: do_vote_def do_vote_reply_step do_vote_request_step split: option.split)

lemma do_write_step:
  "cluster_reachable M cfg c \<Longrightarrow> u \<in> M \<Longrightarrow> cluster_reachable M cfg (do_write u stroke c)"
  using cluster_reachable.step[OF _ cluster_step.client_write[of u M c stroke]]
  by (auto simp: do_write_def split: sum.split prod.split)

lemma do_send_step:
  "cluster_reachable M cfg c \<Longrightarrow> u \<in> M \<Longrightarrow> cluster_reachable M cfg (do_send u v c)"
  using cluster_reachable.step[OF _ cluster_step.replicate[of u M v c]]
  by (auto simp: do_send_def split: prod.split)

lemma do_call_step:
  "cluster_reachable M cfg c \<Longrightarrow> v \<in> M \<Longrightarrow> cluster_reachable M cfg (do_call u v call c)"
  using cluster_reachable.step[OF _ cluster_step.leader_call[of v M u call c]]
  by (auto simp: do_call_def)

lemma do_answer_step:
  "cluster_reachable M cfg c \<Longrightarrow> u \<in> M \<Longrightarrow> cluster_reachable M cfg (do_answer u v r outcome c)"
  unfolding do_answer_def by (rule cluster_reachable.step[OF _ cluster_step.replication_answer])

lemma do_append_step:
  "cluster_reachable M cfg c \<Longrightarrow> u \<in> M \<Longrightarrow> v \<in> M \<Longrightarrow> cluster_reachable M cfg (do_append u v c)"
  by (auto simp: do_append_def Let_def do_answer_step do_call_step do_send_step split: replication.split)

lemma do_confirm_step:
  assumes "cluster_reachable M cfg c" and "u \<in> M" and "v \<in> M"
  shows "cluster_reachable M cfg (do_confirm u v c)"
proof (cases "confirmLeadership_begin (nodes c u)")
  case None
  then show ?thesis using assms(1) by (simp add: do_confirm_def)
next
  case (Some args)
  then show ?thesis
    using do_call_step[OF cluster_reachable.step[OF assms(1) cluster_step.confirm[OF assms(2) Some]] assms(3)] Some
    by (simp add: do_confirm_def)
qed

lemma do_commit_step:
  "cluster_reachable M cfg c \<Longrightarrow> u \<in> M \<Longrightarrow> cluster_reachable M cfg (do_commit u c)"
  unfolding do_commit_def by (rule cluster_reachable.step[OF _ cluster_step.heartbeats_done])

lemmas run_steps = do_timeout_step do_vote_step do_write_step do_append_step do_confirm_step do_commit_step

section \<open>A cluster of three\<close>

definition three :: "url set" where
  "three = {''a'', ''b'', ''c''}"

definition three_cfg :: "url \<Rightarrow> node_config" where
  "three_cfg u = \<lparr>replicaId = ''replica-'' @ u, peers = filter (\<lambda>p. p \<noteq> u) [''a'', ''b'', ''c''],
     selfUrl = u, snapshotThreshold = snapshotThresholdEntries, batchCap = appendEntriesBatchCap\<rparr>"

definition three_node :: "url \<Rightarrow> raft_node" where
  "three_node u = new_RaftNode (three_cfg u) (new_timers None (\<lambda>i. 0)) new_metrics
     \<lparr>pkind = FilePersistence, disk = empty_disk, calls = []\<rparr>"

definition three_init :: cluster where
  "three_init = \<lparr>nodes = three_node,
     elections = (\<lambda>u t. None), awaited = {}, voteRequests = {}, voteReplies = {}, leaderCalls = {}, elected = {}, caughtUp = False\<rparr>"

lemma three_ok: "members_ok three three_cfg"
  by (auto simp: members_ok_def three_def three_cfg_def inj_on_def)

lemma three_members [simp]: "''a'' \<in> three" "''b'' \<in> three" "''c'' \<in> three"
  by (simp_all add: three_def)

lemma three_init_ok: "cluster_init three three_cfg three_init"
proof -
  let ?p = "\<lparr>pkind = FilePersistence, disk = empty_disk, calls = []\<rparr>"
  have "pkind ?p = FilePersistence" "disk ?p = empty_disk" by simp_all
  then have "\<exists>tm m p. pkind p = FilePersistence \<and> disk p = empty_disk \<and>
      nodes three_init u = new_RaftNode (three_cfg u) tm m p" for u
    unfolding three_init_def three_node_def cluster.simps by blast
  then show ?thesis
    by (simp add: cluster_init_def) (simp add: three_init_def)
qed

lemma three_reachable: "cluster_reachable three three_cfg three_init"
  by (rule cluster_reachable.init[OF three_init_ok])

text \<open>\<open>a\<close> times out and is elected with the vote of \<open>b\<close>.\<close>
definition run_elected :: cluster where
  "run_elected = do_vote ''a'' ''b'' (do_timeout ''a'' three_init)"

lemma reachable_elected: "cluster_reachable three three_cfg run_elected"
  unfolding run_elected_def by (intro run_steps three_reachable) simp_all

lemma elected_a: "(1, ''a'') \<in> elected run_elected"
  by code_simp

section \<open>Properties of the cluster\<close>

text \<open>C1: Election safety. Whatever messages are lost, delayed, reordered or handled twice, whichever
  members crash and restart on their disks, and whatever the other calls answer, a term in which
  \<open>u\<close> was a leader has no other leader, then or now.\<close>
theorem election_safety:
  assumes "members_ok M cfg" and "cluster_reachable M cfg c" and "(t, u) \<in> elected c"
  shows "{w. (t, w) \<in> elected c} = {u} \<and>
    {w \<in> M. state (nodes c w) = Leader \<and> currentTerm (nodes c w) = t} \<subseteq> {u}"
proof -
  have inv: "cluster_inv M cfg c" using assms(1,2) by (rule cluster_inv_reachable)
  have one: "w = u" if "(t, w) \<in> elected c" for w
    using one_leader[OF inv that assms(3)] .
  moreover have "(t, w) \<in> elected c" if "w \<in> M" "state (nodes c w) = Leader" "currentTerm (nodes c w) = t" for w
    using inv that by (auto simp: cluster_inv_def members_inv_def)
  ultimately show ?thesis using assms(3) by blast
qed

theorem election_safety_witness: "{w. (1, w) \<in> elected run_elected} = {''a''}"
  using election_safety[OF three_ok reachable_elected elected_a] by simp

text \<open>A vote that a member has answered is on its disk: the disk's term is at least the
  vote's, and while it is that term the disk names the candidate. So no restart gives the vote away again.\<close>
theorem votes_are_durable:
  assumes "members_ok M cfg" and "cluster_reachable M cfg c"
    and "(u, t, v, r) \<in> voteReplies c" and "rvr_voteGranted r"
  shows "v \<in> M \<and> t \<le> ps_currentTerm (loadState (store (nodes c v))) \<and>
    (ps_currentTerm (loadState (store (nodes c v))) = t \<longrightarrow>
       ps_votedFor (loadState (store (nodes c v))) = Some (replicaId (cfg u)))"
proof -
  have inv: "cluster_inv M cfg c" using assms(1,2) by (rule cluster_inv_reachable)
  have "v \<in> voters c u t" using assms(3,4) by (auto simp: voters_def)
  note v = voterD[OF inv this]
  have "member_inv (cfg v) (nodes c v)"
    using inv v(2) by (simp add: cluster_inv_def members_inv_def)
  with v(2,5) show ?thesis
    by (simp add: member_inv_def vote_saved_def committed_to_def)
qed

text \<open>The reply of \<open>b\<close> in the run above.\<close>
lemma b_replied:
  "(''a'', 1, ''b'', \<lparr>rvr_term = 1, rvr_voteGranted = True, rvr_responderId = ''replica-b''\<rparr>) \<in> voteReplies run_elected"
  by code_simp

theorem votes_are_durable_witness:
  "''b'' \<in> three \<and> 1 \<le> ps_currentTerm (loadState (store (nodes run_elected ''b'')))"
  using votes_are_durable[OF three_ok reachable_elected b_replied] by simp

section \<open>Two replicas that disagree\<close>

definition stroke_of :: "string \<Rightarrow> stroke" where
  "stroke_of sid = \<lparr>strokeId = sid, boardId = ''board'', userId = ''u'', color = ''red'', width = json_width (whole 3),
     points = json_points [(whole 0, whole 0)], timestamp = whole 0, action = None, targetStrokeId = None\<rparr>"

text \<open>
  \<open>a\<close> leads term 1 and appends a stroke it replicates to nobody; \<open>b\<close> leads term 2 with the vote
  of \<open>c\<close>, replicates another stroke to \<open>c\<close> and commits it; then \<open>b\<close> confirms its leadership
  with a heartbeat to \<open>a\<close>.
\<close>
definition run_conflict :: cluster where
  "run_conflict = do_write ''b'' (stroke_of ''y'') (do_vote ''b'' ''c'' (do_timeout ''b''
     (do_write ''a'' (stroke_of ''x'') run_elected)))"

definition run_split :: cluster where
  "run_split = do_confirm ''b'' ''a'' (do_commit ''b'' (do_append ''b'' ''c'' run_conflict))"

lemma reachable_split: "cluster_reachable three three_cfg run_split"
  unfolding run_split_def run_conflict_def by (intro run_steps reachable_elected) simp_all

text \<open>What a run shows of a node.\<close>
definition observe :: "raft_node \<Rightarrow> nat \<times> log_entry list \<times> nat \<times> stroke list" where
  "observe n = (lastIncludedIndex (raftLog n), entries (raftLog n), commitIndex n, getStrokes (boards n) ''board'')"

lemma split_a: "observe (nodes run_split ''a'') =
    (0, [\<lparr>e_index = 1, e_term = 1, e_stroke = stroke_of ''x''\<rparr>], 1, [stroke_of ''x''])"
  by code_simp

lemma split_b: "observe (nodes run_split ''b'') =
    (0, [\<lparr>e_index = 1, e_term = 2, e_stroke = stroke_of ''y''\<rparr>], 1, [stroke_of ''y''])"
  by code_simp

text \<open>C33: The heartbeat handler breaks the agreement of the replicas. It takes over the leader's
  commit index without comparing logs, so a follower with a conflicting entry commits and applies
  it: in a run of three replicas two of them hold different committed entries at index 1 and show
  different boards.\<close>
theorem heartbeat_commits_conflicting_entry:
  "cluster_reachable three three_cfg run_split \<and>
   commitIndex (nodes run_split ''a'') = 1 \<and> commitIndex (nodes run_split ''b'') = 1 \<and>
   getEntry (raftLog (nodes run_split ''a'')) 1 =
     Some \<lparr>e_index = 1, e_term = 1, e_stroke = stroke_of ''x''\<rparr> \<and>
   getEntry (raftLog (nodes run_split ''b'')) 1 =
     Some \<lparr>e_index = 1, e_term = 2, e_stroke = stroke_of ''y''\<rparr> \<and>
   getStrokes (boards (nodes run_split ''a'')) ''board'' = [stroke_of ''x''] \<and>
   getStrokes (boards (nodes run_split ''b'')) ''board'' = [stroke_of ''y'']"
  using reachable_split split_a split_b by (simp add: observe_def getEntry_def js_at_def)

end
