(* ===== verification/Cluster_Failures.thy ===== *)
theory Cluster_Failures
  imports Cluster_Runs
begin

text \<open>
  Runs of the cluster of three in which leaders change: what becomes of a client write that waits
  while its leader is deposed and elected again, and of a read after the leader that acknowledged a
  write is gone. Every run is built from steps of the cluster and evaluated.
\<close>

section \<open>More steps as functions\<close>

text \<open>The end of a round of a client write at \<open>u\<close>, which may answer the client.\<close>
definition do_check :: "url \<Rightarrow> nat \<Rightarrow> cluster \<Rightarrow> cluster" where
  "do_check u i c =
     (case client_write_check (nodes c u) i 0 of
        None \<Rightarrow> c
      | Some (n, r) \<Rightarrow> set_node u n c)"

text \<open>What that round answers, if it is the last.\<close>
definition acknowledged :: "cluster \<Rightarrow> url \<Rightarrow> nat \<Rightarrow> bool option" where
  "acknowledged c u i = map_option (cw_success \<circ> snd) (client_write_check (nodes c u) i 0)"

text \<open>The call of \<open>u\<close> that is in flight to \<open>v\<close> fails.\<close>
definition do_fail :: "url \<Rightarrow> url \<Rightarrow> cluster \<Rightarrow> cluster" where
  "do_fail u v c = do_answer u v NoSend RpcFailed c"

lemma do_check_step:
  "cluster_reachable M cfg c \<Longrightarrow> u \<in> M \<Longrightarrow> cluster_reachable M cfg (do_check u i c)"
  using cluster_reachable.step[OF _ cluster_step.write_round[of u M c i 0]]
  by (auto simp: do_check_def split: option.split prod.split)

lemma do_fail_step:
  "cluster_reachable M cfg c \<Longrightarrow> u \<in> M \<Longrightarrow> cluster_reachable M cfg (do_fail u v c)"
  unfolding do_fail_def by (rule do_answer_step)

lemmas failure_steps = run_steps do_send_step do_check_step do_fail_step

section \<open>A write that outlives its leadership\<close>

text \<open>
  \<open>a\<close>, the leader of term 1, appends the stroke \<open>x\<close> for a client and sends it to \<open>b\<close> and \<open>c\<close>; the
  calls hang. Meanwhile \<open>b\<close> is elected by \<open>c\<close> for term 2, takes the stroke \<open>y\<close> and replicates it to
  \<open>a\<close>, which drops \<open>x\<close>; then \<open>a\<close> is elected by \<open>b\<close> for term 3, and only now its two calls time out.
  There is time enough: a call times out after two seconds, an election timer after less than one.
\<close>
definition run_waiting :: cluster where
  "run_waiting = do_send ''a'' ''c'' (do_send ''a'' ''b'' (do_write ''a'' (stroke_of ''x'') run_elected))"

definition run_deposed :: cluster where
  "run_deposed = do_append ''b'' ''a'' (do_write ''b'' (stroke_of ''y'') (do_vote ''b'' ''c'' (do_timeout ''b'' run_waiting)))"

definition run_reelected :: cluster where
  "run_reelected = do_fail ''a'' ''c'' (do_fail ''a'' ''b'' (do_vote ''a'' ''b'' (do_timeout ''a'' run_deposed)))"

text \<open>The second round of the write reaches \<open>b\<close>, with the log of \<open>a\<close> as it is now.\<close>
definition run_second_round :: cluster where
  "run_second_round = do_append ''a'' ''b'' run_reelected"

lemma reachable_second_round: "cluster_reachable three three_cfg run_second_round"
  unfolding run_second_round_def run_reelected_def run_deposed_def run_waiting_def
  by (intro failure_steps reachable_elected) simp_all

definition holds_stroke :: "cluster \<Rightarrow> url \<Rightarrow> string \<Rightarrow> bool" where
  "holds_stroke c u sid \<longleftrightarrow> list_ex (\<lambda>e. strokeId (e_stroke e) = sid) (entries (raftLog (nodes c u)))"

lemma waiting_facts: "holds_stroke run_waiting ''a'' ''x''"
  by code_simp

lemma do_append_nodes:
  assumes "v \<in> set (my_peers (nodes c u))" and "u \<noteq> v" and "v \<notin> replicating (nodes c u)"
    and "replicateOnce (nodes c u) v = SendAppend i args"
  shows "nodes (do_append u v c) = (nodes c)
    (v := fst (handleAppendEntries (nodes c v) args),
     u := replication_settled ((nodes c u)\<lparr>replicating := insert v (replicating (nodes c u))\<rparr>) v (SendAppend i args)
       (AppendResult (snd (handleAppendEntries (nodes c v) args))))"
  using assms by (simp add: do_append_def do_send_def do_call_def do_answer_def set_node_def driveReplication_def Let_def)

lemma empty_append:
  assumes "currentTerm f \<le> ae_term args" and "ae_entries args = []" and "ae_leaderCommit args = 0"
    and "log_consistent (raftLog f) args"
  shows "entries (raftLog (fst (handleAppendEntries f args))) = entries (raftLog f)"
    and "aer_success (snd (handleAppendEntries f args))" and "aer_term (snd (handleAppendEntries f args)) = ae_term args"
  using assms by (simp_all add: handleAppendEntries_def follow_commit_def append_reply_def log_consistent_def
      currentTerm_accept_leader Let_def)

text \<open>What the leader \<open>a\<close> sends to \<open>b\<close>: nothing, from an index that \<open>b\<close> has.\<close>
lemma reelected_facts:
  "let c = run_reelected; a = nodes c ''a''; b = nodes c ''b'' in
   acknowledged c ''a'' 1 = None \<and> \<not> holds_stroke c ''a'' ''x'' \<and> \<not> holds_stroke c ''b'' ''x'' \<and> \<not> holds_stroke c ''c'' ''x'' \<and>
   state a = Leader \<and> ''b'' \<notin> replicating a \<and> my_peers a = [''b'', ''c''] \<and> currentTerm b \<le> currentTerm a \<and>
   (case replicateOnce a ''b'' of
      SendAppend i args \<Rightarrow> ae_entries args = [] \<and> ae_leaderCommit args = 0 \<and> ae_prevLogIndex args = 1 \<and>
        ae_term args = currentTerm a \<and> log_consistent (raftLog b) args
    | _ \<Rightarrow> False)"
  by code_simp

lemma second_round_facts:
  "acknowledged run_second_round ''a'' 1 = Some True \<and> \<not> holds_stroke run_second_round ''a'' ''x'' \<and>
   \<not> holds_stroke run_second_round ''b'' ''x'' \<and> \<not> holds_stroke run_second_round ''c'' ''x''"
proof -
  define c where "c = run_reelected"
  define a where "a = nodes c ''a''"
  define b where "b = nodes c ''b''"
  note facts = reelected_facts[folded c_def, unfolded Let_def, folded a_def b_def]
  obtain i args where sent: "replicateOnce a ''b'' = SendAppend i args"
    and args: "ae_entries args = []" "ae_leaderCommit args = 0" "ae_prevLogIndex args = 1"
      "ae_term args = currentTerm a" "log_consistent (raftLog b) args"
    using facts by (cases "replicateOnce a ''b''") auto
  have "currentTerm b \<le> ae_term args" using facts args(4) by simp
  note r = empty_append[OF this args(1,2,5)]
  have n: "nodes run_second_round = (nodes c)(''b'' := fst (handleAppendEntries b args),
      ''a'' := replication_settled (a\<lparr>replicating := insert ''b'' (replicating a)\<rparr>) ''b'' (SendAppend i args)
        (AppendResult (snd (handleAppendEntries b args))))"
    unfolding run_second_round_def c_def[symmetric] a_def b_def
    by (rule do_append_nodes) (use facts sent in \<open>simp_all add: a_def\<close>)
  define a' where "a' = nodes run_second_round ''a''"
  have a': "entries (raftLog a') = entries (raftLog a)" "state a' = Leader" "my_peers a' = [''b'', ''c'']"
    "1 \<le> nullish (matchIndex a' ''b'') 0"
    using facts r args by (simp_all add: a'_def n replication_settled_def appendEntries_settled_def)
  then have "my_majority a' \<le> replicatedCount a' 1" by (simp add: replicatedCount_def majority_def)
  with a'(2) have "acknowledged run_second_round ''a'' 1 = Some True"
    by (simp add: acknowledged_def a'_def[symmetric] client_write_check_def Let_def)
  moreover have "\<not> holds_stroke run_second_round ''a'' ''x''"
    using facts a'(1) by (simp add: holds_stroke_def a'_def[symmetric]) (simp add: a_def)
  moreover have "\<not> holds_stroke run_second_round ''b'' ''x''" "\<not> holds_stroke run_second_round ''c'' ''x''"
    using facts r(1) by (simp_all add: holds_stroke_def n b_def)
  ultimately show ?thesis by blast
qed

text \<open>C31: A write can be acknowledged although it is lost. The check at the end of a round asks only
  whether the node is a leader and whether a majority has reached the entry's index, not
  whether it leads the same term and the entry is still there. So in a run of three replicas a
  client is told that its stroke is written when no replica has it in its log.\<close>
theorem lost_write_is_acknowledged:
  "cluster_reachable three three_cfg run_second_round \<and> holds_stroke run_waiting ''a'' ''x'' \<and>
   acknowledged run_reelected ''a'' 1 = None \<and> acknowledged run_second_round ''a'' 1 = Some True \<and>
   \<not> holds_stroke run_second_round ''a'' ''x'' \<and> \<not> holds_stroke run_second_round ''b'' ''x'' \<and>
   \<not> holds_stroke run_second_round ''c'' ''x''"
  using reachable_second_round waiting_facts reelected_facts second_round_facts by (simp add: Let_def)

section \<open>A read after the leader is gone\<close>

text \<open>A leader without an entry of its own term commits nothing, whatever its peers hold.\<close>
lemma nothing_to_commit:
  assumes "\<forall>e\<in>set (entries (raftLog n)). e_term e \<noteq> currentTerm n"
  shows "updateCommitIndex n = n"
proof -
  have "find_commit n k = None" for k
  proof (induction k)
    case (Suc k)
    have "e_term e \<noteq> currentTerm n" if "getEntry (raftLog n) (Suc k) = Some e" for e
      using assms that by (auto simp: getEntry_def dest: js_at_mem split: if_splits)
    with Suc show ?case by (auto simp: Let_def split: option.split)
  qed simp
  then show ?thesis by (simp add: updateCommitIndex_def)
qed

text \<open>\<open>a\<close> writes \<open>x\<close> with the help of \<open>b\<close> and acknowledges it.\<close>
definition run_replicated :: cluster where
  "run_replicated = do_append ''a'' ''b'' (do_write ''a'' (stroke_of ''x'') run_elected)"

definition run_acknowledged :: cluster where
  "run_acknowledged = do_check ''a'' 1 run_replicated"

text \<open>Then \<open>b\<close> is elected by \<open>c\<close>.\<close>
definition run_failover :: cluster where
  "run_failover = do_vote ''b'' ''c'' (do_timeout ''b'' run_acknowledged)"

lemma reachable_failover: "cluster_reachable three three_cfg run_failover"
  unfolding run_failover_def run_acknowledged_def run_replicated_def
  by (intro failure_steps reachable_elected) simp_all

text \<open>A read at \<open>u\<close> to which only \<open>v\<close> answers, and while it waits \<open>u\<close> handles nothing else.\<close>
definition read_at :: "cluster \<Rightarrow> url \<Rightarrow> url \<Rightarrow> read_board_state_result" where
  "read_at c u v = snd (readBoardState (nodes c u) ''board'' (\<lambda>n. n)
     (\<lambda>p args. if p = v then Some (snd (handleHeartbeat (nodes c v) args)) else None))"

lemma acknowledged_facts:
  "acknowledged run_replicated ''a'' 1 = Some True \<and>
   getStrokes (boards (nodes run_acknowledged ''a'')) ''board'' = [stroke_of ''x'']"
  by code_simp

lemma failover_facts:
  "let c = run_failover; b = nodes c ''b'' in
   state b = Leader \<and> currentTerm b = 2 \<and> commitIndex b = 0 \<and>
   entries (raftLog b) = [\<lparr>e_index = 1, e_term = 1, e_stroke = stroke_of ''x''\<rparr>] \<and>
   read_at c ''b'' ''c'' = \<lparr>rb_success = True, rb_strokes = Some [], rb_leaderHint = None\<rparr>"
  by code_simp

text \<open>C32: A confirmed read can miss an acknowledged write for as long as nobody writes. After \<open>a\<close> has
  acknowledged the stroke \<open>x\<close> and is gone, the new leader \<open>b\<close> holds the stroke; its leadership is
  confirmed by \<open>c\<close>, and its read shows an empty board. As the stroke is of an earlier term,
  \<open>b\<close> does not commit it either, whatever its peers come to hold.\<close>
theorem confirmed_read_misses_write:
  "cluster_reachable three three_cfg run_failover \<and>
   acknowledged run_replicated ''a'' 1 = Some True \<and>
   getStrokes (boards (nodes run_acknowledged ''a'')) ''board'' = [stroke_of ''x''] \<and>
   map e_stroke (entries (raftLog (nodes run_failover ''b''))) = [stroke_of ''x''] \<and>
   read_at run_failover ''b'' ''c'' = \<lparr>rb_success = True, rb_strokes = Some [], rb_leaderHint = None\<rparr> \<and>
   (\<forall>held. commitIndex (updateCommitIndex ((nodes run_failover ''b'')\<lparr>matchIndex := held\<rparr>)) = 0)"
proof -
  note f = failover_facts[unfolded Let_def]
  have "updateCommitIndex ((nodes run_failover ''b'')\<lparr>matchIndex := held\<rparr>) = (nodes run_failover ''b'')\<lparr>matchIndex := held\<rparr>" for held
    by (rule nothing_to_commit) (use f in simp)
  then show ?thesis using reachable_failover acknowledged_facts f by simp
qed

end
