(* ===== verification/Log_Matching.thy ===== *)
theory Log_Matching
  imports Cluster_Runs Replica_Machine
begin

text \<open>
  Log matching: if the logs of two members hold entries of the same term at one index, they are the
  same up to that index. It holds in the runs of \<open>Cluster\<close> in which the members get their entries
  from AppendEntries only, up to the first snapshot (\<open>plain_run\<close>): a catch-up answer is merged without
  a check of what comes before it, and so are the entries above a snapshot. The invariant speaks
  of the set of all logs that members ever had (\<open>histories\<close>), so that a message in flight is a piece
  of one of them.
\<close>

section \<open>Lists of entries\<close>

definition matches :: "log_entry list \<Rightarrow> log_entry list \<Rightarrow> bool" where
  "matches xs ys \<longleftrightarrow> (\<forall>i. i < length xs \<longrightarrow> i < length ys \<longrightarrow> e_term (xs ! i) = e_term (ys ! i) \<longrightarrow>
     take (Suc i) xs = take (Suc i) ys)"

lemma matches_refl [simp]: "matches xs xs"
  by (simp add: matches_def)

lemma matches_sym: "matches xs ys \<Longrightarrow> matches ys xs"
  by (simp add: matches_def)

lemma matches_take:
  assumes "matches xs ys"
  shows "matches (take q xs) ys"
  unfolding matches_def
proof (intro allI impI)
  fix i
  assume i: "i < length (take q xs)" "i < length ys" "e_term (take q xs ! i) = e_term (ys ! i)"
  then have "take (Suc i) xs = take (Suc i) ys" using assms by (simp add: matches_def)
  moreover have "Suc i \<le> q" using i(1) by simp
  ultimately show "take (Suc i) (take q xs) = take (Suc i) ys" by (simp add: min_absorb1)
qed

text \<open>An entry of a term that the other list has only at places the list has too.\<close>
lemma matches_snoc:
  assumes "matches xs ys" and fresh: "\<And>i. i < length ys \<Longrightarrow> e_term (ys ! i) = e_term e \<Longrightarrow> i < length xs"
  shows "matches (xs @ [e]) ys"
  unfolding matches_def
proof (intro allI impI)
  fix i
  assume i: "i < length (xs @ [e])" "i < length ys" "e_term ((xs @ [e]) ! i) = e_term (ys ! i)"
  have "i < length xs"
  proof (rule ccontr)
    assume "\<not> i < length xs"
    then have "i = length xs" using i(1) by simp
    then show False using i fresh[of i] by (simp add: nth_append)
  qed
  then show "take (Suc i) (xs @ [e]) = take (Suc i) ys"
    using i assms(1) by (simp add: matches_def nth_append)
qed

lemma matches_prefix:
  assumes "matches xs ys" and "n = 0 \<or> (n \<le> length xs \<and> n \<le> length ys \<and> e_term (xs ! (n - 1)) = e_term (ys ! (n - 1)))"
  shows "take n xs = take n ys"
  using assms by (cases n) (auto simp: matches_def)

definition indexed :: "log_entry list \<Rightarrow> bool" where
  "indexed xs \<longleftrightarrow> (\<forall>i < length xs. e_index (xs ! i) = Suc i)"

lemma indexed_take: "indexed xs \<Longrightarrow> indexed (take q xs)"
  by (simp add: indexed_def)

section \<open>Logs without a snapshot\<close>

lemma getEntry_plain: "lastIncludedIndex l = 0 \<Longrightarrow> getEntry l i = (if i = 0 then None else js_at (entries l) (i - 1))"
  by (simp add: getEntry_def)

lemma plain_log_eqI:
  assumes "lastIncludedIndex l = 0" and "lastIncludedIndex l' = 0" and "\<And>i. 0 < i \<Longrightarrow> getEntry l' i = getEntry l i"
  shows "entries l' = entries l"
proof -
  have same: "js_at (entries l') k = js_at (entries l) k" for k
    using assms(3)[of "Suc k"] assms(1,2) by (simp add: getEntry_plain)
  have "length (entries l') = length (entries l)"
    using same by (metis js_at_None_iff le_antisym order_refl)
  then show ?thesis
    using same by (intro nth_equalityI) (simp, metis js_at_Some_iff)
qed

lemma place_plain:
  assumes "lastIncludedIndex l = 0" and "e_index e = Suc j" and "j \<le> length (entries l)"
  shows "lastIncludedIndex (place l e) = 0"
    and "j < length (entries l) \<Longrightarrow> e_term (entries l ! j) = e_term e \<Longrightarrow> place l e = l"
    and "j < length (entries l) \<Longrightarrow> e_term (entries l ! j) \<noteq> e_term e \<Longrightarrow> entries (place l e) = take j (entries l) @ [e]"
    and "j = length (entries l) \<Longrightarrow> entries (place l e) = entries l @ [e]"
  using assms by (auto simp: place_entry_def getEntry_plain Let_def log_append_def truncateFrom_def getLastIndex_def js_at_def
      split: option.split)

text \<open>
  The loop of \<open>handleAppendEntries\<close> over a piece of \<open>Z\<close> that starts where the log agrees with
  \<open>Z\<close>: it leaves the log as it is, or makes it a prefix of \<open>Z\<close> that goes beyond what the two
  had in common.
\<close>
definition merged_with :: "log_entry list \<Rightarrow> raft_log \<Rightarrow> raft_log \<Rightarrow> bool" where
  "merged_with Z l l' \<longleftrightarrow> lastIncludedIndex l' = 0 \<and> (entries l' = entries l \<or>
     (\<exists>q \<le> length Z. entries l' = take q Z \<and>
        (\<forall>m \<le> length (entries l). take m (entries l) = take m Z \<longrightarrow> m < q)))"

lemma merged_with_place:
  assumes "merged_with Z l1 l'" and "entries l1 = take (Suc j) Z" and "j < length Z"
    and common: "\<And>m. m \<le> length (entries l) \<Longrightarrow> take m (entries l) = take m Z \<Longrightarrow> m \<le> j"
  shows "merged_with Z l l'"
proof -
  consider (same) "entries l' = take (Suc j) Z" | (more) q where "q \<le> length Z" "entries l' = take q Z" "Suc j < q"
    using assms(1-3) by (auto simp: merged_with_def)
  then show ?thesis
  proof cases
    case same
    then show ?thesis
      using assms(1,3) common unfolding merged_with_def by (meson Suc_leI le_imp_less_Suc)
  next
    case more
    then show ?thesis
      using assms(1) common unfolding merged_with_def by (meson le_imp_less_Suc less_trans)
  qed
qed

lemma ae_loop_plain:
  assumes "lastIncludedIndex l = 0" and "matches (entries l) Z" and "take j (entries l) = take j Z"
    and "j \<le> length (entries l)" and "es = take k (drop j Z)" and "indexed Z"
  shows "merged_with Z l (case ae_loop 0 commit es l of Inl l' \<Rightarrow> l' | Inr l' \<Rightarrow> l')"
  using assms
proof (induction es arbitrary: l j k)
  case Nil
  then show ?case by (simp add: merged_with_def)
next
  case (Cons e es)
  have j: "j < length Z" using Cons.prems(5) by (cases "j < length Z") simp_all
  have e: "e = Z ! j" and es: "es = take (k - 1) (drop (Suc j) Z)"
    using Cons.prems(5) j by (cases k; simp add: Cons_nth_drop_Suc[symmetric])+
  have idx: "e_index e = Suc j" using e j Cons.prems(6) by (simp add: indexed_def)
  note place = place_plain[OF Cons.prems(1) idx Cons.prems(4)]
  have entry: "getEntry l (Suc j) = js_at (entries l) j" using Cons.prems(1) by (simp add: getEntry_plain)
  consider (same) "j < length (entries l)" "e_term (entries l ! j) = e_term e"
    | (conflict) "j < length (entries l)" "e_term (entries l ! j) \<noteq> e_term e"
    | (absent) "j = length (entries l)"
    using Cons.prems(4) by linarith
  then show ?case
  proof cases
    case same
    then have "take (Suc j) (entries l) = take (Suc j) Z"
      using Cons.prems(2) e j by (simp add: matches_def)
    from Cons.IH[OF Cons.prems(1,2) this _ es Cons.prems(6)] same show ?thesis
      using idx entry by (simp add: place(2) js_at_def)
  next
    case conflict
    have pl: "entries (place l e) = take (Suc j) Z"
      using place(3)[OF conflict] Cons.prems(3) e j by (simp add: take_Suc_conv_app_nth)
    have "merged_with Z (place l e) (case ae_loop 0 commit es (place l e) of Inl l' \<Rightarrow> l' | Inr l' \<Rightarrow> l')"
      by (rule Cons.IH[OF place(1) _ _ _ es Cons.prems(6)]) (use j in \<open>simp_all add: pl matches_take\<close>)
    moreover have "m \<le> j" if "take m (entries l) = take m Z" for m
      using that conflict e by (metis not_le nth_take)
    ultimately have "merged_with Z l (case ae_loop 0 commit es (place l e) of Inl l' \<Rightarrow> l' | Inr l' \<Rightarrow> l')"
      using pl j by (blast intro: merged_with_place)
    then show ?thesis
      using idx entry conflict Cons.prems(1) by (auto simp: merged_with_def js_at_def)
  next
    case absent
    have pl: "entries (place l e) = take (Suc j) Z"
      using place(4)[OF absent] Cons.prems(3) e j absent by (simp add: take_Suc_conv_app_nth)
    have "merged_with Z (place l e) (case ae_loop 0 commit es (place l e) of Inl l' \<Rightarrow> l' | Inr l' \<Rightarrow> l')"
      by (rule Cons.IH[OF place(1) _ _ _ es Cons.prems(6)]) (use j in \<open>simp_all add: pl matches_take\<close>)
    then have "merged_with Z l (case ae_loop 0 commit es (place l e) of Inl l' \<Rightarrow> l' | Inr l' \<Rightarrow> l')"
      using pl j absent by (blast intro: merged_with_place)
    then show ?thesis
      using idx entry absent by (simp add: js_at_def)
  qed
qed

section \<open>Operations that leave the log alone\<close>

text \<open>The log, unless a snapshot was taken.\<close>
definition log_stays :: "raft_node \<Rightarrow> raft_node \<Rightarrow> bool" where
  "log_stays n n' \<longleftrightarrow> (lastIncludedIndex (raftLog n) = 0 \<longrightarrow> lastIncludedIndex (raftLog n') = 0 \<longrightarrow>
     entries (raftLog n') = entries (raftLog n))"

lemma log_stays_same: "entries (raftLog n') = entries (raftLog n) \<Longrightarrow> log_stays n n'"
  by (simp add: log_stays_def)

lemma log_stays_follow_commit:
  assumes "node_inv n"
  shows "log_stays n (follow_commit n c)"
proof -
  have "lastIncludedIndex (raftLog n) \<le> commitIndex n" "commitIndex n \<le> getLastIndex (raftLog n)"
    using assms by (auto simp: node_inv_def log_inv_def)
  from follow_commit_log(3)[OF this] show ?thesis
    unfolding log_stays_def by (intro impI plain_log_eqI) simp_all
qed

lemma log_stays_updateCommitIndex: "node_inv n \<Longrightarrow> log_stays n (updateCommitIndex n)"
  unfolding log_stays_def by (intro impI plain_log_eqI) (simp_all add: updateCommitIndex_log)

lemma log_stays_handleHeartbeat:
  assumes "node_inv n"
  shows "log_stays n (fst (handleHeartbeat n args))"
  using log_stays_follow_commit[OF node_inv_accept_leader[OF assms]]
  by (simp add: handleHeartbeat_def log_stays_def Let_def)

lemma log_stays_restart:
  assumes "node_inv n" and "pkind (store n) = FilePersistence"
  shows "log_stays n (new_RaftNode cfg tm m (store n))"
  unfolding log_stays_def by (intro impI plain_log_eqI) (simp_all add: reopened(7)[OF assms refl])

lemma entries_persistState [simp]: "entries (raftLog (persistState n)) = entries (raftLog n)"
  by (simp add: persistState_def)

lemma entries_finalizeElection: "entries (raftLog (fst (finalizeElection n el))) = entries (raftLog n)"
  by (simp add: finalizeElection_def becomeLeader_def Let_def)

lemma entries_runElection: "entries (raftLog (fst (runElection n))) = entries (raftLog n)"
  by (simp add: runElection_def becomeCandidate_def entries_finalizeElection Let_def)

lemma entries_vote_settled: "entries (raftLog (fst (vote_settled n el reply))) = entries (raftLog n)"
proof -
  have "entries (raftLog (fst (vote_then m e r))) = entries (raftLog m)" for m e r
    by (simp add: vote_then_def entries_finalizeElection Let_def)
  moreover have "entries (raftLog (fst (vote_finally m e))) = entries (raftLog m)" for m e
    by (simp add: vote_finally_def entries_finalizeElection Let_def)
  ultimately show ?thesis by (cases reply) (simp_all add: vote_settled_def split_beta)
qed

lemma entries_handleRequestVote: "entries (raftLog (fst (handleRequestVote n args))) = entries (raftLog n)"
  by (simp add: handleRequestVote_def Let_def)

lemma entries_handleSyncLog: "entries (raftLog (fst (handleSyncLog n args))) = entries (raftLog n)"
  by (simp add: handleSyncLog_def Let_def split: option.split)

lemma entries_confirm: "entries (raftLog (fst (confirmLeadership_end n args results))) = entries (raftLog n)"
proof -
  have "entries (raftLog (fst (confirm_loop m rs k))) = entries (raftLog m)" for m rs k
    by (induction m rs k rule: confirm_loop.induct) simp_all
  then show ?thesis by (simp add: confirmLeadership_end_def split_beta)
qed

lemma entries_replication_settled: "entries (raftLog (replication_settled n v r outcome)) = entries (raftLog n)"
  by (simp add: replication_settled_def appendEntries_settled_def installSnapshot_settled_def Let_def
      split: replication.split rpc_outcome.split)

lemmas entries_ops = entries_runElection entries_vote_settled entries_handleRequestVote entries_handleSyncLog
  entries_confirm entries_replication_settled

section \<open>Messages are pieces of histories\<close>

fun sent_ok :: "log_entry list set \<Rightarrow> leader_call \<Rightarrow> bool" where
  "sent_ok H (CallAppend args) \<longleftrightarrow>
     (\<exists>Z\<in>H. \<exists>k. ae_entries args = take k (drop (ae_prevLogIndex args) Z) \<and>
        (0 < ae_prevLogIndex args \<and> ae_prevLogIndex args \<le> length Z \<longrightarrow>
           ae_prevLogTerm args = e_term (Z ! (ae_prevLogIndex args - 1))))"
| "sent_ok H (CallHeartbeat args) \<longleftrightarrow> True"
| "sent_ok H (CallSnapshot args) \<longleftrightarrow> is_lastIncludedIndex args = 0"

lemma sent_ok_mono: "sent_ok H call \<Longrightarrow> H \<subseteq> H' \<Longrightarrow> sent_ok H' call"
  by (cases call) auto

lemma indexed_entries_from:
  assumes "indexed Z"
  shows "entries_from (Suc p) (take k (drop p Z))"
  unfolding entries_from_nth
proof (intro allI impI)
  fix i
  assume "i < length (take k (drop p Z))"
  then have "p \<le> length Z" "p + i < length Z" "i < k" by auto
  then show "e_index (take k (drop p Z) ! i) = Suc p + i"
    using assms by (simp add: indexed_def)
qed

text \<open>A log that is consistent with a message agrees with the list the message is cut from.\<close>
lemma consistent_prefix:
  assumes "lastIncludedIndex l = 0" and "log_consistent l args" and "matches (entries l) Z"
    and "0 < ae_prevLogIndex args \<Longrightarrow> ae_prevLogIndex args \<le> length Z \<Longrightarrow>
      ae_prevLogTerm args = e_term (Z ! (ae_prevLogIndex args - 1))"
    and "ae_prevLogIndex args \<le> length Z"
  shows "ae_prevLogIndex args \<le> length (entries l)" and "take (ae_prevLogIndex args) (entries l) = take (ae_prevLogIndex args) Z"
proof -
  let ?p = "ae_prevLogIndex args"
  have p: "?p = 0 \<or> (?p \<le> length (entries l) \<and> e_term (entries l ! (?p - 1)) = ae_prevLogTerm args)"
    using assms(1,2) by (cases "?p = 0") (auto simp: log_consistent_def getEntry_plain js_at_def Let_def split: if_splits)
  then show "?p \<le> length (entries l)" by auto
  show "take ?p (entries l) = take ?p Z"
    by (rule matches_prefix[OF assms(3)]) (use p assms(4,5) in auto)
qed

lemma append_loop_plain:
  assumes "lastIncludedIndex l = 0" and "log_consistent l args" and "sent_ok H (CallAppend args)"
    and "\<And>X. X \<in> H \<Longrightarrow> matches (entries l) X \<and> indexed X"
  obtains Z where "Z \<in> H" and "indexed Z" and "ae_wf args"
    and "merged_with Z l (case ae_loop 0 commit (ae_entries args) l of Inl l' \<Rightarrow> l' | Inr l' \<Rightarrow> l')"
proof -
  obtain Z k where Z: "Z \<in> H" and es: "ae_entries args = take k (drop (ae_prevLogIndex args) Z)"
    and t: "0 < ae_prevLogIndex args \<Longrightarrow> ae_prevLogIndex args \<le> length Z \<Longrightarrow>
      ae_prevLogTerm args = e_term (Z ! (ae_prevLogIndex args - 1))"
    using assms(3) by auto
  have m: "matches (entries l) Z" "indexed Z" using assms(4)[OF Z] by simp_all
  have wf: "ae_wf args" using indexed_entries_from[OF m(2)] es by (simp add: ae_wf_def)
  show ?thesis
  proof (cases "ae_prevLogIndex args \<le> length Z")
    case True
    note p = consistent_prefix[OF assms(1,2) m(1) t True]
    from that[OF Z m(2) wf] ae_loop_plain[OF assms(1) m(1) p(2,1) es m(2)] show ?thesis by simp
  next
    case False
    then have "ae_entries args = []" using es by simp
    with that[OF Z m(2) wf] assms(1) show ?thesis by (simp add: merged_with_def)
  qed
qed

text \<open>What an AppendEntries does to the log of a member.\<close>
lemma appended:
  assumes inv: "node_inv n" "lastIncludedIndex (raftLog n) = 0" and sent: "sent_ok H (CallAppend args)"
    and hist: "\<And>X. X \<in> H \<Longrightarrow> matches (entries (raftLog n)) X \<and> indexed X"
    and n': "n' = fst (handleAppendEntries n args)" and plain: "lastIncludedIndex (raftLog n') = 0"
  obtains (kept) "entries (raftLog n') = entries (raftLog n)" "node_inv n'"
    | (prefix) Z q where "Z \<in> H" "entries (raftLog n') = take q Z" "state n' = Follower" "node_inv n'"
        "currentTerm n' = ae_term args" "q \<le> length Z"
        "\<And>m. m \<le> length (entries (raftLog n)) \<Longrightarrow> take m (entries (raftLog n)) = take m Z \<Longrightarrow> m < q"
proof (cases "ae_term args < currentTerm n \<or>
    \<not> log_consistent (raftLog (accept_leader n (ae_term args) (ae_leaderId args) (ae_leaderAddr args))) args")
  case True
  then have "entries (raftLog n') = entries (raftLog n)" "node_inv n'"
    using inv(1) n' by (auto simp: handleAppendEntries_def Let_def node_inv_accept_leader)
  then show ?thesis by (rule kept)
next
  case False
  define a where "a = accept_leader n (ae_term args) (ae_leaderId args) (ae_leaderAddr args)"
  have a: "lastIncludedIndex (raftLog a) = 0" "entries (raftLog a) = entries (raftLog n)" "node_inv a"
    using inv by (simp_all add: a_def node_inv_accept_leader)
  have fol: "state a = Follower" "currentTerm a = ae_term args"
    using False by (simp_all add: a_def accept_leader_def currentTerm_accept_leader Let_def)
  have cons: "log_consistent (raftLog a) args" using False by (simp add: a_def)
  obtain Z where Z: "Z \<in> H" "ae_wf args"
    and m: "merged_with Z (raftLog a) (case ae_loop 0 (commitIndex a) (ae_entries args) (raftLog a) of Inl l \<Rightarrow> l | Inr l \<Rightarrow> l)"
    by (rule append_loop_plain[OF a(1) cons sent]) (use hist a(2) in auto)
  have "node_inv n'" using node_inv_handleAppendEntries[OF inv(1) Z(2)] n' by simp
  moreover obtain l where l: "merged_with Z (raftLog a) l" "log_stays (a\<lparr>raftLog := l\<rparr>) n'" "state n' = Follower" "currentTerm n' = ae_term args"
  proof (cases "ae_loop 0 (commitIndex a) (ae_entries args) (raftLog a)")
    case (Inl l)
    then have "n' = a\<lparr>raftLog := l\<rparr>"
      using n' False a(1) by (simp add: handleAppendEntries_def a_def[symmetric] Let_def)
    with that[of l] m Inl fol show ?thesis by (simp add: log_stays_def)
  next
    case (Inr l)
    then have n'': "n' = follow_commit (a\<lparr>raftLog := l\<rparr>) (ae_leaderCommit args)"
      using n' False a(1) by (simp add: handleAppendEntries_def a_def[symmetric] Let_def)
    have "node_inv (a\<lparr>raftLog := l\<rparr>)"
      using ae_merge[OF a(3) Z(2) cons] Inr a(1) node_inv_merged[OF a(3)] by auto
    from that[of l] log_stays_follow_commit[OF this] m Inr fol show ?thesis by (simp add: n'')
  qed
  moreover have "entries (raftLog n') = entries l"
    using l(1,2) plain by (simp add: log_stays_def merged_with_def)
  moreover have "entries l = entries (raftLog n) \<or> (\<exists>q \<le> length Z. entries l = take q Z \<and>
      (\<forall>m \<le> length (entries (raftLog n)). take m (entries (raftLog n)) = take m Z \<longrightarrow> m < q))"
    using l(1) by (simp add: merged_with_def a(2))
  ultimately show ?thesis
    using kept prefix[OF Z(1)] l(3,4) by metis
qed

section \<open>Roles\<close>

text \<open>Becoming a candidate takes a later term, and becoming a leader a candidate or a later term.\<close>
definition role_ok :: "raft_node \<Rightarrow> raft_node \<Rightarrow> bool" where
  "role_ok n n' \<longleftrightarrow> state n' = Follower \<or> currentTerm n < currentTerm n' \<or>
     currentTerm n' = currentTerm n \<and> (state n' = state n \<or> state n = Candidate \<and> state n' = Leader)"

lemma role_ok_quiet: "quiet n n' \<Longrightarrow> role_ok n n'"
  by (auto simp: quiet_def role_ok_def)

lemma role_ok_follows: "follows n t n' \<Longrightarrow> role_ok n n'"
  by (auto simp: follows_def role_ok_def quiet_def)

lemma role_ok_vote_settled: "vote_settled n el reply = (n', el') \<Longrightarrow> role_ok n n'"
  using vote_settled_vote(1)[of n el reply n' el'] by (auto simp: wins_def role_ok_def quiet_def)

lemma role_ok_handleRequestVote: "handleRequestVote n args = (n', r) \<Longrightarrow> role_ok n n'"
  using handleRequestVote_vote[of n args n' r] by (cases "rvr_voteGranted r") (auto simp: role_ok_def quiet_def)

lemma role_ok_runElection: "runElection n = (n', el) \<Longrightarrow> role_ok n n'"
  using runElection_vote(2)[of n n' el] by (simp add: role_ok_def)

section \<open>The invariant\<close>

abbreviation log_of :: "cluster \<Rightarrow> url \<Rightarrow> log_entry list" where
  "log_of c u \<equiv> entries (raftLog (nodes c u))"

definition members_logs :: "url set \<Rightarrow> cluster \<Rightarrow> log_entry list set \<Rightarrow> bool" where
  "members_logs M c H \<longleftrightarrow> (\<forall>u\<in>M. node_inv (nodes c u) \<and> lastIncludedIndex (raftLog (nodes c u)) = 0 \<and> log_of c u \<in> H)"

text \<open>All logs match each other, and every entry is of a term that has a leader.\<close>
definition histories :: "cluster \<Rightarrow> log_entry list set \<Rightarrow> bool" where
  "histories c H \<longleftrightarrow> (\<forall>X\<in>H. indexed X \<and> (\<forall>Y\<in>H. matches X Y) \<and> (\<forall>e\<in>set X. \<exists>w. (e_term e, w) \<in> elected c))"

text \<open>No log has an entry of a leader's term where the leader has none.\<close>
definition covers :: "log_entry list set \<Rightarrow> nat \<Rightarrow> log_entry list \<Rightarrow> bool" where
  "covers H t l \<longleftrightarrow> (\<forall>X\<in>H. \<forall>i < length X. e_term (X ! i) = t \<longrightarrow> i < length l)"

definition leaders_cover :: "url set \<Rightarrow> cluster \<Rightarrow> log_entry list set \<Rightarrow> bool" where
  "leaders_cover M c H \<longleftrightarrow>
     (\<forall>u\<in>M. state (nodes c u) = Leader \<longrightarrow> covers H (currentTerm (nodes c u)) (log_of c u))"

text \<open>Who was elected is not a candidate of that term again.\<close>
definition elections_over :: "cluster \<Rightarrow> bool" where
  "elections_over c \<longleftrightarrow> (\<forall>t u. (t, u) \<in> elected c \<longrightarrow> currentTerm (nodes c u) = t \<longrightarrow> state (nodes c u) \<noteq> Candidate)"

definition calls_sent :: "cluster \<Rightarrow> log_entry list set \<Rightarrow> bool" where
  "calls_sent c H \<longleftrightarrow> (\<forall>u v call. (u, v, call) \<in> leaderCalls c \<longrightarrow> sent_ok H call)"

definition matching :: "url set \<Rightarrow> cluster \<Rightarrow> log_entry list set \<Rightarrow> bool" where
  "matching M c H \<longleftrightarrow> members_logs M c H \<and> histories c H \<and> leaders_cover M c H \<and> elections_over c \<and> calls_sent c H"

lemmas matching_defs = matching_def members_logs_def histories_def leaders_cover_def elections_over_def calls_sent_def

lemma matching_frame:
  assumes "nodes c' = nodes c" and "elected c' = elected c" and "leaderCalls c' = leaderCalls c"
  shows "matching M c' H = matching M c H"
  using assms by (simp add: matching_defs)

lemma matching_calls:
  assumes "matching M c H" and "nodes c' = nodes c" and "elected c' = elected c"
    and "\<And>u v call. (u, v, call) \<in> leaderCalls c' \<Longrightarrow> (u, v, call) \<in> leaderCalls c \<or> sent_ok H call"
  shows "matching M c' H"
proof -
  have "calls_sent c' H"
    using assms(1,4) unfolding matching_def calls_sent_def by blast
  with assms(1-3) show ?thesis by (simp add: matching_defs)
qed

lemma elected_set_node: "elected c \<subseteq> elected (set_node u n c)"
  by (auto simp: set_node_def)

text \<open>A member moves, and its log is of the histories \<open>H'\<close> then.\<close>
lemma set_node_matching:
  assumes inv: "matching M c H" "cluster_inv M cfg c" and u: "u \<in> M" and role: "role_ok (nodes c u) n"
    and own: "node_inv n" "lastIncludedIndex (raftLog n) = 0" "entries (raftLog n) \<in> H'"
    and H': "H \<subseteq> H'" "histories (set_node u n c) H'"
    and cover: "state n = Leader \<Longrightarrow> covers H' (currentTerm n) (entries (raftLog n))"
    and others: "\<And>w. w \<in> M \<Longrightarrow> w \<noteq> u \<Longrightarrow> state (nodes c w) = Leader \<Longrightarrow> covers H' (currentTerm (nodes c w)) (log_of c w)"
  shows "matching M (set_node u n c) H'"
proof -
  have "members_logs M (set_node u n c) H'"
    using inv(1) own H'(1) by (auto simp: matching_def members_logs_def)
  moreover have "leaders_cover M (set_node u n c) H'"
    using cover others by (simp add: leaders_cover_def)
  moreover have "calls_sent (set_node u n c) H'"
    using inv(1) sent_ok_mono[OF _ H'(1)] by (auto simp: matching_def calls_sent_def)
  moreover have "state n \<noteq> Candidate" if "(currentTerm n, u) \<in> elected (set_node u n c)"
  proof
    assume c: "state n = Candidate"
    then have e: "(currentTerm n, u) \<in> elected c" using that by (simp add: set_node_def)
    then have "currentTerm n \<le> currentTerm (nodes c u)"
      using electedD(2)[OF inv(2)] by (simp add: committed_to_def)
    then have "currentTerm n = currentTerm (nodes c u)" "state (nodes c u) = Candidate"
      using role c by (auto simp: role_ok_def)
    then show False using inv(1) e by (simp add: matching_def elections_over_def)
  qed
  moreover from this have "elections_over (set_node u n c)"
    using inv(1) by (auto simp: matching_def elections_over_def) (simp_all add: set_node_def split: if_splits)
  ultimately show ?thesis using H'(2) by (simp add: matching_def)
qed

text \<open>A leader that was not one in its term has no predecessor in it, and finds no entry of it.\<close>
lemma newly_elected:
  assumes inv: "elections_over c" "cluster_inv M cfg c" and role: "role_ok (nodes c u) n" and lead: "state n = Leader"
    and one: "\<And>t v w. (t, v) \<in> elected (set_node u n c) \<Longrightarrow> (t, w) \<in> elected (set_node u n c) \<Longrightarrow> v = w"
    and new: "\<not> (state (nodes c u) = Leader \<and> currentTerm (nodes c u) = currentTerm n)"
  shows "(currentTerm n, w) \<notin> elected c"
proof
  assume w: "(currentTerm n, w) \<in> elected c"
  have "(currentTerm n, u) \<in> elected (set_node u n c)" using lead by (simp add: set_node_def)
  then have "w = u" using one w elected_set_node by blast
  then have e: "(currentTerm n, u) \<in> elected c" using w by simp
  then have "currentTerm n \<le> currentTerm (nodes c u)"
    using electedD(2)[OF inv(2)] by (simp add: committed_to_def)
  then have "currentTerm n = currentTerm (nodes c u)" "state (nodes c u) = Candidate"
    using role lead new by (auto simp: role_ok_def)
  then show False using inv(1) e by (simp add: elections_over_def)
qed

lemma new_leader_covers:
  assumes inv: "matching M c H" "cluster_inv M cfg c" and role: "role_ok (nodes c u) n" and lead: "state n = Leader"
    and one: "\<And>t v w. (t, v) \<in> elected (set_node u n c) \<Longrightarrow> (t, w) \<in> elected (set_node u n c) \<Longrightarrow> v = w"
    and new: "\<not> (state (nodes c u) = Leader \<and> currentTerm (nodes c u) = currentTerm n)"
  shows "covers H (currentTerm n) l"
proof -
  have "elections_over c" using inv(1) by (simp add: matching_def)
  then have fresh: "(currentTerm n, w) \<notin> elected c" for w
    by (rule newly_elected[OF _ inv(2) role lead _ new]) (erule (1) one)
  have "e_term e \<noteq> currentTerm n" if "X \<in> H" "e \<in> set X" for X e
    using inv(1) that fresh by (metis histories_def matching_def)
  then show ?thesis by (auto simp: covers_def)
qed

text \<open>The log stays.\<close>
lemma matching_same:
  assumes inv: "matching M c H" "cluster_inv M cfg c" and u: "u \<in> M" and role: "role_ok (nodes c u) n"
    and own: "node_inv n" "lastIncludedIndex (raftLog n) = 0" "log_stays (nodes c u) n"
    and one: "\<And>t v w. (t, v) \<in> elected (set_node u n c) \<Longrightarrow> (t, w) \<in> elected (set_node u n c) \<Longrightarrow> v = w"
  shows "matching M (set_node u n c) H"
proof (rule set_node_matching[OF inv u role own(1,2) _ subset_refl])
  have l: "entries (raftLog n) = log_of c u" "log_of c u \<in> H"
    using inv(1) u own(2,3) by (auto simp: log_stays_def matching_def members_logs_def)
  then show "entries (raftLog n) \<in> H" by simp
  show "histories (set_node u n c) H"
    using inv(1) elected_set_node unfolding matching_def histories_def by blast
  show "covers H (currentTerm n) (entries (raftLog n))" if lead: "state n = Leader"
  proof (cases "state (nodes c u) = Leader \<and> currentTerm (nodes c u) = currentTerm n")
    case True
    then show ?thesis using inv(1) u l by (auto simp: matching_def leaders_cover_def)
  qed (rule new_leader_covers[OF inv role lead one])
  show "covers H (currentTerm (nodes c w)) (log_of c w)" if "w \<in> M" "state (nodes c w) = Leader" for w
    using inv(1) that by (simp add: matching_def leaders_cover_def)
qed

text \<open>The log becomes a prefix of another one.\<close>
lemma matching_prefix:
  assumes inv: "matching M c H" "cluster_inv M cfg c" and u: "u \<in> M"
    and own: "node_inv n" "lastIncludedIndex (raftLog n) = 0" "state n = Follower"
    and Z: "Z \<in> H" "entries (raftLog n) = take q Z"
  shows "matching M (set_node u n c) (insert (take q Z) H)"
proof (rule set_node_matching[OF inv u _ own(1,2)])
  show "role_ok (nodes c u) n" using own(3) by (simp add: role_ok_def)
  have H: "X \<in> H \<Longrightarrow> indexed X \<and> (\<forall>Y\<in>H. matches X Y) \<and> (\<forall>e\<in>set X. \<exists>w. (e_term e, w) \<in> elected c)" for X
    using inv(1) by (simp add: matching_def histories_def)
  have "matches (take q Z) Y" "matches Y (take q Z)" if "Y \<in> H" for Y
    using H[OF Z(1)] that by (simp_all add: matches_take matches_sym)
  then show "histories (set_node u n c) (insert (take q Z) H)"
    using H Z(1) elected_set_node[of c u n] indexed_take unfolding histories_def
    by (auto dest!: in_set_takeD) blast+
  show "covers (insert (take q Z) H) (currentTerm (nodes c w)) (log_of c w)" if "w \<in> M" "state (nodes c w) = Leader" for w
    using inv(1) that Z(1) by (fastforce simp: matching_def leaders_cover_def covers_def)
qed (use Z own in auto)

text \<open>A leader appends an entry of its term.\<close>
lemma matching_write:
  assumes inv: "matching M c H" "cluster_inv M cfg c" and u: "u \<in> M"
    and own: "node_inv n" "lastIncludedIndex (raftLog n) = 0"
    and lead: "state (nodes c u) = Leader" "state n = Leader" "currentTerm n = currentTerm (nodes c u)"
    and e: "entries (raftLog n) = log_of c u @ [e]" "e_term e = currentTerm n" "e_index e = Suc (length (log_of c u))"
  shows "matching M (set_node u n c) (insert (log_of c u @ [e]) H)"
proof (rule set_node_matching[OF inv u _ own])
  let ?l = "log_of c u" and ?H = "insert (log_of c u @ [e]) H"
  show "role_ok (nodes c u) n" using lead by (simp add: role_ok_def)
  have l: "?l \<in> H" using inv(1) u by (simp add: matching_def members_logs_def)
  have H: "X \<in> H \<Longrightarrow> indexed X \<and> (\<forall>Y\<in>H. matches X Y) \<and> (\<forall>e\<in>set X. \<exists>w. (e_term e, w) \<in> elected c)" for X
    using inv(1) by (simp add: matching_def histories_def)
  have cov: "covers H (currentTerm (nodes c u)) ?l"
    using inv(1) u lead by (simp add: matching_def leaders_cover_def)
  have "matches (?l @ [e]) X" if "X \<in> H" for X
    using H[OF l] that cov e lead by (intro matches_snoc) (auto simp: covers_def)
  then have m: "matches (?l @ [e]) X" "matches X (?l @ [e])" if "X \<in> H" for X
    using that by (simp_all add: matches_sym)
  have i: "indexed (?l @ [e])"
    using H[OF l] e(3) by (auto simp: indexed_def nth_append less_Suc_eq)
  have el: "(currentTerm n, u) \<in> elected c"
    using inv(2) u lead by (auto simp: cluster_inv_def members_inv_def)
  then show "histories (set_node u n c) ?H"
    using H m i e(2) l elected_set_node[of c u n] unfolding histories_def by (auto 0 3) blast+
  show "covers ?H (currentTerm n) (entries (raftLog n))"
    using cov lead(3) e(1) by (auto simp: covers_def less_Suc_eq)
  show "covers ?H (currentTerm (nodes c w)) (log_of c w)" if w: "w \<in> M" "w \<noteq> u" "state (nodes c w) = Leader" for w
  proof -
    have "(currentTerm (nodes c w), w) \<in> elected c"
      using inv(2) w by (auto simp: cluster_inv_def members_inv_def)
    then have "currentTerm (nodes c w) \<noteq> currentTerm n"
      using one_leader[OF inv(2) _ el] w(2) by metis
    moreover have "covers H (currentTerm (nodes c w)) (log_of c w)"
      using inv(1) w by (simp add: matching_def leaders_cover_def)
    ultimately show ?thesis
      using l e(2) by (auto simp: covers_def nth_append less_Suc_eq)
  qed
qed (use e in auto)

section \<open>Every step keeps the invariant\<close>

lemma sent_replication:
  assumes inv: "node_inv n" "lastIncludedIndex (raftLog n) = 0" "pkind (store n) = FilePersistence"
    and "entries (raftLog n) \<in> H" and "driveReplication n v = (n', r)" and "call \<in> wire r"
  shows "sent_ok H call"
proof -
  have r: "r = replicateOnce n v" using assms(5,6) by (auto simp: driveReplication_def Let_def split: if_splits)
  show ?thesis
  proof (cases r)
    case (SendAppend i args)
    then have es: "ae_entries args = take (batchCap (config n)) (drop (i - 1) (entries (raftLog n)))"
      and p: "ae_prevLogIndex args = i - 1" "ae_prevLogTerm args = getTermAt (raftLog n) (i - 1)"
      using r inv(2)
      by (auto simp: replicateOnce_def sendInstallSnapshot_def getEntriesFrom_def js_slice_def Let_def
          split: if_splits option.splits)
    have "0 < i - 1 \<Longrightarrow> i - 1 \<le> length (entries (raftLog n)) \<Longrightarrow>
        getTermAt (raftLog n) (i - 1) = e_term (entries (raftLog n) ! (i - 1 - 1))"
      using inv(2) by (auto simp: getTermAt_def getEntry_plain js_at_def)
    then have "sent_ok H (CallAppend args)"
      using assms(4) es p by (auto intro!: bexI[of _ "entries (raftLog n)"] exI[of _ "batchCap (config n)"])
    with SendAppend assms(6) show ?thesis by simp
  next
    case (SendSnapshot args)
    obtain sn where sn: "loadSnapshot (store n) = Some sn" "is_lastIncludedIndex args = sn_lastIncludedIndex sn"
      using SendSnapshot r
      by (auto simp: replicateOnce_def sendInstallSnapshot_def Let_def split: if_splits option.splits)
    have "log_durable (raftLog n)" using inv(1) by (simp add: node_inv_def log_inv_def)
    then have "is_lastIncludedIndex args = 0"
      using sn inv(2,3) by (auto simp: log_durable_fields)
    with SendSnapshot assms(6) show ?thesis by simp
  qed (use assms(6) in simp)
qed

lemma snapshot_ignored:
  assumes "is_lastIncludedIndex args = 0"
  shows "entries (raftLog (fst (handleInstallSnapshot n args))) = entries (raftLog n)"
  using assms by (simp add: handleInstallSnapshot_def Let_def)

lemma matching_leader_call:
  assumes inv: "matching M c H" "cluster_inv M cfg c" and v: "v \<in> M" and call: "(u, v, call) \<in> leaderCalls c"
    and n: "n = handle_call (nodes c v) call" and plain: "lastIncludedIndex (raftLog n) = 0"
    and one: "\<And>t x w. (t, x) \<in> elected (set_node v n c) \<Longrightarrow> (t, w) \<in> elected (set_node v n c) \<Longrightarrow> x = w"
  shows "\<exists>H'. matching M (set_node v n c) H'"
proof -
  have own: "node_inv (nodes c v)" "lastIncludedIndex (raftLog (nodes c v)) = 0" "log_of c v \<in> H"
    using inv(1) v by (simp_all add: matching_def members_logs_def)
  have sent: "sent_ok H call" using inv(1) call by (auto simp: matching_def calls_sent_def)
  have role: "role_ok (nodes c v) n" using follows_handle_call n role_ok_follows by blast
  have same: ?thesis if "log_stays (nodes c v) n" "node_inv n"
  proof
    show "matching M (set_node v n c) H"
      by (rule matching_same[OF inv v role that(2) plain that(1)]) (erule (1) one)
  qed
  show ?thesis
  proof (cases call)
    case (CallAppend args)
    have hist: "X \<in> H \<Longrightarrow> matches (log_of c v) X \<and> indexed X" for X
      using inv(1) own(3) by (simp add: matching_def histories_def)
    have n': "n = fst (handleAppendEntries (nodes c v) args)" using n CallAppend by simp
    show ?thesis
    proof (rule appended[OF own(1,2) sent[unfolded CallAppend] _ n' plain])
      show "matches (log_of c v) X \<and> indexed X" if "X \<in> H" for X using that by (rule hist)
    next
      assume "entries (raftLog n) = log_of c v" "node_inv n"
      then show ?thesis using same log_stays_same by blast
    next
      fix Z q
      assume "Z \<in> H" "entries (raftLog n) = take q Z" "state n = Follower" "node_inv n"
      then show ?thesis using matching_prefix[OF inv v _ plain] by blast
    qed
  next
    case (CallHeartbeat args)
    then show ?thesis
      using same own(1) n log_stays_handleHeartbeat node_inv_handleHeartbeat by simp
  next
    case (CallSnapshot args)
    then show ?thesis
      using same own(1) n sent snapshot_ignored node_inv_handleInstallSnapshot by (simp add: log_stays_same)
  qed
qed

lemma matching_client_write:
  assumes inv: "matching M c H" "cluster_inv M cfg c" and u: "u \<in> M"
    and w: "client_write_begin (nodes c u) stroke = Inr (n, i)" and plain: "lastIncludedIndex (raftLog n) = 0"
  shows "\<exists>H'. matching M (set_node u n c) H'"
proof -
  have own: "node_inv (nodes c u)" "lastIncludedIndex (raftLog (nodes c u)) = 0"
    using inv(1) u by (simp_all add: matching_def members_logs_def)
  have "node_inv n" using own(1) w by (rule node_inv_client_write_begin)
  moreover have "state (nodes c u) = Leader" "state n = Leader" "currentTerm n = currentTerm (nodes c u)"
    "entries (raftLog n) = log_of c u @
       [\<lparr>e_index = Suc (length (log_of c u)), e_term = currentTerm (nodes c u), e_stroke = stroke\<rparr>]"
    using w own(2) by (auto simp: client_write_begin_def log_append_def getLastIndex_def Let_def split: if_splits)
  ultimately show ?thesis
    using matching_write[OF inv u _ plain] by fastforce
qed

lemma matching_step:
  assumes inv: "matching M c H" and ok: "members_ok M cfg" and cinv: "cluster_inv M cfg c"
    and step: "cluster_step M c c'"
    and plain: "\<And>u. u \<in> M \<Longrightarrow> lastIncludedIndex (raftLog (nodes c' u)) = 0" and "\<not> caughtUp c'"
  shows "\<exists>H'. matching M c' H'"
proof -
  have one: "(t, v) \<in> elected c' \<Longrightarrow> (t, w) \<in> elected c' \<Longrightarrow> v = w" for t v w
    using one_leader[OF cluster_inv_step[OF ok cinv step]] .
  have own: "node_inv (nodes c u)" "pkind (store (nodes c u)) = FilePersistence" "log_of c u \<in> H" if "u \<in> M" for u
    using inv cinv that by (auto simp: matching_def members_logs_def cluster_inv_def members_inv_def member_inv_def)
  have moved: "\<exists>H'. matching M c' H'"
    if u: "u \<in> M" and n: "node_inv n" "log_stays (nodes c u) n" "role_ok (nodes c u) n"
      and c': "nodes c' = nodes (set_node u n c)" "elected c' = elected (set_node u n c)" "leaderCalls c' = leaderCalls c"
    for u n
  proof -
    have "lastIncludedIndex (raftLog n) = 0" using plain[OF u] c'(1) by simp
    from matching_same[OF inv cinv u n(3,1) this n(2)] one
    have "matching M (set_node u n c) H" by (simp add: c'(2))
    then show ?thesis using matching_frame[of c' "set_node u n c"] c' by auto
  qed
  from step show ?thesis
  proof cases
    case (timeout u n el)
    then obtain m where m: "runElection m = (n, el)" "currentTerm m = currentTerm (nodes c u)" "state m = state (nodes c u)"
      "entries (raftLog m) = log_of c u" "node_inv m"
      using own(1) by (auto simp: onElectionTimeout_def split: if_splits)
    have "node_inv n" "entries (raftLog n) = log_of c u"
      using node_inv_runElection[OF m(5)] entries_runElection[of m] m(1,4) by simp_all
    moreover have "role_ok (nodes c u) n"
      using role_ok_runElection[OF m(1)] m(2,3) by (simp add: role_ok_def)
    ultimately show ?thesis using timeout moved[of u n] by (simp add: log_stays_same)
  next
    case (vote_request v u args n r)
    then show ?thesis
      using moved[of v n] own(1)[of v] node_inv_handleRequestVote[of "nodes c v" args] entries_handleRequestVote[of "nodes c v" args]
        role_ok_handleRequestVote[of "nodes c v" args n r]
      by (simp add: log_stays_same)
  next
    case (vote_reply u t el v reply n el')
    then show ?thesis
      using moved[of u n] own(1)[of u] node_inv_vote_settled[of "nodes c u" el reply] entries_vote_settled[of "nodes c u" el reply]
        role_ok_vote_settled[of "nodes c u" el reply n el']
      by (simp add: log_stays_same)
  next
    case (replicate u v n r)
    define c1 where "c1 = set_node u n c"
    have n: "entries (raftLog n) = log_of c u" "lastIncludedIndex (raftLog n) = lastIncludedIndex (raftLog (nodes c u))"
      "state n = state (nodes c u)" "currentTerm n = currentTerm (nodes c u)"
      using replicate(4) by (auto simp: driveReplication_def Let_def split: if_splits)
    have "node_inv n" using node_inv_driveReplication[OF own(1), of u v] replicate(2,4) by simp
    then have "matching M c1 H"
      unfolding c1_def using n one replicate(1,2) plain[OF replicate(2)]
      by (intro matching_same[OF inv cinv replicate(2)]) (auto simp: log_stays_same role_ok_def)
    moreover have "lastIncludedIndex (raftLog (nodes c u)) = 0"
      using plain[OF replicate(2)] replicate(1) n(2) by simp
    then have "call \<in> wire r \<Longrightarrow> sent_ok H call" for call
      using sent_replication[OF own(1)[OF replicate(2)] _ own(2,3)[OF replicate(2)] replicate(4)] by blast
    ultimately have "matching M c' H"
      using replicate(1) by (elim matching_calls) (auto simp: c1_def)
    then show ?thesis ..
  next
    case (confirm u args)
    then have "matching M c' H"
      using inv by (elim matching_calls) auto
    then show ?thesis ..
  next
    case (replication_answer u v r outcome)
    then show ?thesis
      using moved[of u "replication_settled (nodes c u) v r outcome"] own(1)[of u] quiet_replication_settled
      by (simp add: node_inv_replication_settled log_stays_same entries_ops role_ok_quiet)
  next
    case (heartbeats_done u)
    have "role_ok (nodes c u) (sendHeartbeats_end (nodes c u))" "log_stays (nodes c u) (sendHeartbeats_end (nodes c u))"
      "node_inv (sendHeartbeats_end (nodes c u))"
      using heartbeats_done(2) own(1) quiet_updateCommitIndex log_stays_updateCommitIndex node_inv_updateCommitIndex
      by (simp_all add: sendHeartbeats_end_def role_ok_quiet log_stays_same)
    then show ?thesis using heartbeats_done moved[of u "sendHeartbeats_end (nodes c u)"] by simp
  next
    case (write_round u i latency n result)
    have "log_stays (nodes c u) n"
      using write_round(3) log_stays_updateCommitIndex[OF own(1)[OF write_round(2)]]
      by (auto simp: client_write_check_def log_stays_def Let_def split: if_splits)
    then show ?thesis
      using moved[of u n] write_round own(1)[of u] node_inv_client_write_check[of "nodes c u" i latency]
        quiet_client_write_check[OF write_round(3)] by (simp add: role_ok_quiet)
  next
    case (read_answers u args results)
    then show ?thesis
      using moved[of u "fst (confirmLeadership_end (nodes c u) args results)"] own(1)[of u] quiet_confirmLeadership_end
      by (simp add: log_stays_same entries_ops role_ok_quiet) (simp add: confirmLeadership_end_def split_beta node_inv_confirm_loop)
  next
    case (sync_request u sargs)
    then show ?thesis
      using moved[of u "fst (handleSyncLog (nodes c u) sargs)"] own(1)[of u] quiet_handleSyncLog
      by (simp add: log_stays_same entries_ops role_ok_quiet node_inv_handleSyncLog)
  next
    case (sync_answer u sresult)
    then show ?thesis using assms(6) by simp
  next
    case (restart u tm m)
    define n where "n = new_RaftNode (config (nodes c u)) tm m (store (nodes c u))"
    have "node_inv n" "state n = Follower"
      using reopened(1,5)[OF own(1,2)[OF restart(2)] n_def] by simp_all
    moreover have "log_stays (nodes c u) n"
      unfolding n_def using own[OF restart(2)] by (intro log_stays_restart)
    ultimately show ?thesis
      using moved[of u n] restart by (simp add: n_def role_ok_def)
  next
    case (client_write u stroke n i)
    then show ?thesis using matching_client_write[OF inv cinv] plain[of u] by simp
  next
    case (leader_call v u call)
    then show ?thesis using matching_leader_call[OF inv cinv] plain[of v] one by simp
  qed
qed

section \<open>Plain runs\<close>

text \<open>No member has taken or installed a snapshot, and no catch-up call was answered.\<close>
definition plain :: "url set \<Rightarrow> cluster \<Rightarrow> bool" where
  "plain M c \<longleftrightarrow> \<not> caughtUp c \<and>
     (\<forall>u\<in>M. lastIncludedIndex (raftLog (nodes c u)) = 0 \<and> lastIncludedTerm (raftLog (nodes c u)) = 0)"

inductive plain_run :: "url set \<Rightarrow> (url \<Rightarrow> node_config) \<Rightarrow> cluster \<Rightarrow> bool" for M cfg where
  init: "cluster_init M cfg c \<Longrightarrow> plain_run M cfg c"
| step: "plain_run M cfg c \<Longrightarrow> cluster_step M c c' \<Longrightarrow> plain M c' \<Longrightarrow> plain_run M cfg c'"

lemma plain_run_reachable: "plain_run M cfg c \<Longrightarrow> cluster_reachable M cfg c"
  by (induction rule: plain_run.induct) (auto intro: cluster_reachable.intros)

lemma init_node:
  assumes "cluster_init M cfg c" and u: "u \<in> M"
  shows "node_inv (nodes c u)" and "lastIncludedIndex (raftLog (nodes c u)) = 0" and "log_of c u = []"
    and "state (nodes c u) = Follower"
proof -
  obtain tm m p where n: "nodes c u = new_RaftNode (cfg u) tm m p" and p: "disk p = empty_disk"
    using assms unfolding cluster_init_def by blast
  let ?o = "opened (cfg u) tm m p"
  have o: "getLastIndex (raftLog ?o) = 0" "commitIndex ?o = 0" "lastIncludedIndex (raftLog ?o) = 0"
    using p by (cases "pkind p"; simp add: opened_def new_RaftLog_def persistence_ops empty_disk_def getLastIndex_def Let_def)+
  from applyCommitted_log[of ?o] o have "getLastIndex (raftLog (nodes c u)) = 0"
    by (simp add: n new_RaftNode_opened)
  then show "lastIncludedIndex (raftLog (nodes c u)) = 0" "log_of c u = []"
    by (simp_all add: getLastIndex_def)
  show "node_inv (nodes c u)" using p by (simp add: n node_inv_new store_ok_empty)
  show "state (nodes c u) = Follower" by (simp add: n new_RaftNode_opened) (simp add: opened_def)
qed

lemma matching_init:
  assumes "cluster_init M cfg c"
  shows "matching M c {[]}"
  using assms init_node[OF assms] by (auto simp: matching_defs cluster_init_def indexed_def)

lemma matching_plain_run:
  assumes "members_ok M cfg"
  shows "plain_run M cfg c \<Longrightarrow> \<exists>H. matching M c H"
proof (induction rule: plain_run.induct)
  case (init c)
  then show ?case using matching_init by blast
next
  case (step c c')
  then obtain H where "matching M c H" by blast
  from matching_step[OF this assms cluster_inv_reachable[OF assms plain_run_reachable[OF step.hyps(1)]] step.hyps(2)] step.hyps(3)
  show ?case by (simp add: plain_def)
qed

section \<open>The property\<close>

text \<open>C11: Log matching. In every run in which the members get their entries from AppendEntries, up to the
  first snapshot, and whatever is lost, delayed, reordered, repeated or restarted: if two members hold entries of
  the same term at one index, their logs are the same at every index up to it, with the strokes.\<close>
theorem logs_match:
  assumes "members_ok M cfg" and "plain_run M cfg c" and "u \<in> M" and "v \<in> M"
    and "getEntry (raftLog (nodes c u)) i = Some e" and "getEntry (raftLog (nodes c v)) i = Some e'"
    and "e_term e = e_term e'" and "j \<le> i"
  shows "getEntry (raftLog (nodes c u)) j = getEntry (raftLog (nodes c v)) j"
proof -
  obtain H where H: "matching M c H" using matching_plain_run[OF assms(1,2)] by blast
  have plain: "lastIncludedIndex (raftLog (nodes c u)) = 0" "lastIncludedIndex (raftLog (nodes c v)) = 0"
    and m: "matches (log_of c u) (log_of c v)"
    using H assms(3,4) by (auto simp: matching_def members_logs_def histories_def)
  obtain k where k: "i = Suc k" "k < length (log_of c u)" "k < length (log_of c v)"
    "e_term (log_of c u ! k) = e_term (log_of c v ! k)"
    using assms(5-7) plain by (cases i) (auto simp: getEntry_plain js_at_Some_iff split: if_splits)
  then have same: "take (Suc k) (log_of c u) = take (Suc k) (log_of c v)"
    using m by (simp add: matches_def)
  show ?thesis
  proof (cases j)
    case (Suc h)
    then have "log_of c u ! h = log_of c v ! h"
      using same k(1) assms(8) by (metis Suc_le_mono le_imp_less_Suc nth_take)
    then show ?thesis using Suc k assms(8) plain by (simp add: getEntry_plain js_at_def)
  qed (simp add: getEntry_plain plain)
qed

text \<open>The functions of \<open>Cluster_Runs\<close> that make one step, on plain runs.\<close>
lemma plain_run_step:
  assumes "plain_run M cfg c" and "c' = c \<or> cluster_step M c c'" and "plain M c'"
  shows "plain_run M cfg c'"
  using assms plain_run.step by blast

lemma one_step:
  assumes "u \<in> M" and "v \<in> M"
  shows "do_timeout u c = c \<or> cluster_step M c (do_timeout u c)"
    and "do_vote_request w v args c = c \<or> cluster_step M c (do_vote_request w v args c)"
    and "do_vote_reply u t w r c = c \<or> cluster_step M c (do_vote_reply u t w r c)"
    and "do_write u stroke c = c \<or> cluster_step M c (do_write u stroke c)"
    and "do_send u w c = c \<or> cluster_step M c (do_send u w c)"
    and "do_call w v call c = c \<or> cluster_step M c (do_call w v call c)"
proof -
  show "do_timeout u c = c \<or> cluster_step M c (do_timeout u c)"
    using assms(1) by (auto simp: do_timeout_def intro: cluster_step.timeout split: option.split)
  show "do_vote_request w v args c = c \<or> cluster_step M c (do_vote_request w v args c)"
    using assms(2) by (auto simp: do_vote_request_def intro: cluster_step.vote_request split: prod.split)
  show "do_vote_reply u t w r c = c \<or> cluster_step M c (do_vote_reply u t w r c)"
    using assms(1) cluster_step.vote_reply[of u M c t _ w "Some r"]
    by (auto simp: do_vote_reply_def split: prod.split option.split)
  show "do_write u stroke c = c \<or> cluster_step M c (do_write u stroke c)"
    using assms(1) by (auto simp: do_write_def intro: cluster_step.client_write split: sum.split prod.split)
  show "do_send u w c = c \<or> cluster_step M c (do_send u w c)"
    using assms(1) by (auto simp: do_send_def intro: cluster_step.replicate split: prod.split)
  show "do_call w v call c = c \<or> cluster_step M c (do_call w v call c)"
    using assms(2) by (auto simp: do_call_def intro: cluster_step.leader_call)
qed

text \<open>\<open>a\<close> times out, is elected by \<open>b\<close>, takes two writes and sends them to \<open>b\<close>.\<close>
definition plain_candidate :: cluster where
  "plain_candidate = do_timeout ''a'' three_init"

definition plain_args :: request_vote_args where
  "plain_args = el_args (the (elections plain_candidate ''a'' 1))"

definition plain_asked :: cluster where
  "plain_asked = do_vote_request ''a'' ''b'' plain_args plain_candidate"

definition plain_elected :: cluster where
  "plain_elected = do_vote_reply ''a'' 1 ''b'' (snd (handleRequestVote (nodes plain_candidate ''b'') plain_args)) plain_asked"

definition plain_first :: cluster where
  "plain_first = do_write ''a'' (stroke_of ''s1'') plain_elected"

definition plain_written :: cluster where
  "plain_written = do_write ''a'' (stroke_of ''s2'') plain_first"

definition plain_sent :: cluster where
  "plain_sent = do_send ''a'' ''b'' plain_written"

definition plain_call :: leader_call where
  "plain_call = (case snd (driveReplication (nodes plain_written ''a'') ''b'') of
     SendAppend i args \<Rightarrow> CallAppend args
   | _ \<Rightarrow> CallHeartbeat \<lparr>hb_term = 0, hb_leaderId = [], hb_leaderAddr = None, hb_leaderCommit = 0\<rparr>)"

definition plain_received :: cluster where
  "plain_received = do_call ''a'' ''b'' plain_call plain_sent"

lemma plain_stages:
  "plain three plain_candidate" "plain three plain_asked" "plain three plain_elected" "plain three plain_first"
  "plain three plain_written" "plain three plain_sent" "plain three plain_received"
  by code_simp+

lemma plain_steps:
  "plain_candidate = three_init \<or> cluster_step three three_init plain_candidate"
  "plain_asked = plain_candidate \<or> cluster_step three plain_candidate plain_asked"
  "plain_elected = plain_asked \<or> cluster_step three plain_asked plain_elected"
  "plain_first = plain_elected \<or> cluster_step three plain_elected plain_first"
  "plain_written = plain_first \<or> cluster_step three plain_first plain_written"
  "plain_sent = plain_written \<or> cluster_step three plain_written plain_sent"
  "plain_received = plain_sent \<or> cluster_step three plain_sent plain_received"
  using one_step[OF three_members(1,2)]
  by (simp_all add: plain_candidate_def plain_asked_def plain_elected_def plain_first_def plain_written_def plain_sent_def
      plain_received_def)

lemma plain_run_received: "plain_run three three_cfg plain_received"
  by (rule plain_run_step[OF plain_run_step[OF plain_run_step[OF plain_run_step[OF plain_run_step[OF plain_run_step
    [OF plain_run_step[OF plain_run.init[OF three_init_ok]]]]]]]]) (rule plain_steps plain_stages)+

theorem logs_match_witness:
  "getEntry (raftLog (nodes plain_received ''a'')) 1 = getEntry (raftLog (nodes plain_received ''b'')) 1 \<and>
   getEntry (raftLog (nodes plain_received ''b'')) 1 \<noteq> None"
proof -
  have h: "map_option e_term (getEntry (raftLog (nodes plain_received ''a'')) 2) = Some 1 \<and>
      map_option e_term (getEntry (raftLog (nodes plain_received ''b'')) 2) = Some 1 \<and>
      getEntry (raftLog (nodes plain_received ''b'')) 1 \<noteq> None" by code_simp
  then obtain e e' where "getEntry (raftLog (nodes plain_received ''a'')) 2 = Some e"
    "getEntry (raftLog (nodes plain_received ''b'')) 2 = Some e'" "e_term e = e_term e'" by auto
  from logs_match[OF three_ok plain_run_received three_members(1,2) this, of 1] h show ?thesis by simp
qed

section \<open>A catch-up call breaks it\<close>

definition do_restart :: "url \<Rightarrow> cluster \<Rightarrow> cluster" where
  "do_restart u c = (set_node u (new_RaftNode (config (nodes c u)) (new_timers None (\<lambda>i. 0)) new_metrics (store (nodes c u))) c)
     \<lparr>elections := (elections c)(u := (\<lambda>t. None))\<rparr>"

text \<open>\<open>u\<close> asks \<open>v\<close> for what it has missed, and the answer arrives.\<close>
definition do_sync :: "url \<Rightarrow> url \<Rightarrow> cluster \<Rightarrow> cluster" where
  "do_sync u v c =
     (let (n, r) = handleSyncLog (nodes c v) (catch_up_args (nodes c u));
          c1 = set_node v n c
      in (set_node u (catch_up_apply (nodes c1 u) r) c1)\<lparr>caughtUp := True\<rparr>)"

lemma do_restart_step: "cluster_reachable M cfg c \<Longrightarrow> u \<in> M \<Longrightarrow> cluster_reachable M cfg (do_restart u c)"
  unfolding do_restart_def by (rule cluster_reachable.step[OF _ cluster_step.restart])

lemma do_sync_step:
  assumes "cluster_reachable M cfg c" and "u \<in> M" and "v \<in> M"
  shows "cluster_reachable M cfg (do_sync u v c)"
  using cluster_reachable.step[OF cluster_reachable.step[OF assms(1) cluster_step.sync_request[OF assms(3)]]
      cluster_step.sync_answer[OF assms(2)]]
  by (simp add: do_sync_def split_beta Let_def)

text \<open>
  In \<open>run_conflict\<close> \<open>b\<close> leads term 2 and has a stroke, and \<open>a\<close> holds a stroke of term 1 that nobody
  else has. \<open>b\<close> takes another stroke and commits both with \<open>c\<close>; \<open>a\<close> restarts and asks \<open>b\<close>.
\<close>
definition run_ahead :: cluster where
  "run_ahead = do_commit ''b'' (do_append ''b'' ''c'' (do_write ''b'' (stroke_of ''z'') run_conflict))"

definition run_caught_up :: cluster where
  "run_caught_up = do_sync ''a'' ''b'' (do_restart ''a'' run_ahead)"

lemma reachable_caught_up: "cluster_reachable three three_cfg run_caught_up"
  unfolding run_caught_up_def run_ahead_def run_conflict_def
  by (intro do_sync_step do_restart_step run_steps reachable_elected) simp_all

definition caught_up_reply :: sync_log_result where
  "caught_up_reply = \<lparr>slr_term = 2, slr_entries = [\<lparr>e_index = 2, e_term = 2, e_stroke = stroke_of ''z''\<rparr>],
     slr_commitIndex = 2, slr_snapshot = None\<rparr>"

definition restarted_a :: raft_node where
  "restarted_a = new_RaftNode (three_cfg ''a'') (new_timers None (\<lambda>i. 0)) new_metrics (store (nodes run_conflict ''a''))"

lemma ahead_a: "nodes run_ahead ''a'' = nodes run_conflict ''a''"
  by (simp add: run_ahead_def do_commit_def do_append_def do_send_def do_call_def do_answer_def do_write_def Let_def split_beta
      split: replication.split sum.split)

lemma conflict_a: "config (nodes run_conflict ''a'') = three_cfg ''a''"
  using cluster_inv_reachable[OF three_ok, of run_conflict]
  unfolding run_conflict_def by (simp add: cluster_inv_def members_inv_def member_inv_def run_steps reachable_elected)

lemma restarted: "nodes (do_restart ''a'' run_ahead) ''a'' = restarted_a"
  by (simp add: do_restart_def ahead_a conflict_a restarted_a_def)

lemma ahead_b: "observe (nodes run_ahead ''b'') =
    (0, [\<lparr>e_index = 1, e_term = 2, e_stroke = stroke_of ''y''\<rparr>, \<lparr>e_index = 2, e_term = 2, e_stroke = stroke_of ''z''\<rparr>],
     2, [stroke_of ''y'', stroke_of ''z'']) \<and> currentTerm (nodes run_ahead ''b'') = 2"
  by code_simp

lemma restarted_args: "sl_fromIndex (catch_up_args restarted_a) = 2 \<and> sl_term (catch_up_args restarted_a) \<le> 2"
  by code_simp

lemma synced_a: "observe (catch_up_apply restarted_a caught_up_reply) =
    (0, [\<lparr>e_index = 1, e_term = 1, e_stroke = stroke_of ''x''\<rparr>, \<lparr>e_index = 2, e_term = 2, e_stroke = stroke_of ''z''\<rparr>],
     2, [stroke_of ''x'', stroke_of ''z''])"
  by code_simp

lemma restarted_other: "nodes (do_restart ''a'' run_ahead) ''b'' = nodes run_ahead ''b''"
  by (simp add: do_restart_def)

lemma sync_reply: "handleSyncLog (nodes run_ahead ''b'') (catch_up_args restarted_a) = (nodes run_ahead ''b'', caught_up_reply)"
proof -
  have "lastIncludedIndex (raftLog (nodes run_ahead ''b'')) = 0" "commitIndex (nodes run_ahead ''b'') = 2"
    "entries (raftLog (nodes run_ahead ''b'')) =
       [\<lparr>e_index = 1, e_term = 2, e_stroke = stroke_of ''y''\<rparr>, \<lparr>e_index = 2, e_term = 2, e_stroke = stroke_of ''z''\<rparr>]"
    "currentTerm (nodes run_ahead ''b'') = 2"
    using ahead_b by (simp_all add: observe_def)
  then show ?thesis
    using restarted_args by (simp add: handleSyncLog_def caught_up_reply_def getEntriesFrom_def js_slice_def Let_def)
qed

lemma caught_up_nodes:
  "nodes run_caught_up ''a'' = catch_up_apply restarted_a caught_up_reply"
  "nodes run_caught_up ''b'' = nodes run_ahead ''b''"
  by (simp_all add: run_caught_up_def do_sync_def restarted restarted_other sync_reply)

text \<open>C34: A catch-up call breaks log matching and the agreement of the replicas. A restarted member asks for the
  entries after its own last one, whatever that is, and commits up to the answer: in a run of three
  replicas without any heartbeat two of them hold the same entry at index 2, different entries at
  index 1, and have committed and show both.\<close>
theorem catch_up_commits_conflicting_entry:
  "cluster_reachable three three_cfg run_caught_up \<and>
   getEntry (raftLog (nodes run_caught_up ''a'')) 2 = getEntry (raftLog (nodes run_caught_up ''b'')) 2 \<and>
   getEntry (raftLog (nodes run_caught_up ''a'')) 1 \<noteq> getEntry (raftLog (nodes run_caught_up ''b'')) 1 \<and>
   commitIndex (nodes run_caught_up ''a'') = 2 \<and> commitIndex (nodes run_caught_up ''b'') = 2 \<and>
   getStrokes (boards (nodes run_caught_up ''a'')) ''board'' = [stroke_of ''x'', stroke_of ''z''] \<and>
   getStrokes (boards (nodes run_caught_up ''b'')) ''board'' = [stroke_of ''y'', stroke_of ''z'']"
  using reachable_caught_up synced_a ahead_b unfolding caught_up_nodes by (simp add: observe_def getEntry_def js_at_def)

end
