(* ===== verification/Replica_Props.thy ===== *)
theory Replica_Props
  imports Replica_Machine Votes
begin

text \<open>
  The properties of one replica: the growth of what it promised and its recovery after a crash, each with a
  concrete run.
\<close>

section \<open>Concrete runs\<close>

definition sample_config :: node_config where
  "sample_config = \<lparr>replicaId = ''replica1'', peers = [''http://replica2'', ''http://replica3''],
     selfUrl = ''http://replica1'', snapshotThreshold = 500, batchCap = 2\<rparr>"

definition sample_store :: persistence where
  "sample_store = \<lparr>pkind = FilePersistence, disk = empty_disk, calls = []\<rparr>"

definition sample_timers :: timer_manager where
  "sample_timers = new_timers (Some ''replica1'') (\<lambda>i. 0)"

definition sample_node :: raft_node where
  "sample_node = new_RaftNode sample_config sample_timers new_metrics sample_store"

definition sample_stroke :: "string \<Rightarrow> stroke" where
  "sample_stroke sid = \<lparr>strokeId = sid, boardId = ''b'', userId = ''u'', color = ''red'', width = json_width (whole 3),
     points = json_points [(whole 0, whole 0), (whole 1, whole 1)], timestamp = whole 0, action = None, targetStrokeId = None\<rparr>"

definition sample_entry :: "nat \<Rightarrow> nat \<Rightarrow> log_entry" where
  "sample_entry i t = \<lparr>e_index = i, e_term = t, e_stroke = sample_stroke [char_of (64 + i)]\<rparr>"

definition sample_append :: append_entries_args where
  "sample_append = \<lparr>ae_term = 1, ae_leaderId = ''replica2'', ae_leaderAddr = Some ''http://replica2'',
     ae_prevLogIndex = 0, ae_prevLogTerm = 0, ae_entries = [sample_entry 1 1, sample_entry 2 1, sample_entry 3 1],
     ae_leaderCommit = 2\<rparr>"

lemma reachable_sample: "reachable sample_node"
  unfolding sample_node_def by (rule reachable.fresh) (simp add: sample_store_def)

lemma wf_sample_append: "event_wf n (AppendEntries sample_append)"
  by (simp add: sample_append_def ae_wf_def sample_entry_def)

lemma pkind_new [simp]: "pkind (store (new_RaftNode cfg tm m p)) = pkind p"
  by (simp add: new_RaftNode_opened) (simp add: opened_def)

lemma pkind_sample: "pkind (store sample_node) = FilePersistence"
  by (simp add: sample_node_def sample_store_def)

text \<open>A follower that holds three entries, two of them committed.\<close>
definition sample_follower :: raft_node where
  "sample_follower = deliver sample_node (AppendEntries sample_append)"

lemma reachable_follower: "reachable sample_follower"
  unfolding sample_follower_def by (rule reachable.event[OF reachable_sample wf_sample_append])

lemma pkind_follower: "pkind (store sample_follower) = FilePersistence"
  by code_simp

section \<open>What a replica promised\<close>

lemma pkind_deliver: "pkind (store (deliver n e)) = pkind (store n)"
proof (cases e)
  case ElectionTimeout
  have "pkind (store (fst (runElection m))) = pkind (store m)" for m
    using runElection_vote(5)[of m] by (cases "runElection m") simp
  with ElectionTimeout show ?thesis by (simp add: onElectionTimeout_def Let_def split_beta)
next
  case (RequestVote args)
  obtain n' r where h: "handleRequestVote n args = (n', r)" by fastforce
  then show ?thesis
    using handleRequestVote_vote[OF h] RequestVote
    by (cases "rvr_voteGranted r") (simp_all add: quiet_def)
next
  case (VoteSettled el reply)
  obtain n' el' where h: "vote_settled n el reply = (n', el')" by fastforce
  then show ?thesis
    using vote_settled_vote(1)[OF h] VoteSettled by (auto simp: quiet_def wins_def)
next
  case HeartbeatTick
  have "pkind (store (fst (drive_peers m ps))) = pkind (store m)" for m ps
    by (induction ps arbitrary: m) (simp_all add: split_beta driveReplication_def Let_def)
  with HeartbeatTick show ?thesis by (simp add: sendHeartbeats_begin_def)
next
  case HeartbeatsSettled
  then show ?thesis using quiet_updateCommitIndex[of n] by (simp add: sendHeartbeats_end_def quiet_def)
next
  case (ClientWrite stroke)
  then show ?thesis by (auto split: sum.split dest: quiet_client_write_begin simp: quiet_def)
next
  case (WriteRoundSettled i latency)
  then show ?thesis by (auto split: option.split dest: quiet_client_write_check simp: quiet_def)
next
  case (AppendEntries args)
  then show ?thesis using follows_handleAppendEntries[of n args] by (auto simp: follows_def quiet_def)
next
  case (Heartbeat args)
  then show ?thesis using follows_handleHeartbeat[of n args] by (auto simp: follows_def quiet_def)
next
  case (InstallSnapshot args)
  then show ?thesis using follows_handleInstallSnapshot[of n args] by (auto simp: follows_def quiet_def)
next
  case (SyncLog args)
  then show ?thesis using quiet_handleSyncLog[of n args] by (simp add: quiet_def)
next
  case (ReplicationSettled peer r outcome)
  then show ?thesis using quiet_replication_settled[of n peer r outcome] by (simp add: quiet_def)
next
  case (ReadSettled args results)
  then show ?thesis using quiet_confirmLeadership_end[of n args results] by (simp add: quiet_def)
next
  case (CatchUpSettled result)
  then show ?thesis using quiet_catch_up_apply[of n result] by (simp add: quiet_def)
qed simp_all

lemma moves_on_run:
  assumes "node_inv n" and "events_wf n es" and "pkind (store n) = FilePersistence"
  shows "moves_on n (run_events n es)"
  using assms
proof (induction es arbitrary: n)
  case (Cons e es)
  have "keeps_store n e" using Cons.prems(3) by (cases e) simp_all
  then have "moves_on n (deliver n e)"
    using Cons.prems by (intro moves_on_deliver) simp_all
  moreover have "moves_on (deliver n e) (run_events (deliver n e) es)"
    using Cons.prems by (intro Cons.IH) (simp_all add: node_inv_deliver pkind_deliver)
  ultimately show ?case by (auto intro: moves_on_trans)
qed simp

lemma pkind_run: "pkind (store (run_events n es)) = pkind (store n)"
  by (induction es arbitrary: n) (simp_all add: pkind_deliver)

text \<open>C3: Whatever happens to a replica with a disk, restarts included, its term and its commit index
  never go back, and a committed entry that it still holds is the entry it had committed.\<close>
theorem promises_kept:
  assumes "reachable n" and "pkind (store n) = FilePersistence" and "events_wf n es"
  shows "currentTerm n \<le> currentTerm (run_events n es) \<and> commitIndex n \<le> commitIndex (run_events n es) \<and>
    (\<forall>i \<le> commitIndex n. lastIncludedIndex (raftLog (run_events n es)) < i \<longrightarrow>
       getEntry (raftLog (run_events n es)) i = getEntry (raftLog n) i)"
  using moves_on_run[OF node_inv_reachable[OF assms(1)] assms(3,2)] by (simp add: moves_on_def)

text \<open>A run with a write, an election, a conflicting leader and a restart.\<close>
definition sample_events :: "node_event list" where
  "sample_events = [AppendEntries sample_append, ElectionTimeout,
     Heartbeat \<lparr>hb_term = 5, hb_leaderId = ''replica3'', hb_leaderAddr = None, hb_leaderCommit = 3\<rparr>,
     CrashRestart sample_timers new_metrics]"

lemma sample_events_wf: "events_wf n sample_events"
  using wf_sample_append by (simp add: sample_events_def)

theorem promises_kept_witness:
  "commitIndex sample_node \<le> commitIndex (run_events sample_node sample_events)"
  using promises_kept[OF reachable_sample pkind_sample sample_events_wf] by simp

text \<open>C4: Recovery. A replica that crashes between two handlers and opens its disk again is a
  follower with the same term, vote, commit index and last index, the same entries beyond the
  snapshot boundary, and boards that look the same (the board \<open>__proto__\<close> aside).\<close>
theorem crash_recovery:
  assumes "reachable n" and "pkind (store n) = FilePersistence"
    and "n' = new_RaftNode cfg tm m (store n)"
  shows "state n' = Follower \<and> currentTerm n' = currentTerm n \<and> votedFor n' = votedFor n \<and>
    commitIndex n' = commitIndex n \<and> lastApplied n' = commitIndex n \<and>
    getLastIndex (raftLog n') = getLastIndex (raftLog n) \<and>
    (\<forall>i > lastIncludedIndex (raftLog n'). getEntry (raftLog n') i = getEntry (raftLog n) i) \<and>
    same_boards (boards n') (boards n)"
proof -
  note r = reopened[OF node_inv_reachable[OF assms(1)] assms(2,3)]
  have "lastApplied n' = commitIndex n'" using r(1) by (simp add: node_inv_def)
  with r show ?thesis by simp
qed

theorem crash_recovery_witness:
  "currentTerm (new_RaftNode sample_config sample_timers new_metrics
      (store (run_events sample_node sample_events))) = currentTerm (run_events sample_node sample_events)"
  using crash_recovery[OF reachable_run[OF reachable_sample sample_events_wf] _ refl]
  by (simp add: pkind_run pkind_sample)

end
