(* ===== verification/Handler_Props.thy ===== *)
theory Handler_Props
  imports Replica_Props
begin

text \<open>
  The contracts of the handlers and of the sending side: what a successful AppendEntries means
  for the log, when a vote is given, when an index is committed, what a leader puts into a message,
  when a client write or a read succeeds.
\<close>

section \<open>AppendEntries\<close>

lemma log_consistent_accept_leader [simp]:
  "log_consistent (raftLog (accept_leader n t l a)) args = log_consistent (raftLog n) args"
  by (simp add: log_consistent_def Let_def)

lemma handleAppendEntries_success:
  assumes "handleAppendEntries n args = (n', r)" and "aer_success r"
  obtains l where "currentTerm n \<le> ae_term args"
    and "log_consistent (raftLog n) args"
    and "ae_loop (lastIncludedIndex (raftLog n)) (commitIndex n) (ae_entries args)
      (raftLog (accept_leader n (ae_term args) (ae_leaderId args) (ae_leaderAddr args))) = Inr l"
    and "n' = follow_commit ((accept_leader n (ae_term args) (ae_leaderId args) (ae_leaderAddr args))\<lparr>raftLog := l\<rparr>)
      (ae_leaderCommit args)"
    and "r = append_reply n' True"
proof -
  let ?m = "accept_leader n (ae_term args) (ae_leaderId args) (ae_leaderAddr args)"
  have "\<not> ae_term args < currentTerm n"
    using assms by (auto simp: handleAppendEntries_def append_reply_def)
  moreover have "log_consistent (raftLog ?m) args"
    using assms calculation by (auto simp: handleAppendEntries_def append_reply_def Let_def split: if_splits)
  moreover obtain l where "ae_loop (lastIncludedIndex (raftLog ?m)) (commitIndex ?m) (ae_entries args) (raftLog ?m) = Inr l"
    using assms calculation
    by (cases "ae_loop (lastIncludedIndex (raftLog ?m)) (commitIndex ?m) (ae_entries args) (raftLog ?m)")
      (auto simp: handleAppendEntries_def append_reply_def Let_def)
  ultimately show ?thesis
    using that[of l] assms(1) by (auto simp: handleAppendEntries_def Let_def)
qed

lemma append_entries_facts:
  assumes "reachable n" and "ae_wf args" and "handleAppendEntries n args = (n', r)" and "aer_success r"
  shows "currentTerm n \<le> ae_term args \<and> state n' = Follower \<and> currentTerm n' = ae_term args \<and> aer_term r = ae_term args \<and>
    leaderId n' = Some (ae_leaderId args) \<and>
    (\<forall>e\<in>set (ae_entries args). lastIncludedIndex (raftLog n') < e_index e \<longrightarrow>
       (\<exists>x. getEntry (raftLog n') (e_index e) = Some x \<and> e_term x = e_term e)) \<and>
    (\<forall>i > lastIncludedIndex (raftLog n'). i \<le> ae_prevLogIndex args \<or> i \<le> commitIndex n \<longrightarrow>
       getEntry (raftLog n') i = getEntry (raftLog n) i) \<and>
    commitIndex n' = max (commitIndex n) (min (ae_leaderCommit args) (getLastIndex (raftLog n')))"
proof -
  let ?m = "accept_leader n (ae_term args) (ae_leaderId args) (ae_leaderAddr args)"
  obtain l where le: "currentTerm n \<le> ae_term args" and con: "log_consistent (raftLog n) args"
    and loop: "ae_loop (lastIncludedIndex (raftLog n)) (commitIndex n) (ae_entries args) (raftLog ?m) = Inr l"
    and n': "n' = follow_commit (?m\<lparr>raftLog := l\<rparr>) (ae_leaderCommit args)" and r: "r = append_reply n' True"
    using assms(3,4) by (rule handleAppendEntries_success)
  have inv: "node_inv n" "node_inv ?m"
    using node_inv_reachable[OF assms(1)] node_inv_accept_leader by simp_all
  have "log_consistent (raftLog ?m) args" using con by simp
  then have m: "merged (commitIndex n) (Suc (ae_prevLogIndex args)) (raftLog ?m) l"
    and held: "\<forall>e\<in>set (ae_entries args). lastIncludedIndex (raftLog n) < e_index e \<longrightarrow>
      (\<exists>x. getEntry l (e_index e) = Some x \<and> e_term x = e_term e)"
    using ae_merge[OF inv(2) assms(2)] loop by simp_all
  let ?k = "?m\<lparr>raftLog := l\<rparr>"
  have bounds: "lastIncludedIndex (raftLog ?k) \<le> commitIndex ?k" "commitIndex ?k \<le> getLastIndex (raftLog ?k)"
    using m inv(1) by (auto simp: merged_def node_inv_def log_inv_def)
  note f = follow_commit_log[OF bounds, of "ae_leaderCommit args"]
  have b: "lastIncludedIndex (raftLog n) \<le> lastIncludedIndex (raftLog n')"
    using f(2) m n' by (simp add: merged_def)
  have entries: "getEntry (raftLog n') i = getEntry l i" if "lastIncludedIndex (raftLog n') < i" for i
    using f(3)[of i] that n' by simp
  have "commitIndex n' = max (commitIndex n) (min (ae_leaderCommit args) (getLastIndex (raftLog n')))"
    using follow_commit_commitIndex[OF bounds(2)] f(1) n' by simp
  moreover have "\<exists>x. getEntry (raftLog n') (e_index e) = Some x \<and> e_term x = e_term e"
    if "e \<in> set (ae_entries args)" "lastIncludedIndex (raftLog n') < e_index e" for e
    using entries[OF that(2)] held that b by force
  moreover have "getEntry (raftLog n') i = getEntry (raftLog n) i"
    if "lastIncludedIndex (raftLog n') < i" "i \<le> ae_prevLogIndex args \<or> i \<le> commitIndex n" for i
    using entries[OF that(1)] m that(2) by (auto simp: merged_def)
  moreover have "state n' = Follower" "currentTerm n' = ae_term args" "leaderId n' = Some (ae_leaderId args)"
    using n' le by (simp_all add: currentTerm_accept_leader)
  ultimately show ?thesis
    using r le by (simp add: append_reply_def)
qed

text \<open>C7: A successful AppendEntries. The replica follows the sender in its term; its log agrees in term
  with every received entry beyond the snapshot boundary; nothing up to the previous index or the
  old commit index has changed; and it has taken over the leader's commit index as far as its log goes.\<close>
theorem append_entries_accepted:
  assumes "reachable n" and "ae_wf args" and "handleAppendEntries n args = (n', r)" and "aer_success r"
  shows "state n' = Follower \<and> currentTerm n' = ae_term args \<and> aer_term r = ae_term args \<and>
    leaderId n' = Some (ae_leaderId args) \<and>
    (\<forall>e\<in>set (ae_entries args). lastIncludedIndex (raftLog n') < e_index e \<longrightarrow>
       (\<exists>x. getEntry (raftLog n') (e_index e) = Some x \<and> e_term x = e_term e)) \<and>
    (\<forall>i > lastIncludedIndex (raftLog n'). i \<le> ae_prevLogIndex args \<or> i \<le> commitIndex n \<longrightarrow>
       getEntry (raftLog n') i = getEntry (raftLog n) i) \<and>
    commitIndex n' = max (commitIndex n) (min (ae_leaderCommit args) (getLastIndex (raftLog n')))"
  using append_entries_facts[OF assms] by simp

lemma sample_append_accepted: "aer_success (snd (handleAppendEntries sample_node sample_append))"
  by code_simp

theorem append_entries_accepted_witness:
  "commitIndex (fst (handleAppendEntries sample_node sample_append)) =
     max (commitIndex sample_node) (min 2 (getLastIndex (raftLog (fst (handleAppendEntries sample_node sample_append)))))"
  using append_entries_accepted[OF reachable_sample _ surjective_pairing sample_append_accepted]
    wf_sample_append[of sample_node] by (simp add: sample_append_def)

text \<open>A refused AppendEntries never touches what is committed: it comes from an older term, or
  the previous entry does not match, or it conflicts with a committed entry; the commit index and
  every entry up to it stay.\<close>
theorem append_entries_refused:
  assumes "reachable n" and "ae_wf args" and "handleAppendEntries n args = (n', r)" and "\<not> aer_success r"
  shows "commitIndex n' = commitIndex n \<and>
    (\<forall>i \<le> commitIndex n. getEntry (raftLog n') i = getEntry (raftLog n) i) \<and>
    (ae_term args < currentTerm n \<or> \<not> log_consistent (raftLog n) args \<or>
     (\<exists>e\<in>set (ae_entries args). \<exists>x. e_index e \<le> commitIndex n \<and>
        getEntry (raftLog n) (e_index e) = Some x \<and> e_term x \<noteq> e_term e))"
proof -
  let ?m = "accept_leader n (ae_term args) (ae_leaderId args) (ae_leaderAddr args)"
  have inv: "node_inv ?m"
    using node_inv_reachable[OF assms(1)] by (rule node_inv_accept_leader)
  let ?r = "ae_loop (lastIncludedIndex (raftLog ?m)) (commitIndex ?m) (ae_entries args) (raftLog ?m)"
  consider (old) "ae_term args < currentTerm n"
    | (mismatch) "\<not> ae_term args < currentTerm n" "\<not> log_consistent (raftLog n) args"
    | (loop) "\<not> ae_term args < currentTerm n" "log_consistent (raftLog n) args"
    by blast
  then show ?thesis
  proof cases
    case old
    then show ?thesis using assms(3) by (simp add: handleAppendEntries_def)
  next
    case mismatch
    then show ?thesis using assms(3) by (auto simp: handleAppendEntries_def Let_def)
  next
    case loop
    have "handleAppendEntries n args = (case ?r of
        Inl l \<Rightarrow> (?m\<lparr>raftLog := l\<rparr>, append_reply (?m\<lparr>raftLog := l\<rparr>) False)
      | Inr l \<Rightarrow> (follow_commit (?m\<lparr>raftLog := l\<rparr>) (ae_leaderCommit args),
          append_reply (follow_commit (?m\<lparr>raftLog := l\<rparr>) (ae_leaderCommit args)) True))"
      using loop by (simp add: handleAppendEntries_def Let_def del: accept_leader_frame split: sum.split)
    then obtain l where l: "?r = Inl l" "n' = ?m\<lparr>raftLog := l\<rparr>"
      using assms(3,4) by (auto simp: append_reply_def split: sum.splits)
    have "log_consistent (raftLog ?m) args" using loop(2) by simp
    then show ?thesis
      using ae_merge[OF inv assms(2)] l by (simp add: merged_def)
  qed
qed

text \<open>A leader of term 2 whose first entry conflicts with the committed one.\<close>
definition conflicting_append :: append_entries_args where
  "conflicting_append = sample_append\<lparr>ae_term := 2, ae_entries := [sample_entry 1 2]\<rparr>"

lemma conflicting_append_refused:
  "\<not> aer_success (snd (handleAppendEntries sample_follower conflicting_append)) \<and> ae_wf conflicting_append"
  by code_simp

theorem append_entries_refused_witness:
  "commitIndex (fst (handleAppendEntries sample_follower conflicting_append)) = commitIndex sample_follower"
  using append_entries_refused[OF reachable_follower _ surjective_pairing] conflicting_append_refused by blast

section \<open>Votes\<close>

text \<open>
  A position in a log, the term first, then the index: the order by which the code compares logs.
\<close>
datatype log_position = LogPosition (lp_term: nat) (lp_index: nat)

instantiation log_position :: linorder
begin

definition less_eq_log_position :: "log_position \<Rightarrow> log_position \<Rightarrow> bool" where
  "p \<le> q \<longleftrightarrow> lp_term p < lp_term q \<or> lp_term p = lp_term q \<and> lp_index p \<le> lp_index q"

definition less_log_position :: "log_position \<Rightarrow> log_position \<Rightarrow> bool" where
  "p < q \<longleftrightarrow> lp_term p < lp_term q \<or> lp_term p = lp_term q \<and> lp_index p < lp_index q"

instance
proof
  fix p q r :: log_position
  show "p < q \<longleftrightarrow> p \<le> q \<and> \<not> q \<le> p" "p \<le> p" "p \<le> q \<or> q \<le> p"
    by (auto simp: less_eq_log_position_def less_log_position_def)
  show "p \<le> q \<Longrightarrow> q \<le> r \<Longrightarrow> p \<le> r"
    by (auto simp: less_eq_log_position_def)
  show "p \<le> q \<Longrightarrow> q \<le> p \<Longrightarrow> p = q"
    by (cases p; cases q) (auto simp: less_eq_log_position_def)
qed

end

definition log_end :: "raft_node \<Rightarrow> log_position" where
  "log_end n = LogPosition (getLastTerm (raftLog n)) (getLastIndex (raftLog n))"

lemma isLogUpToDate_order: "isLogUpToDate n i t \<longleftrightarrow> log_end n \<le> LogPosition t i"
  by (auto simp: isLogUpToDate_def log_end_def less_eq_log_position_def Let_def)

text \<open>A vote request is granted exactly when its term is newer, or current and the node has
  not voted for anyone else in it, and the candidate's log ends at least as far as the node's own in
  the order of terms and indices. The answer carries the later of the two terms, and with a disk a
  granted vote is saved before the answer exists.\<close>
theorem request_vote_contract:
  assumes "handleRequestVote n args = (n', r)"
  shows "(rvr_voteGranted r \<longleftrightarrow>
      (currentTerm n < rv_term args \<or>
       currentTerm n = rv_term args \<and> (votedFor n = None \<or> votedFor n = Some (rv_candidateId args))) \<and>
      log_end n \<le> LogPosition (rv_lastLogTerm args) (rv_lastLogIndex args)) \<and>
    rvr_term r = max (currentTerm n) (rv_term args) \<and> currentTerm n' = rvr_term r \<and>
    (rvr_voteGranted r \<and> pkind (store n) = FilePersistence \<longrightarrow>
       ps_currentTerm (loadState (store n')) = rv_term args \<and>
       ps_votedFor (loadState (store n')) = Some (rv_candidateId args))"
proof -
  have same: "isLogUpToDate (becomeFollower n t None None) i u = isLogUpToDate n i u" for t i u
    by (simp add: isLogUpToDate_def getLastTerm_def Let_def)
  have "rvr_voteGranted r \<longleftrightarrow>
      (currentTerm n < rv_term args \<or>
       currentTerm n = rv_term args \<and> (votedFor n = None \<or> votedFor n = Some (rv_candidateId args))) \<and>
      log_end n \<le> LogPosition (rv_lastLogTerm args) (rv_lastLogIndex args)"
    and "rvr_term r = max (currentTerm n) (rv_term args)" and "currentTerm n' = rvr_term r"
    using assms
    by (cases "currentTerm n < rv_term args";
        auto simp: handleRequestVote_def Let_def isLogUpToDate_order[symmetric] same)+
  moreover have "rvr_voteGranted r \<Longrightarrow> vote_saved n' \<and> pkind (store n') = pkind (store n) \<and>
      currentTerm n' = rv_term args \<and> votedFor n' = Some (rv_candidateId args)"
    using handleRequestVote_vote(1)[OF assms] by simp
  ultimately show ?thesis by (simp add: vote_saved_def)
qed

definition sample_vote :: request_vote_args where
  "sample_vote = \<lparr>rv_term = 7, rv_candidateId = ''replica3'', rv_lastLogIndex = 3, rv_lastLogTerm = 1\<rparr>"

theorem request_vote_contract_witness:
  "rvr_term (snd (handleRequestVote sample_follower sample_vote)) = max (currentTerm sample_follower) 7"
  using request_vote_contract[OF surjective_pairing, of sample_follower sample_vote]
  by (simp add: sample_vote_def)

end
