(* ===== verification/Leader_Props.thy ===== *)
theory Leader_Props
  imports Handler_Props
begin

text \<open>
  What a leader does: the index it commits, the messages it sends, when a confirmed read succeeds. The leader of the witnesses is elected by one answer and writes a stroke.
\<close>

section \<open>A sample leader\<close>

definition sample_election :: election where
  "sample_election = \<lparr>el_args = \<lparr>rv_term = 1, rv_candidateId = ''replica1'', rv_lastLogIndex = 0, rv_lastLogTerm = 0\<rparr>,
     el_votesGranted = 1, el_pendingReplies = 2, el_settled = False\<rparr>"

definition sample_leader :: raft_node where
  "sample_leader = run_events sample_node [ElectionTimeout,
     VoteSettled sample_election (Some \<lparr>rvr_term = 1, rvr_voteGranted = True, rvr_responderId = ''replica2''\<rparr>),
     ClientWrite (sample_stroke ''s1''), ClientWrite (sample_stroke ''s2''), ClientWrite (sample_stroke ''s3'')]"

lemma reachable_leader: "reachable sample_leader"
  unfolding sample_leader_def by (rule reachable_run[OF reachable_sample]) simp

lemma sample_leads: "state sample_leader = Leader"
  by code_simp

definition sample_send :: append_entries_args where
  "sample_send = (case replicateOnce sample_leader ''http://replica2'' of SendAppend i args \<Rightarrow> args)"

lemma sample_sends: "replicateOnce sample_leader ''http://replica2'' = SendAppend 1 sample_send"
  by code_simp

section \<open>What a leader sends\<close>

lemma length_getEntriesFrom:
  "lastIncludedIndex l < i \<Longrightarrow> length (getEntriesFrom l i) = Suc (getLastIndex l) - i"
  by (auto simp: getEntriesFrom_def js_slice_def getLastIndex_def Let_def)

lemma getEntriesFrom_nth:
  assumes "lastIncludedIndex l < i" and "i + k \<le> getLastIndex l"
  shows "getEntry l (i + k) = Some (getEntriesFrom l i ! k)"
proof -
  have "i + k - lastIncludedIndex l - 1 = (i - lastIncludedIndex l - 1) + k" "k < length (entries l) - (i - lastIncludedIndex l - 1)"
    using assms by (auto simp: getLastIndex_def)
  then show ?thesis
    using assms(1) by (simp add: getEntriesFrom_def js_slice_def Let_def getEntry_def js_at_def less_diff_conv)
qed

lemma getEntriesFrom_map:
  assumes "lastIncludedIndex l < i"
  shows "getEntriesFrom l i = map (\<lambda>j. the (getEntry l j)) [i..<Suc (getLastIndex l)]"
proof (rule nth_equalityI)
  show "length (getEntriesFrom l i) = length (map (\<lambda>j. the (getEntry l j)) [i..<Suc (getLastIndex l)])"
    using assms by (simp add: length_getEntriesFrom del: upt_Suc)
  fix k assume "k < length (getEntriesFrom l i)"
  then have "i + k < Suc (getLastIndex l)"
    using assms by (simp add: length_getEntriesFrom)
  then show "getEntriesFrom l i ! k = map (\<lambda>j. the (getEntry l j)) [i..<Suc (getLastIndex l)] ! k"
    using assms getEntriesFrom_nth[of l i k] by (simp del: upt_Suc)
qed

lemma entries_from_getEntriesFrom:
  assumes "log_wf l" and "lastIncludedIndex l < i"
  shows "entries_from i (take k (getEntriesFrom l i))"
  unfolding entries_from_nth
  using getEntriesFrom_nth[OF assms(2)] getEntry_index[OF assms(1)]
  by (simp add: length_getEntriesFrom[OF assms(2)] less_diff_conv add.commute)

lemma replicateOnce_SendAppend:
  assumes "replicateOnce n peer = SendAppend i args"
  shows "state n = Leader" and "lastIncludedIndex (raftLog n) < i" and "i = nullish (nextIndex n peer) (getLastIndex (raftLog n) + 1)"
    and "args = \<lparr>ae_term = currentTerm n, ae_leaderId = my_id n, ae_leaderAddr = Some (selfUrl (config n)),
      ae_prevLogIndex = i - 1, ae_prevLogTerm = getTermAt (raftLog n) (i - 1),
      ae_entries = take (batchCap (config n)) (getEntriesFrom (raftLog n) i), ae_leaderCommit = commitIndex n\<rparr>"
  using assms by (auto simp: replicateOnce_def sendInstallSnapshot_def Let_def split: if_splits option.splits)

text \<open>The AppendEntries a leader sends to a peer carries the leader's term and commit index, the
  term of the entry before the peer's next index, and the log from that index on, without a gap, cut
  to the batch cap.\<close>
theorem replication_message:
  assumes "reachable n" and "replicateOnce n peer = SendAppend i args"
  shows "state n = Leader \<and> ae_wf args \<and> ae_term args = currentTerm n \<and> ae_leaderCommit args = commitIndex n \<and>
    ae_prevLogIndex args = i - 1 \<and> ae_prevLogTerm args = getTermAt (raftLog n) (i - 1) \<and>
    ae_entries args = take (batchCap (config n)) (map (\<lambda>j. the (getEntry (raftLog n) j)) [i..<Suc (getLastIndex (raftLog n))]) \<and>
    length (ae_entries args) = min (batchCap (config n)) (Suc (getLastIndex (raftLog n)) - i)"
proof -
  note r = replicateOnce_SendAppend[OF assms(2)]
  have "log_wf (raftLog n)"
    using node_inv_reachable[OF assms(1)] by (simp add: node_inv_def log_inv_def)
  then have "ae_wf args"
    using r(2,4) entries_from_getEntriesFrom by (simp add: ae_wf_def)
  then show ?thesis
    using r(1,2,4) by (simp add: getEntriesFrom_map min.commute del: upt_Suc)
qed

theorem replication_message_witness:
  "length (ae_entries sample_send) = min (batchCap (config sample_leader)) (Suc (getLastIndex (raftLog sample_leader)) - 1)"
  using replication_message[OF reachable_leader sample_sends] by blast

text \<open>What a leader counts as replicated is replicated: after a successful answer the peer's match
  index is the last index sent (or the previous one, when nothing was sent), and the peer's log
  agrees in term with the leader's at every sent index that is beyond the peer's snapshot boundary.\<close>
theorem match_index_is_replicated:
  assumes "reachable n" and "reachable f" and "replicateOnce n v = SendAppend i args"
    and "handleAppendEntries f args = (f', r)" and "aer_success r"
  shows "matchIndex (appendEntries_settled n v i args r) v =
      Some (if ae_entries args = [] then max (nullish (matchIndex n v) 0) (i - 1) else i + length (ae_entries args) - 1) \<and>
    (\<forall>j \<ge> i. j < i + length (ae_entries args) \<and> lastIncludedIndex (raftLog f') < j \<longrightarrow>
       getTermAt (raftLog f') j = getTermAt (raftLog n) j)"
proof -
  note s = replicateOnce_SendAppend[OF assms(3)]
  have wf: "log_wf (raftLog n)"
    using node_inv_reachable[OF assms(1)] by (simp add: node_inv_def log_inv_def)
  have es: "entries_from i (ae_entries args)" and prev: "ae_prevLogIndex args = i - 1" and term_args: "ae_term args = currentTerm n"
    using s(2,4) entries_from_getEntriesFrom[OF wf] by simp_all
  have "ae_wf args" using es prev s(2) by (simp add: ae_wf_def)
  then obtain l where l: "aer_term r = ae_term args"
    "\<And>e. e \<in> set (ae_entries args) \<Longrightarrow> lastIncludedIndex (raftLog f') < e_index e \<Longrightarrow>
       \<exists>x. getEntry (raftLog f') (e_index e) = Some x \<and> e_term x = e_term e"
    using append_entries_facts[OF assms(2) _ assms(4,5)] by blast
  have "getTermAt (raftLog f') j = getTermAt (raftLog n) j"
    if "i \<le> j" "j < i + length (ae_entries args)" and beyond: "lastIncludedIndex (raftLog f') < j" for j
  proof -
    let ?e = "ae_entries args ! (j - i)"
    have k: "j - i < length (ae_entries args)" using that by simp
    then have "i + (j - i) \<le> getLastIndex (raftLog n)" "?e = getEntriesFrom (raftLog n) i ! (j - i)"
      using s(2,4) by (auto simp: length_getEntriesFrom)
    then have "getEntry (raftLog n) (i + (j - i)) = Some ?e"
      using getEntriesFrom_nth[OF s(2)] by simp
    then have held: "getEntry (raftLog n) j = Some ?e" using that(1) by simp
    have idx: "e_index ?e = j"
      using es k that(1) by (simp add: entries_from_nth)
    obtain x where "getEntry (raftLog f') j = Some x" "e_term x = e_term ?e"
      using l(2)[of ?e] k beyond idx by auto
    then show ?thesis
      using held beyond s(2) that(1) by (simp add: getTermAt_def)
  qed
  then show ?thesis
    using l(1) term_args assms(5) prev by (simp add: appendEntries_settled_def Let_def)
qed

theorem match_index_is_replicated_witness:
  "matchIndex (appendEntries_settled sample_leader ''http://replica2'' 1 sample_send
     (snd (handleAppendEntries sample_node sample_send))) ''http://replica2'' = Some 2"
proof -
  have "aer_success (snd (handleAppendEntries sample_node sample_send))" "length (ae_entries sample_send) = 2"
    by code_simp+
  then show ?thesis
    using match_index_is_replicated[OF reachable_leader reachable_sample sample_sends surjective_pairing] by auto
qed

section \<open>What a leader commits\<close>

lemma find_commit_None:
  "find_commit n k = None \<Longrightarrow> commitIndex n < i \<Longrightarrow> i \<le> k \<Longrightarrow> getEntry (raftLog n) i = Some e \<Longrightarrow>
   e_term e = currentTerm n \<Longrightarrow> replicatedCount n i < my_majority n"
  by (induction k) (auto simp: Let_def le_Suc_eq split: if_splits option.splits)

lemma find_commit_top:
  "find_commit n k = Some j \<Longrightarrow> j < i \<Longrightarrow> i \<le> k \<Longrightarrow> getEntry (raftLog n) i = Some e \<Longrightarrow>
   e_term e = currentTerm n \<Longrightarrow> replicatedCount n i < my_majority n"
  by (induction k) (auto simp: Let_def le_Suc_eq split: if_splits option.splits)

definition commit_candidates :: "raft_node \<Rightarrow> nat set" where
  "commit_candidates n = {i. commitIndex n < i \<and> i \<le> getLastIndex (raftLog n) \<and>
     (\<exists>e. getEntry (raftLog n) i = Some e \<and> e_term e = currentTerm n) \<and> my_majority n \<le> replicatedCount n i}"

lemma updateCommitIndex_Max:
  "commitIndex (updateCommitIndex n) =
     (if commit_candidates n = {} then commitIndex n else Max (commit_candidates n))"
proof (cases "find_commit n (getLastIndex (raftLog n))")
  case None
  then have "commit_candidates n = {}"
    using find_commit_None[OF None] by (force simp: commit_candidates_def)
  then show ?thesis using None by (simp add: updateCommitIndex_def)
next
  case (Some j)
  have "j \<in> commit_candidates n"
    using find_commit_Some[OF Some] by (auto simp: commit_candidates_def)
  moreover have "i \<le> j" if "i \<in> commit_candidates n" for i
    using find_commit_top[OF Some, of i] that by (force simp: commit_candidates_def)
  moreover have "finite (commit_candidates n)"
    by (rule finite_subset[of _ "{..getLastIndex (raftLog n)}"]) (auto simp: commit_candidates_def)
  ultimately have "Max (commit_candidates n) = j" by (intro Max_eqI) auto
  then show ?thesis
    using Some \<open>j \<in> commit_candidates n\<close> by (auto simp: updateCommitIndex_def)
qed

text \<open>C10: A leader commits the highest index beyond its commit index that holds an entry of its own
  term and that it counts a majority of the cluster, itself included, to store (their match indexes
  are at or beyond it); when there is none its commit index stays. What it commits it applies at once. (The
  match indexes are what the leader was answered; they are not always what the peers store.)\<close>
theorem commit_rule:
  assumes "reachable n"
  shows "commitIndex (updateCommitIndex n) =
      (if commit_candidates n = {} then commitIndex n else Max (commit_candidates n)) \<and>
    lastApplied (updateCommitIndex n) = commitIndex (updateCommitIndex n)"
  using updateCommitIndex_Max node_inv_updateCommitIndex[OF node_inv_reachable[OF assms]]
  by (simp add: node_inv_def)

theorem commit_rule_witness:
  "lastApplied (updateCommitIndex sample_leader) = commitIndex (updateCommitIndex sample_leader)"
  using commit_rule[OF reachable_leader] by simp

section \<open>Client writes\<close>

lemma updateCommitIndex_reaches:
  assumes "getEntry (raftLog n) i = Some e" and "e_term e = currentTerm n" and "my_majority n \<le> replicatedCount n i"
  shows "i \<le> commitIndex (updateCommitIndex n)"
proof (cases "commitIndex n < i")
  case True
  then have c: "i \<in> commit_candidates n"
    using assms getEntry_Some_iff[of "raftLog n" i] by (auto simp: commit_candidates_def)
  moreover have "finite (commit_candidates n)"
    by (rule finite_subset[of _ "{..getLastIndex (raftLog n)}"]) (auto simp: commit_candidates_def)
  ultimately show ?thesis using updateCommitIndex_Max[of n] by auto
next
  case False
  have "commitIndex n \<le> commitIndex (updateCommitIndex n)"
    by (auto simp: updateCommitIndex_def split: option.split dest: find_commit_Some)
  with False show ?thesis by simp
qed

text \<open>The node and the index of a write that the leader has begun.\<close>
lemma client_write_begin_entry:
  assumes "client_write_begin n stroke = Inr (n1, i)"
  shows "i = getLastIndex (raftLog n) + 1" and "state n1 = Leader" and "currentTerm n1 = currentTerm n"
    and "getEntry (raftLog n1) i = Some \<lparr>e_index = i, e_term = currentTerm n, e_stroke = stroke\<rparr>"
    and "commitIndex n1 = commitIndex n"
  using assms by (auto simp: client_write_begin_def Let_def getEntry_append split: if_splits)

section \<open>Confirmed reads\<close>

lemma confirm_loop_acks:
  "(\<forall>x\<in>set results. \<forall>r. x = Some r \<longrightarrow> hbr_term r \<le> currentTerm n) \<Longrightarrow>
   confirm_loop n results acks = (n, Some (acks + length (filter (\<lambda>x. \<exists>r. x = Some r \<and> hbr_success r) results)))"
  by (induction n results acks rule: confirm_loop.induct) auto

lemma confirm_loop_deposed:
  "x \<in> set results \<Longrightarrow> x = Some r \<Longrightarrow> currentTerm n < hbr_term r \<Longrightarrow> snd (confirm_loop n results acks) = None"
  by (induction n results acks rule: confirm_loop.induct) auto

lemma confirmed_end:
  "snd (confirmLeadership_end m args results) \<longleftrightarrow>
     state m = Leader \<and> currentTerm m = hb_term args \<and>
     (\<forall>x\<in>set results. \<forall>r. x = Some r \<longrightarrow> hbr_term r \<le> currentTerm m) \<and>
     my_majority m \<le> 1 + length (filter (\<lambda>x. \<exists>r. x = Some r \<and> hbr_success r) results)"
proof (cases "\<forall>x\<in>set results. \<forall>r. x = Some r \<longrightarrow> hbr_term r \<le> currentTerm m")
  case True
  from confirm_loop_acks[OF this, of 1] show ?thesis
    using True by (simp add: confirmLeadership_end_def)
next
  case False
  then obtain x r where "x \<in> set results" "x = Some r" "currentTerm m < hbr_term r"
    by (meson not_le_imp_less)
  then have "snd (confirm_loop m results 1) = None" by (rule confirm_loop_deposed)
  then show ?thesis using False by (simp add: confirmLeadership_end_def split_beta)
qed

lemma confirmed_end_stays:
  assumes "snd (confirmLeadership_end m args results)"
  shows "fst (confirmLeadership_end m args results) = m"
proof -
  have "\<forall>x\<in>set results. \<forall>r. x = Some r \<longrightarrow> hbr_term r \<le> currentTerm m"
    using assms confirmed_end by blast
  from confirm_loop_acks[OF this] show ?thesis by (simp add: confirmLeadership_end_def)
qed

lemma confirmed_read:
  "rb_success (snd (readBoardState n bid wait answer)) \<longleftrightarrow>
     state n = Leader \<and> state (wait n) = Leader \<and> currentTerm (wait n) = currentTerm n \<and>
     (let results = map (\<lambda>peer. answer peer (the (confirmLeadership_begin n))) (my_peers n) in
      (\<forall>x\<in>set results. \<forall>r. x = Some r \<longrightarrow> hbr_term r \<le> currentTerm n) \<and>
      my_majority (wait n) \<le> 1 + length (filter (\<lambda>x. \<exists>r. x = Some r \<and> hbr_success r) results))"
  "rb_success (snd (readBoardState n bid wait answer)) \<Longrightarrow> readBoardState n bid wait answer =
     (wait n, \<lparr>rb_success = True, rb_strokes = Some (getStrokes (boards (wait n)) bid), rb_leaderHint = None\<rparr>)"
  "\<not> rb_success (snd (readBoardState n bid wait answer)) \<Longrightarrow> rb_strokes (snd (readBoardState n bid wait answer)) = None"
proof -
  show "rb_success (snd (readBoardState n bid wait answer)) \<longleftrightarrow>
     state n = Leader \<and> state (wait n) = Leader \<and> currentTerm (wait n) = currentTerm n \<and>
     (let results = map (\<lambda>peer. answer peer (the (confirmLeadership_begin n))) (my_peers n) in
      (\<forall>x\<in>set results. \<forall>r. x = Some r \<longrightarrow> hbr_term r \<le> currentTerm n) \<and>
      my_majority (wait n) \<le> 1 + length (filter (\<lambda>x. \<exists>r. x = Some r \<and> hbr_success r) results))"
  proof (cases "state n = Leader")
    case True
    then obtain args where args: "confirmLeadership_begin n = Some args" "hb_term args = currentTerm n"
      by (simp add: confirmLeadership_begin_def)
    then have "rb_success (snd (readBoardState n bid wait answer)) \<longleftrightarrow>
        snd (confirmLeadership_end (wait n) args (map (\<lambda>peer. answer peer args) (my_peers n)))"
      by (simp add: readBoardState_def readBoardState_end_def read_refused_def split_beta)
    then show ?thesis using True args by (auto simp: confirmed_end Let_def)
  qed (simp add: readBoardState_def confirmLeadership_begin_def read_refused_def)
  show "readBoardState n bid wait answer =
     (wait n, \<lparr>rb_success = True, rb_strokes = Some (getStrokes (boards (wait n)) bid), rb_leaderHint = None\<rparr>)"
    if "rb_success (snd (readBoardState n bid wait answer))"
    using that confirmed_end_stays[of "wait n"]
    by (auto simp: readBoardState_def readBoardState_end_def read_refused_def split_beta split: option.splits if_splits)
  show "rb_strokes (snd (readBoardState n bid wait answer)) = None"
    if "\<not> rb_success (snd (readBoardState n bid wait answer))"
    using that by (auto simp: readBoardState_def readBoardState_end_def read_refused_def split_beta split: option.splits if_splits)
qed

text \<open>C23: A read is answered exactly when the node led as it began, still leads in the same term when the
  last of its heartbeats is settled, whatever it handled meanwhile, none of them was answered with a
  later term, and a majority of the cluster (itself included) acknowledged them. The answer is
  the strokes of the board as the leader has them then. A read that is refused hands out no strokes.\<close>
theorem read_is_confirmed:
  "(rb_success (snd (readBoardState n bid wait answer)) \<longleftrightarrow>
     state n = Leader \<and> state (wait n) = Leader \<and> currentTerm (wait n) = currentTerm n \<and>
     (let results = map (\<lambda>peer. answer peer (the (confirmLeadership_begin n))) (my_peers n) in
      (\<forall>x\<in>set results. \<forall>r. x = Some r \<longrightarrow> hbr_term r \<le> currentTerm n) \<and>
      my_majority (wait n) \<le> 1 + length (filter (\<lambda>x. \<exists>r. x = Some r \<and> hbr_success r) results))) \<and>
   rb_strokes (snd (readBoardState n bid wait answer)) =
     (if rb_success (snd (readBoardState n bid wait answer)) then Some (getStrokes (boards (wait n)) bid) else None)"
  using confirmed_read[of n bid wait answer] by fastforce

definition acknowledging :: "url \<Rightarrow> heartbeat_args \<Rightarrow> heartbeat_result option" where
  "acknowledging peer args =
     (if peer = ''http://replica2'' then Some \<lparr>hbr_term = hb_term args, hbr_success = True, hbr_responderId = peer\<rparr> else None)"

text \<open>While the leader of the samples waits, it writes a stroke and is then deposed by a vote of term 2.\<close>
definition sample_deposed :: "raft_node \<Rightarrow> raft_node" where
  "sample_deposed n = run_events n [ClientWrite (sample_stroke ''s4''),
     RequestVote \<lparr>rv_term = 2, rv_candidateId = ''replica3'', rv_lastLogIndex = 9, rv_lastLogTerm = 1\<rparr>]"

theorem read_is_confirmed_witness:
  "rb_strokes (snd (readBoardState sample_leader ''b'' (\<lambda>n. n) acknowledging)) = Some (getStrokes (boards sample_leader) ''b'') \<and>
   rb_strokes (snd (readBoardState sample_leader ''b'' sample_deposed acknowledging)) = None"
proof -
  have "rb_success (snd (readBoardState sample_leader ''b'' (\<lambda>n. n) acknowledging))" by code_simp
  moreover have "\<not> state (sample_deposed sample_leader) = Leader" by code_simp
  then have "\<not> rb_success (snd (readBoardState sample_leader ''b'' sample_deposed acknowledging))"
    using read_is_confirmed by blast
  ultimately show ?thesis
    using read_is_confirmed[of sample_leader "''b''" "\<lambda>n. n" acknowledging]
      read_is_confirmed[of sample_leader "''b''" sample_deposed acknowledging] by simp
qed

end
