(* ===== verification/Client_Writes.thy ===== *)
theory Client_Writes
  imports Leader_Props Votes
begin

text \<open>
  A client write and what happens while it waits. Between the entry that \<open>handleClientWrite\<close> appends
  and the check after a round, any events may come: other writes, votes, messages of leaders, a
  crash. The whole handler is such a run, with its check at the end (\<open>whole_write\<close>). The lemmas say what a leader keeps as long as its term lasts, and that the history of a board only
  grows until a snapshot of another replica replaces it; so what was acknowledged in the term in
  which it was written stays.
\<close>

section \<open>Histories only grow\<close>

text \<open>The strokes, undos and redos a board has applied; no snapshot keeps the board \<open>__proto__\<close>.\<close>
definition in_history :: "raft_node \<Rightarrow> stroke \<Rightarrow> bool" where
  "in_history n s \<longleftrightarrow> s \<in> set (bv_events (board_view_of (boards n) (boardId s)))"

definition history_grows :: "raft_node \<Rightarrow> raft_node \<Rightarrow> bool" where
  "history_grows n n' \<longleftrightarrow> (\<forall>s. boardId s \<noteq> ''__proto__'' \<longrightarrow> in_history n s \<longrightarrow> in_history n' s)"

lemma history_grows_trans: "history_grows n n' \<Longrightarrow> history_grows n' n'' \<Longrightarrow> history_grows n n''"
  by (simp add: history_grows_def)

lemma history_grows_same: "boards n' = boards n \<Longrightarrow> history_grows n n'"
  by (simp add: history_grows_def in_history_def)

lemma view_step_events [simp]: "bv_events (view_step v e) = bv_events v @ [e]"
  by (simp add: view_step_def Let_def split: request.split)

lemma history_grows_apply_next: "history_grows n (apply_next n)"
  by (auto simp: history_grows_def in_history_def apply_next_def applyBoardEvent_view Let_def split: option.split)

lemma history_grows_apply_loop: "history_grows n (apply_loop n)"
proof (induction n rule: apply_loop.induct)
  case (1 n)
  then show ?case
    using history_grows_trans[OF history_grows_apply_next]
    by (subst apply_loop.simps) (auto intro: history_grows_same)
qed

lemma boards_applyCommitted: "boards (applyCommitted n) = boards (apply_loop n)"
  by (simp add: applyCommitted_def maybeSnapshot_def)

lemma history_grows_applyCommitted: "history_grows n (applyCommitted n)"
  using history_grows_apply_loop[of n] by (simp add: history_grows_def in_history_def boards_applyCommitted)

lemma history_grows_follow_commit: "history_grows n (follow_commit n c)"
proof -
  have "history_grows n (applyCommitted (persistState (n\<lparr>commitIndex := i\<rparr>)))" for i
    by (rule history_grows_trans[OF history_grows_same history_grows_applyCommitted]) simp
  then show ?thesis by (auto simp: follow_commit_def intro: history_grows_same)
qed

lemma history_grows_updateCommitIndex: "history_grows n (updateCommitIndex n)"
proof -
  have "history_grows n (applyCommitted (persistState (n\<lparr>commitIndex := i\<rparr>)))" for i
    by (rule history_grows_trans[OF history_grows_same history_grows_applyCommitted]) simp
  then show ?thesis by (auto simp: updateCommitIndex_def intro: history_grows_same split: option.split)
qed

text \<open>The events that bring no boards of another replica.\<close>
fun own_boards :: "node_event \<Rightarrow> bool" where
  "own_boards (InstallSnapshot args) \<longleftrightarrow> False"
| "own_boards (CatchUpSettled result) \<longleftrightarrow> slr_snapshot result = None"
| "own_boards _ \<longleftrightarrow> True"

lemma boards_vote_settled: "boards (fst (vote_settled n el reply)) = boards n"
proof -
  have f: "boards (fst (finalizeElection m e)) = boards m" for m e
    by (simp add: finalizeElection_def becomeLeader_def Let_def)
  then have "boards (fst (vote_finally m e)) = boards m" for m e
    by (simp add: vote_finally_def Let_def)
  moreover have "boards (fst (vote_then m e r)) = boards m" for m e r
    by (simp add: vote_then_def f Let_def)
  ultimately show ?thesis
    by (cases reply) (simp_all add: vote_settled_def split_beta)
qed

lemma boards_runElection: "boards (fst (runElection n)) = boards n"
  by (simp add: runElection_def finalizeElection_def becomeLeader_def becomeCandidate_def Let_def)

lemma boards_drive_peers: "boards (fst (drive_peers n ps)) = boards n"
  by (induction ps arbitrary: n) (simp_all add: split_beta driveReplication_def Let_def)

lemma boards_confirm_loop: "boards (fst (confirm_loop n results acks)) = boards n"
  by (induction n results acks rule: confirm_loop.induct) simp_all

lemma history_grows_handleAppendEntries: "history_grows n (fst (handleAppendEntries n args))"
proof -
  have "history_grows n (follow_commit ((accept_leader n t l a)\<lparr>raftLog := lg\<rparr>) c)" for t l a lg c
    by (rule history_grows_trans[OF history_grows_same history_grows_follow_commit]) simp
  then show ?thesis
    by (auto simp: handleAppendEntries_def Let_def intro: history_grows_same split: sum.split)
qed

lemma history_grows_handleHeartbeat: "history_grows n (fst (handleHeartbeat n args))"
proof -
  have "history_grows n (follow_commit (accept_leader n t l a) c)" for t l a c
    by (rule history_grows_trans[OF history_grows_same history_grows_follow_commit]) simp
  then show ?thesis by (auto simp: handleHeartbeat_def Let_def intro: history_grows_same)
qed

lemma history_grows_catch_up:
  assumes "slr_snapshot r = None"
  shows "history_grows n (catch_up_apply n r)"
proof -
  have "history_grows n (follow_commit (m\<lparr>raftLog := lg\<rparr>) c)" if "boards m = boards n" for m lg c
    by (rule history_grows_trans[OF history_grows_same history_grows_follow_commit]) (simp add: that)
  then show ?thesis using assms by (simp add: catch_up_apply_def Let_def)
qed

lemma history_grows_deliver:
  assumes "node_inv n" and "pkind (store n) = FilePersistence" and "own_boards e"
  shows "history_grows n (deliver n e)"
proof (cases e)
  case (WriteRoundSettled i latency)
  have "history_grows n ((updateCommitIndex n)\<lparr>nodeMetrics := m\<rparr>)" for m
    by (rule history_grows_trans[OF history_grows_updateCommitIndex history_grows_same]) simp
  with WriteRoundSettled show ?thesis
    by (auto simp: client_write_check_def Let_def intro: history_grows_same split: option.split)
next
  case (CrashRestart tm m)
  then have "same_boards (boards (deliver n e)) (boards n)"
    using reopened(8)[OF assms(1,2) refl] by simp
  then show ?thesis by (simp add: history_grows_def in_history_def same_boards_def)
qed (use assms in \<open>auto simp: history_grows_handleAppendEntries history_grows_handleHeartbeat history_grows_catch_up
      history_grows_updateCommitIndex sendHeartbeats_end_def sendHeartbeats_begin_def onElectionTimeout_def
      confirmLeadership_end_def client_write_begin_def handleRequestVote_def handleSyncLog_def replication_settled_def
      appendEntries_settled_def installSnapshot_settled_def boards_runElection boards_drive_peers
      boards_confirm_loop boards_vote_settled split_beta Let_def
      intro!: history_grows_same split: option.split replication.split rpc_outcome.split\<close>)

section \<open>A committed entry is in the history\<close>

lemma history_foldl:
  "s \<in> set es \<or> s \<in> set (bv_events (board_view_of bs (boardId s))) \<Longrightarrow>
   s \<in> set (bv_events (board_view_of (foldl applyBoardEvent bs es) (boardId s)))"
proof (induction es arbitrary: bs)
  case (Cons e es)
  show ?case
    using Cons.prems by (simp, intro Cons.IH) (auto simp: applyBoardEvent_view)
qed simp

lemma upto_index_mem:
  assumes "getEntry l i = Some e" and "i \<le> c"
  shows "e \<in> set (upto_index l c)"
proof -
  let ?k = "i - lastIncludedIndex l - 1"
  have k: "lastIncludedIndex l < i" "?k < length (entries l)" "entries l ! ?k = e"
    using assms(1) by (auto simp: getEntry_def js_at_def split: if_splits)
  then have "?k < c - lastIncludedIndex l" using assms(2) by simp
  with k show ?thesis
    by (metis upto_index_def length_take min_less_iff_conj nth_mem nth_take)
qed

lemma applied_in_history:
  assumes "boards_inv n" and "pkind (store n) = FilePersistence" and "boardId (e_stroke e) \<noteq> ''__proto__''"
    and "getEntry (raftLog n) i = Some e" and "i \<le> lastApplied n"
  shows "in_history n (e_stroke e)"
proof -
  have "e_stroke e \<in> set (map e_stroke (upto_index (raftLog n) (lastApplied n)))"
    using upto_index_mem[OF assms(4,5)] by simp
  from history_foldl[OF disjI1[OF this]] show ?thesis
    using assms(1-3) by (simp add: boards_inv_def same_boards_def in_history_def replayed_def)
qed

lemma updated_in_history:
  assumes "node_inv n" and "pkind (store n) = FilePersistence" and "boardId (e_stroke e) \<noteq> ''__proto__''"
    and held: "commitIndex n < i \<Longrightarrow> getEntry (raftLog n) i = Some e"
    and before: "i \<le> commitIndex n \<Longrightarrow> in_history n (e_stroke e)"
    and "i \<le> commitIndex (updateCommitIndex n)"
  shows "in_history (updateCommitIndex n) (e_stroke e)"
proof (cases "i \<le> commitIndex n")
  case True
  then show ?thesis
    using before history_grows_updateCommitIndex[of n] assms(3) by (simp add: history_grows_def)
next
  case False
  then obtain j where j: "find_commit n (getLastIndex (raftLog n)) = Some j"
    using assms(6) by (auto simp: updateCommitIndex_def split: option.splits)
  let ?n = "persistState (n\<lparr>commitIndex := j\<rparr>)"
  have "log_inv (n\<lparr>commitIndex := j\<rparr>)" "boards_inv (n\<lparr>commitIndex := j\<rparr>)"
    using assms(1) find_commit_Some[OF j] by (auto simp: node_inv_def log_inv_def)
  then have "log_inv ?n" "boards_inv ?n" by simp_all
  from apply_loop_inv[OF this] have a: "boards_inv (apply_loop ?n)" "lastApplied (apply_loop ?n) = j"
    "raftLog (apply_loop ?n) = raftLog ?n" by simp_all
  have "i \<le> j" using assms(6) j by (simp add: updateCommitIndex_def)
  then have "in_history (apply_loop ?n) (e_stroke e)"
    using False a assms(2,3) held by (intro applied_in_history) simp_all
  then show ?thesis
    using j by (simp add: updateCommitIndex_def in_history_def boards_applyCommitted)
qed

section \<open>A leader in its term\<close>

lemma kept_on_disk: "pkind (store n) = FilePersistence \<Longrightarrow> keeps_store n ev"
  by (cases ev) simp_all

text \<open>Within a term the role of a node that is no candidate does not change, but for stepping down.\<close>
lemma role_stays:
  assumes "state n \<noteq> Candidate" and "currentTerm (deliver n ev) = currentTerm n"
    and "node_inv n" and "keeps_store n ev"
  shows "state (deliver n ev) = state n \<or> state (deliver n ev) = Follower"
proof (cases ev)
  case ElectionTimeout
  have "currentTerm (fst (runElection m)) = Suc (currentTerm m)" for m
    using runElection_vote(2)[of m] by (cases "runElection m") simp
  with ElectionTimeout assms(2) show ?thesis
    by (auto simp: onElectionTimeout_def Let_def split_beta split: if_splits)
next
  case (RequestVote args)
  obtain n' r where h: "handleRequestVote n args = (n', r)" by fastforce
  show ?thesis
    using handleRequestVote_vote[OF h] RequestVote h assms(2)
    by (cases "rvr_voteGranted r") (auto simp: quiet_def)
next
  case (VoteSettled el reply)
  obtain n' el' where h: "vote_settled n el reply = (n', el')" by fastforce
  then show ?thesis
    using vote_settled_vote(1)[OF h] VoteSettled assms(1) by (auto simp: quiet_def wins_def)
next
  case HeartbeatTick
  have "state (fst (drive_peers m ps)) = state m" for m ps
    by (induction ps arbitrary: m) (simp_all add: split_beta driveReplication_def Let_def)
  then show ?thesis using HeartbeatTick by (simp add: sendHeartbeats_begin_def)
next
  case HeartbeatsSettled
  then show ?thesis using quiet_updateCommitIndex[of n] by (auto simp: sendHeartbeats_end_def quiet_def)
next
  case (ClientWrite stroke)
  then show ?thesis by (auto split: sum.split dest: quiet_client_write_begin simp: quiet_def)
next
  case (WriteRoundSettled i latency)
  then show ?thesis by (auto split: option.split dest: quiet_client_write_check simp: quiet_def)
next
  case (AppendEntries args)
  then show ?thesis using follows_handleAppendEntries[of n args] by (auto simp: follows_def quiet_def)
next
  case (Heartbeat args)
  then show ?thesis using follows_handleHeartbeat[of n args] by (auto simp: follows_def quiet_def)
next
  case (InstallSnapshot args)
  then show ?thesis using follows_handleInstallSnapshot[of n args] by (auto simp: follows_def quiet_def)
next
  case (SyncLog args)
  then show ?thesis using quiet_handleSyncLog[of n args] by (auto simp: quiet_def)
next
  case (ReplicationSettled peer r outcome)
  then show ?thesis using quiet_replication_settled[of n peer r outcome] by (auto simp: quiet_def)
next
  case (ReadSettled args results)
  then show ?thesis using quiet_confirmLeadership_end[of n args results] by (auto simp: quiet_def)
next
  case (CatchUpSettled result)
  then show ?thesis using quiet_catch_up_apply[of n result] by (auto simp: quiet_def)
next
  case (CrashRestart tm m)
  then show ?thesis using reopened(5)[OF assms(3) _ refl] assms(4) by simp
qed

text \<open>
  What an event does to a node that still leads in the same term afterwards: the log and the
  commit index stay, but for a write that is appended and entries that are committed.
\<close>
definition same_log :: "raft_node \<Rightarrow> raft_node \<Rightarrow> bool" where
  "same_log n n' \<longleftrightarrow> entries (raftLog n') = entries (raftLog n) \<and>
     lastIncludedIndex (raftLog n') = lastIncludedIndex (raftLog n) \<and>
     commitIndex n' = commitIndex n \<and> boards n' = boards n"

lemma same_log_refl [simp]: "same_log n n"
  by (simp add: same_log_def)

lemma same_log_frame: "same_log n n' \<Longrightarrow> getLastIndex (raftLog n') = getLastIndex (raftLog n)"
  "same_log n n' \<Longrightarrow> getEntry (raftLog n') i = getEntry (raftLog n) i"
  by (simp_all add: same_log_def getLastIndex_def getEntry_def)

lemma not_led: "state (accept_leader n t l a) = Leader \<Longrightarrow> False"
  by (auto simp: accept_leader_def becomeFollower_def Let_def split: if_splits)

lemma same_log_drive_peers: "same_log n (fst (drive_peers n ps))"
proof -
  have "same_log m (fst (drive_peers n ps))" if "same_log m n" for m
    using that by (induction ps arbitrary: n) (simp_all add: split_beta driveReplication_def same_log_def Let_def)
  then show ?thesis by simp
qed

lemma confirm_loop_leads: "state (fst (confirm_loop n results acks)) = Leader \<Longrightarrow> fst (confirm_loop n results acks) = n"
  by (induction n results acks rule: confirm_loop.induct) (auto split: if_splits)

lemma leader_vote_settled:
  "state n = Leader \<Longrightarrow> fst (vote_settled n el reply) = n"
  by (cases reply)
    (auto simp: vote_settled_def vote_then_def vote_finally_def finalizeElection_def Let_def split: if_splits)

text \<open>An event other than the answer to a catch-up request.\<close>
fun no_catch_up :: "node_event \<Rightarrow> bool" where
  "no_catch_up (CatchUpSettled result) \<longleftrightarrow> False"
| "no_catch_up _ \<longleftrightarrow> True"

lemma leader_keeps:
  assumes "state n = Leader" and "state (deliver n ev) = Leader" and "no_catch_up ev"
    and "node_inv n" and "keeps_store n ev"
  obtains (same) "same_log n (deliver n ev)"
    | (wrote) stroke i where "client_write_begin n stroke = Inr (deliver n ev, i)"
    | (committed) m where "deliver n ev = (updateCommitIndex n)\<lparr>nodeMetrics := m\<rparr>"
proof (cases ev)
  case ElectionTimeout
  with assms(1) show ?thesis by (intro same) (simp add: onElectionTimeout_def same_log_def)
next
  case (RequestVote args)
  with assms(1,2) show ?thesis
    by (intro same) (auto simp: handleRequestVote_def becomeFollower_def same_log_def Let_def split: if_splits)
next
  case (AppendEntries args)
  show ?thesis
  proof (cases "ae_term args < currentTerm n")
    case True
    with AppendEntries show ?thesis by (intro same) (simp add: handleAppendEntries_def)
  next
    case False
    with AppendEntries assms(2) have "state (accept_leader n (ae_term args) (ae_leaderId args) (ae_leaderAddr args)) = Leader"
      by (auto simp: handleAppendEntries_def Let_def split: if_splits sum.splits)
    then show ?thesis using not_led by blast
  qed
next
  case (Heartbeat args)
  then show ?thesis
    using assms(2) not_led[of n] by (intro same) (auto simp: handleHeartbeat_def Let_def split: if_splits)
next
  case (InstallSnapshot args)
  then show ?thesis
    using assms(2) not_led[of n] by (intro same) (auto simp: handleInstallSnapshot_def Let_def split: if_splits)
next
  case (SyncLog args)
  then have "deliver n ev = (if sl_term args > currentTerm n then becomeFollower n (sl_term args) None None else n)"
    by (simp add: handleSyncLog_def Let_def split: option.split)
  with assms(2) show ?thesis by (intro same) (auto split: if_splits)
next
  case (VoteSettled el reply)
  then show ?thesis using leader_vote_settled[OF assms(1)] by (intro same) simp
next
  case HeartbeatTick
  then show ?thesis by (intro same) (simp add: sendHeartbeats_begin_def same_log_drive_peers)
next
  case (ReplicationSettled peer r outcome)
  with assms(2) show ?thesis
    by (intro same) (auto simp: replication_settled_def appendEntries_settled_def installSnapshot_settled_def
        same_log_def Let_def split: replication.splits rpc_outcome.splits if_splits)
next
  case HeartbeatsSettled
  with assms(1) show ?thesis by (intro committed[of "nodeMetrics (updateCommitIndex n)"]) (simp add: sendHeartbeats_end_def)
next
  case (ClientWrite stroke)
  with assms(1) show ?thesis
    by (intro wrote) (auto simp: client_write_begin_def Let_def)
next
  case (WriteRoundSettled i latency)
  show ?thesis
  proof (cases "my_majority n \<le> replicatedCount n i")
    case True
    with WriteRoundSettled assms(1) show ?thesis
      by (intro committed[of "observeWriteLatency (nodeMetrics (updateCommitIndex n)) latency"])
        (simp add: client_write_check_def Let_def)
  next
    case False
    with WriteRoundSettled assms(1) show ?thesis by (intro same) (simp add: client_write_check_def)
  qed
next
  case (ReadSettled args results)
  with assms(2) show ?thesis
    using confirm_loop_leads[of n results 1] by (intro same) (simp add: confirmLeadership_end_def split_beta)
next
  case (CatchUpSettled result)
  with assms(3) show ?thesis by simp
next
  case (CrashRestart tm m)
  with assms(2,5) reopened(5)[OF assms(4) _ refl] show ?thesis by simp
qed


section \<open>The whole write\<close>

text \<open>
  \<open>handleClientWrite\<close> waits for whatever happens until its calls are settled: any events of the same
  process, so no restart (the handler would not go on), and no answer to a catch-up request that the node made before
  it was elected (\<open>catch_up_apply\<close> does not look at the role and may cut the leader's log).
\<close>
definition meantime :: "raft_node \<Rightarrow> raft_node \<Rightarrow> bool" where
  "meantime m m' \<longleftrightarrow> (\<exists>es. m' = run_events m es \<and> events_wf m es \<and> list_all (\<lambda>ev. no_catch_up ev \<and> stays_up ev) es)"

lemma meantime_trans: "meantime m m' \<Longrightarrow> meantime m' m'' \<Longrightarrow> meantime m m''"
proof -
  have run: "run_events m (es @ fs) = run_events (run_events m es) fs" for m es fs by (induction es arbitrary: m) simp_all
  have wf: "events_wf m (es @ fs) \<longleftrightarrow> events_wf m es \<and> events_wf (run_events m es) fs" for m es fs
    by (induction es arbitrary: m) simp_all
  show "meantime m m' \<Longrightarrow> meantime m' m'' \<Longrightarrow> meantime m m''"
    unfolding meantime_def by (metis run wf list_all_append)
qed

lemma meantime_refl: "meantime m m"
  by (auto simp: meantime_def intro: exI[of _ "[]"])

lemma meantime_drive:
  assumes "state m = Leader"
  shows "meantime m (fst (drive_peers m (my_peers m)))"
  unfolding meantime_def using assms
  by (intro exI[of _ "[HeartbeatTick]"]) (simp add: sendHeartbeats_begin_def)

text \<open>A write is the run of the events of its waits, with the check after a round at its end.\<close>
lemma attempts_run:
  assumes "state n = Leader" and "\<forall>k sends m. meantime m (wait k sends m)"
    and "client_write_attempts n i latency wait k = (n', r)"
  obtains m where "meantime n m"
    and "client_write_check m i latency = Some (n', r) \<or> \<not> cw_success r \<and> n' = m \<and> state m = Leader"
  using assms
proof (induction k arbitrary: n thesis)
  case 0
  then show ?case using meantime_refl[of n] by fastforce
next
  case (Suc k)
  obtain n1 sends where d: "drive_peers n (my_peers n) = (n1, sends)" by fastforce
  let ?m = "wait (maxRetries - Suc k) sends n1"
  have m: "meantime n ?m"
    using meantime_trans[of n n1 ?m] Suc.prems(3) meantime_drive[OF Suc.prems(2)] d by simp
  show ?case
  proof (cases "client_write_check ?m i latency")
    case (Some x)
    then show ?thesis using Suc.prems(1)[OF m] Suc.prems(4) d by simp
  next
    case None
    then have "state ?m = Leader" by (auto simp: client_write_check_def split: if_splits)
    moreover have "client_write_attempts ?m i latency wait k = (n', r)" using Suc.prems(4) None d by simp
    ultimately obtain m' where "meantime ?m m'"
      "client_write_check m' i latency = Some (n', r) \<or> \<not> cw_success r \<and> n' = m' \<and> state m' = Leader"
      using Suc.IH[OF _ _ Suc.prems(3)] by blast
    then show ?thesis using Suc.prems(1) meantime_trans[OF m] by blast
  qed
qed

definition holds_write :: "nat \<Rightarrow> log_entry \<Rightarrow> raft_node \<Rightarrow> bool" where
  "holds_write i e n \<longleftrightarrow> (lastIncludedIndex (raftLog n) < i \<longrightarrow> getEntry (raftLog n) i = Some e)"

text \<open>As long as the term \<open>T\<close> lasts, a node that led holds the entry it wrote, or leads no more.\<close>
definition reign :: "nat \<Rightarrow> nat \<Rightarrow> log_entry \<Rightarrow> raft_node \<Rightarrow> bool" where
  "reign T i e n \<longleftrightarrow> node_inv n \<and> T \<le> currentTerm n \<and>
     (currentTerm n = T \<longrightarrow> state n = Follower \<or> state n = Leader \<and> holds_write i e n)"

lemma holds_write_update: "node_inv n \<Longrightarrow> holds_write i e n \<Longrightarrow> holds_write i e (updateCommitIndex n)"
  using updateCommitIndex_log[of n i] moves_on_updateCommitIndex[of n]
  by (auto simp: holds_write_def moves_on_def)

lemma holds_write_begin:
  assumes "holds_write i e n" and "client_write_begin n stroke = Inr (n', j)"
  shows "holds_write i e n'"
  using assms getEntry_Some_iff[of "raftLog n" i]
  by (auto simp: holds_write_def client_write_begin_def Let_def getEntry_append split: if_splits)

lemma holds_write_deliver:
  assumes "holds_write i e n" and "state n = Leader" and "state (deliver n ev) = Leader" and "no_catch_up ev"
    and "node_inv n" and "keeps_store n ev"
  shows "holds_write i e (deliver n ev)"
  using assms(2-6)
proof (cases rule: leader_keeps)
  case same
  then show ?thesis
    using assms(1) by (simp add: holds_write_def same_log_frame(2)) (simp add: same_log_def)
next
  case (wrote stroke j)
  with assms(1) show ?thesis by (rule holds_write_begin)
next
  case (committed m)
  then show ?thesis
    using holds_write_update[OF assms(5,1)] by (simp add: holds_write_def)
qed

lemma reign_deliver:
  assumes "reign T i e n" and "event_wf n ev" and "no_catch_up ev" and "keeps_store n ev"
  shows "reign T i e (deliver n ev)"
proof -
  have n: "node_inv n" "T \<le> currentTerm n"
    "currentTerm n = T \<Longrightarrow> state n = Follower \<or> state n = Leader \<and> holds_write i e n"
    using assms(1) by (auto simp: reign_def)
  have grows: "currentTerm n \<le> currentTerm (deliver n ev)"
    using moves_on_deliver[OF n(1) assms(2,4)] by (simp add: moves_on_def)
  have "state (deliver n ev) = Follower \<or> state (deliver n ev) = Leader \<and> holds_write i e (deliver n ev)"
    if "currentTerm (deliver n ev) = T"
  proof -
    have same: "currentTerm (deliver n ev) = currentTerm n" "currentTerm n = T" using that grows n(2) by simp_all
    from n(3)[OF same(2)] have role: "state n \<noteq> Candidate" "state n = Leader \<Longrightarrow> holds_write i e n" by auto
    show ?thesis
      using role_stays[OF role(1) same(1) n(1) assms(4)] n(3)[OF same(2)]
        holds_write_deliver[OF role(2) _ _ assms(3) n(1) assms(4)] by auto
  qed
  then show ?thesis
    using n grows node_inv_deliver[OF n(1) assms(2)] by (simp add: reign_def)
qed

lemma reign_meantime:
  assumes "reign T i e n" and "meantime n m"
  shows "reign T i e m"
proof -
  obtain es where "m = run_events n es" "events_wf n es" "list_all (\<lambda>ev. no_catch_up ev \<and> stays_up ev) es"
    using assms(2) by (auto simp: meantime_def)
  moreover have "keeps_store n ev" if "stays_up ev" for n ev using that by (cases ev) simp_all
  ultimately show ?thesis
    using assms(1) by (induction es arbitrary: n) (simp_all add: reign_deliver)
qed

lemma reign_begun:
  assumes "reachable n" and "client_write_begin n s = Inr (n1, i)"
  shows "reign (currentTerm n) i \<lparr>e_index = i, e_term = currentTerm n, e_stroke = s\<rparr> n1"
  using client_write_begin_entry[OF assms(2)] node_inv_client_write_begin[OF node_inv_reachable[OF assms(1)] assms(2)]
  by (simp add: reign_def holds_write_def)

lemma whole_write:
  assumes "reachable n" and "state n = Leader" and "\<forall>k sends m. meantime m (wait k sends m)"
    and "handleClientWrite n s latency wait = (n', r)"
  obtains m where "reign (currentTerm n) (getLastIndex (raftLog n) + 1)
      \<lparr>e_index = getLastIndex (raftLog n) + 1, e_term = currentTerm n, e_stroke = s\<rparr> m"
    and "client_write_check m (getLastIndex (raftLog n) + 1) latency = Some (n', r) \<or> \<not> cw_success r \<and> n' = m \<and> state m = Leader"
proof -
  obtain n1 i where b: "client_write_begin n s = Inr (n1, i)"
    and a: "client_write_attempts n1 i latency wait maxRetries = (n', r)"
    using assms(2,4) by (auto simp: handleClientWrite_def client_write_begin_def Let_def)
  note e = client_write_begin_entry[OF b]
  from attempts_run[OF e(2) assms(3) a] obtain m where m: "meantime n1 m"
    "client_write_check m i latency = Some (n', r) \<or> \<not> cw_success r \<and> n' = m \<and> state m = Leader" by blast
  show ?thesis using that reign_meantime[OF reign_begun[OF assms(1) b] m(1)] m(2) e(1) by blast
qed

lemma client_write_counted:
  assumes "reachable n" and "\<forall>k sends m. meantime m (wait k sends m)"
    and "handleClientWrite n s latency wait = (n', r)" and "cw_success r"
  shows "state n = Leader \<and> state n' = Leader \<and> currentTerm n \<le> currentTerm n' \<and>
    my_majority n' \<le> replicatedCount n' (getLastIndex (raftLog n) + 1) \<and> lastApplied n' = commitIndex n' \<and>
    (currentTerm n' = currentTerm n \<longrightarrow> getLastIndex (raftLog n) < commitIndex n' \<and>
      (lastIncludedIndex (raftLog n') \<le> getLastIndex (raftLog n) \<longrightarrow>
         getEntry (raftLog n') (getLastIndex (raftLog n) + 1) =
           Some \<lparr>e_index = getLastIndex (raftLog n) + 1, e_term = currentTerm n, e_stroke = s\<rparr>))"
proof -
  let ?i = "getLastIndex (raftLog n) + 1" and ?e = "\<lparr>e_index = getLastIndex (raftLog n) + 1, e_term = currentTerm n, e_stroke = s\<rparr>"
  have lead: "state n = Leader"
    using assms(3,4) by (auto simp: handleClientWrite_def client_write_begin_def split: if_splits)
  from whole_write[OF assms(1) lead assms(2,3)] assms(4) obtain m where m: "reign (currentTerm n) ?i ?e m"
    and c: "client_write_check m ?i latency = Some (n', r)" by blast
  have n': "state m = Leader" "my_majority m \<le> replicatedCount m ?i"
    "n' = (updateCommitIndex m)\<lparr>nodeMetrics := observeWriteLatency (nodeMetrics (updateCommitIndex m)) latency\<rparr>"
    using c assms(4) by (auto simp: client_write_check_def Let_def split: if_splits)
  have inv: "node_inv m" "node_inv (updateCommitIndex m)" using m node_inv_updateCommitIndex by (auto simp: reign_def)
  have same: "state (updateCommitIndex m) = Leader" "currentTerm (updateCommitIndex m) = currentTerm m"
    "my_majority (updateCommitIndex m) = my_majority m" "replicatedCount (updateCommitIndex m) ?i = replicatedCount m ?i"
    using n'(1) by (simp_all add: updateCommitIndex_def replicatedCount_def split: option.split)
  have here: "holds_write ?i ?e (updateCommitIndex m) \<and> ?i \<le> commitIndex (updateCommitIndex m)" if "currentTerm m = currentTerm n"
  proof -
    have h: "holds_write ?i ?e m" using m that n'(1) by (auto simp: reign_def)
    have "?i \<le> commitIndex (updateCommitIndex m)"
    proof (cases "lastIncludedIndex (raftLog m) < ?i")
      case True
      then show ?thesis using h that n'(2) by (intro updateCommitIndex_reaches[of _ _ ?e]) (auto simp: holds_write_def)
    next
      case False
      then show ?thesis
        using inv(1) moves_on_updateCommitIndex[OF inv(1)] by (auto simp: moves_on_def node_inv_def log_inv_def)
    qed
    with holds_write_update[OF inv(1) h] show ?thesis by simp
  qed
  have r: "replicatedCount (x\<lparr>nodeMetrics := y\<rparr>) ?i = replicatedCount x ?i" for x y by (simp add: replicatedCount_def)
  have "currentTerm n \<le> currentTerm m" using m by (simp add: reign_def)
  then show ?thesis
    using lead n' same inv(2) here r by (auto simp: node_inv_def holds_write_def)
qed

text \<open>C8: A client write that succeeds. Let a leader handle a write, and let anything happen at its three awaits
  (answers of peers, other writes, votes, messages of other leaders; not the late answer to a catch-up
  request). If it reports success, it was the leader as the write began and is the leader at the end, it
  counts a majority of the cluster to store the index of the entry, and it has applied everything up to
  its commit index; and if its term is still the one in which the write began, the entry is committed, and in
  its log unless that has become part of a snapshot. (Without the last condition the entry may be gone: the code
  does not check the term.)\<close>
theorem client_write_succeeds:
  assumes "reachable n" and "\<forall>k sends m. meantime m (wait k sends m)"
    and "handleClientWrite n s latency wait = (n', r)" and "cw_success r"
  shows "state n = Leader \<and> state n' = Leader \<and> currentTerm n \<le> currentTerm n' \<and>
    my_majority n' \<le> replicatedCount n' (getLastIndex (raftLog n) + 1) \<and> lastApplied n' = commitIndex n' \<and>
    (currentTerm n' = currentTerm n \<longrightarrow> getLastIndex (raftLog n) < commitIndex n' \<and>
      (lastIncludedIndex (raftLog n') \<le> getLastIndex (raftLog n) \<longrightarrow>
         getEntry (raftLog n') (getLastIndex (raftLog n) + 1) =
           Some \<lparr>e_index = getLastIndex (raftLog n) + 1, e_term = currentTerm n, e_stroke = s\<rparr>))"
  using client_write_counted[OF assms] .

text \<open>Peers that acknowledge whatever they are sent; and a wait in which another write comes and a vote is asked before they do.\<close>
definition accepting :: "nat \<Rightarrow> url \<Rightarrow> replication \<Rightarrow> rpc_outcome" where
  "accepting attempt peer r =
     (case r of
        SendAppend i args \<Rightarrow> AppendResult \<lparr>aer_term = ae_term args, aer_success = True,
          aer_responderId = peer, aer_currentLogLength = 0\<rparr>
      | _ \<Rightarrow> RpcFailed)"

definition busy_wait :: write_wait where
  "busy_wait attempt sends m = quiet_wait accepting attempt sends (run_events m [ClientWrite (sample_stroke ''s5''),
     RequestVote \<lparr>rv_term = 1, rv_candidateId = ''replica3'', rv_lastLogIndex = 0, rv_lastLogTerm = 0\<rparr>])"

lemma meantime_quiet: "meantime m (quiet_wait answer attempt sends m)"
proof -
  have "quiet_wait answer attempt sends m = run_events m (map (\<lambda>(peer, r). ReplicationSettled peer r (answer attempt peer r)) sends) \<and>
      events_wf m (map (\<lambda>(peer, r). ReplicationSettled peer r (answer attempt peer r)) sends)"
    by (induction sends arbitrary: m) (auto simp: quiet_wait_def)
  then show ?thesis
    unfolding meantime_def
    by (intro exI[of _ "map (\<lambda>(peer, r). ReplicationSettled peer r (answer attempt peer r)) sends"]) (auto simp: list_all_iff)
qed

lemma meantime_busy: "meantime m (busy_wait attempt sends m)"
  unfolding busy_wait_def by (rule meantime_trans[OF _ meantime_quiet]) (auto simp: meantime_def
    intro: exI[of _ "[ClientWrite (sample_stroke ''s5''),
     RequestVote \<lparr>rv_term = 1, rv_candidateId = ''replica3'', rv_lastLogIndex = 0, rv_lastLogTerm = 0\<rparr>]"])

theorem client_write_succeeds_witness:
  "getLastIndex (raftLog sample_leader) <
     commitIndex (fst (handleClientWrite sample_leader (sample_stroke ''s4'') 7 busy_wait))"
proof -
  have "cw_success (snd (handleClientWrite sample_leader (sample_stroke ''s4'') 7 busy_wait)) \<and>
      currentTerm (fst (handleClientWrite sample_leader (sample_stroke ''s4'') 7 busy_wait)) = currentTerm sample_leader"
    by code_simp
  then show ?thesis
    using client_write_succeeds[OF reachable_leader _ surjective_pairing] meantime_busy by blast
qed

text \<open>A client write that a leader reports as failed after its three rounds is not withdrawn: if the leader leads
  on in its term the entry is in its log, and a later round may still commit it.\<close>
theorem client_write_fails:
  assumes "reachable n" and "state n = Leader" and "\<forall>k sends m. meantime m (wait k sends m)"
    and "handleClientWrite n s latency wait = (n', r)" and "\<not> cw_success r" and "state n' = Leader" and "currentTerm n' = currentTerm n"
  shows "lastIncludedIndex (raftLog n') \<le> getLastIndex (raftLog n) \<longrightarrow> getEntry (raftLog n') (getLastIndex (raftLog n) + 1) =
      Some \<lparr>e_index = getLastIndex (raftLog n) + 1, e_term = currentTerm n, e_stroke = s\<rparr>"
proof -
  let ?i = "getLastIndex (raftLog n) + 1"
  from whole_write[OF assms(1-4)] obtain m where
    m: "reign (currentTerm n) ?i \<lparr>e_index = ?i, e_term = currentTerm n, e_stroke = s\<rparr> m"
    and c: "client_write_check m ?i latency = Some (n', r) \<or> \<not> cw_success r \<and> n' = m \<and> state m = Leader" .
  then have "n' = m" using assms(5) by (auto simp: client_write_check_def Let_def split: if_splits)
  then show ?thesis using m assms(6,7) by (auto simp: reign_def holds_write_def)
qed

theorem client_write_fails_witness:
  "getEntry (raftLog (fst (handleClientWrite sample_leader (sample_stroke ''s4'') 7 (quiet_wait (\<lambda>attempt peer r. RpcFailed))))) 4 =
     Some \<lparr>e_index = 4, e_term = 1, e_stroke = sample_stroke ''s4''\<rparr>"
proof -
  let ?w = "handleClientWrite sample_leader (sample_stroke ''s4'') 7 (quiet_wait (\<lambda>attempt peer r. RpcFailed))"
  have "\<not> cw_success (snd ?w)" "state (fst ?w) = Leader" "currentTerm (fst ?w) = currentTerm sample_leader"
    "lastIncludedIndex (raftLog (fst ?w)) = 0" "getLastIndex (raftLog sample_leader) = 3" "currentTerm sample_leader = 1"
    by code_simp+
  then show ?thesis
    using client_write_fails[OF reachable_leader sample_leads _ surjective_pairing] meantime_quiet by simp
qed

section \<open>What was acknowledged in its term stays\<close>

definition keeps_write :: "nat \<Rightarrow> log_entry \<Rightarrow> raft_node \<Rightarrow> bool" where
  "keeps_write i e n \<longleftrightarrow> (commitIndex n < i \<longrightarrow> getEntry (raftLog n) i = Some e) \<and>
     (i \<le> commitIndex n \<longrightarrow> in_history n (e_stroke e))"

definition tenure :: "nat \<Rightarrow> nat \<Rightarrow> log_entry \<Rightarrow> raft_node \<Rightarrow> bool" where
  "tenure T i e n \<longleftrightarrow> node_inv n \<and> pkind (store n) = FilePersistence \<and> T \<le> currentTerm n \<and>
     (currentTerm n = T \<longrightarrow> state n = Follower \<or> state n = Leader \<and> keeps_write i e n)"

lemma keeps_write_update:
  assumes "node_inv n" and "pkind (store n) = FilePersistence" and "boardId (e_stroke e) \<noteq> ''__proto__''"
    and "keeps_write i e n"
  shows "keeps_write i e (updateCommitIndex n)"
proof -
  have "commitIndex n \<le> commitIndex (updateCommitIndex n)"
    "lastIncludedIndex (raftLog (updateCommitIndex n)) \<le> commitIndex (updateCommitIndex n)"
    using moves_on_updateCommitIndex[OF assms(1)] node_inv_updateCommitIndex[OF assms(1)]
    by (auto simp: moves_on_def node_inv_def log_inv_def)
  then show ?thesis
    using assms updateCommitIndex_log[OF assms(1), of i] updated_in_history[OF assms(1-3), of i]
    by (simp add: keeps_write_def)
qed

lemma keeps_write_begin:
  assumes "keeps_write i e n" and "client_write_begin n stroke = Inr (n', j)"
  shows "keeps_write i e n'"
  using assms getEntry_Some_iff[of "raftLog n" i]
  by (auto simp: keeps_write_def in_history_def client_write_begin_def Let_def getEntry_append split: if_splits)

lemma keeps_write_deliver:
  assumes "keeps_write i e n" and "state n = Leader" and "state (deliver n ev) = Leader" and "no_catch_up ev"
    and "node_inv n" and "pkind (store n) = FilePersistence" and "boardId (e_stroke e) \<noteq> ''__proto__''"
  shows "keeps_write i e (deliver n ev)"
  using assms(2-5) kept_on_disk[OF assms(6)]
proof (cases rule: leader_keeps)
  case same
  then show ?thesis
    using assms(1) by (simp add: keeps_write_def in_history_def same_log_frame(2)) (simp add: same_log_def)
next
  case (wrote stroke j)
  with assms(1) show ?thesis by (rule keeps_write_begin)
next
  case (committed m)
  then show ?thesis
    using keeps_write_update[OF assms(5,6,7,1)] by (simp add: keeps_write_def in_history_def)
qed

lemma tenure_deliver:
  assumes "tenure T i e n" and "event_wf n ev" and "no_catch_up ev" and "boardId (e_stroke e) \<noteq> ''__proto__''"
  shows "tenure T i e (deliver n ev)"
proof -
  have n: "node_inv n" "pkind (store n) = FilePersistence" "T \<le> currentTerm n"
    "currentTerm n = T \<Longrightarrow> state n = Follower \<or> state n = Leader \<and> keeps_write i e n"
    using assms(1) by (auto simp: tenure_def)
  note kept = kept_on_disk[OF n(2)]
  then have grows: "currentTerm n \<le> currentTerm (deliver n ev)"
    using moves_on_deliver[OF n(1) assms(2)] by (simp add: moves_on_def)
  have "state (deliver n ev) = Follower \<or> state (deliver n ev) = Leader \<and> keeps_write i e (deliver n ev)"
    if "currentTerm (deliver n ev) = T"
  proof -
    have same: "currentTerm (deliver n ev) = currentTerm n" "currentTerm n = T" using that grows n(3) by simp_all
    from n(4)[OF same(2)] have role: "state n \<noteq> Candidate" "state n = Leader \<Longrightarrow> keeps_write i e n" by auto
    show ?thesis
      using role_stays[OF role(1) same(1) n(1) kept] n(4)[OF same(2)]
        keeps_write_deliver[OF role(2) _ _ assms(3) n(1,2) assms(4)] by auto
  qed
  then show ?thesis
    using n grows node_inv_deliver[OF n(1) assms(2)] by (simp add: tenure_def pkind_deliver)
qed


lemma tenure_run:
  assumes "tenure T i e n" and "events_wf n es" and "list_all no_catch_up es" and "boardId (e_stroke e) \<noteq> ''__proto__''"
  shows "tenure T i e (run_events n es)"
  using assms
  by (induction es arbitrary: n) (simp_all add: tenure_deliver)

lemma history_grows_run:
  assumes "node_inv n" and "pkind (store n) = FilePersistence" and "events_wf n es" and "list_all own_boards es"
  shows "history_grows n (run_events n es)"
  using assms
proof (induction es arbitrary: n)
  case (Cons ev es)
  have "history_grows n (deliver n ev)" using Cons.prems by (simp add: history_grows_deliver)
  moreover have "history_grows (deliver n ev) (run_events (deliver n ev) es)"
    using Cons.prems by (intro Cons.IH) (simp_all add: node_inv_deliver pkind_deliver)
  ultimately show ?case by (auto intro: history_grows_trans)
qed (simp add: history_grows_def)

lemma acknowledged_in_history:
  assumes "tenure T i e n" and "e_term e = T" and "boardId (e_stroke e) \<noteq> ''__proto__''"
    and "currentTerm n = T" and "client_write_check n i latency = Some (n', r)" and "cw_success r"
  shows "in_history n' (e_stroke e) \<and> node_inv n' \<and> pkind (store n') = FilePersistence"
proof -
  have n': "state n = Leader" "my_majority n \<le> replicatedCount n i"
    "n' = (updateCommitIndex n)\<lparr>nodeMetrics := observeWriteLatency (nodeMetrics (updateCommitIndex n)) latency\<rparr>"
    using assms(5,6) by (auto simp: client_write_check_def Let_def split: if_splits)
  have n: "node_inv n" "pkind (store n) = FilePersistence" "keeps_write i e n"
    using assms(1,4) n'(1) by (auto simp: tenure_def)
  have "i \<le> commitIndex (updateCommitIndex n)"
  proof (cases "commitIndex n < i")
    case True
    then show ?thesis
      using n(3) n'(2) assms(2,4) by (intro updateCommitIndex_reaches) (auto simp: keeps_write_def)
  next
    case False
    then show ?thesis using moves_on_updateCommitIndex[OF n(1)] by (simp add: moves_on_def)
  qed
  then have "in_history (updateCommitIndex n) (e_stroke e)"
    using n assms(3) by (intro updated_in_history) (auto simp: keeps_write_def)
  then show ?thesis
    using n'(3) n node_inv_updateCommitIndex[OF n(1)] quiet_updateCommitIndex[of n]
    by (simp add: in_history_def quiet_def)
qed

lemma write_begun:
  assumes "reachable n" and "pkind (store n) = FilePersistence" and "client_write_begin n s = Inr (n1, i)"
  shows "tenure (currentTerm n) i \<lparr>e_index = i, e_term = currentTerm n, e_stroke = s\<rparr> n1"
proof -
  note b = client_write_begin_entry[OF assms(3)]
  have inv: "node_inv n" "node_inv n1"
    using node_inv_reachable[OF assms(1)] assms(3) by (auto dest: node_inv_client_write_begin)
  then have "commitIndex n1 < i" using b(1,5) by (auto simp: node_inv_def log_inv_def)
  then show ?thesis
    using b inv assms(2) quiet_client_write_begin[OF assms(3)]
    by (simp add: tenure_def keeps_write_def quiet_def)
qed

text \<open>C9: An acknowledged stroke is kept. Let a leader with a disk (\<open>FilePersistence\<close>) begin a client write of a
  stroke for a board other than \<open>__proto__\<close>; let anything but the answer to a catch-up request happen to it while the
  write waits (other writes, votes, messages of leaders, a restart); and let the check after a round answer success
  while the term is still the one in which the write began. Then the stroke is in the history of its board
  on that replica whatever comes later, restarts between handlers and the well-formed answers to
  catch-up requests included, as long as no snapshot of another replica replaces its boards.\<close>
theorem acknowledged_stroke_is_kept:
  assumes "reachable n" and "pkind (store n) = FilePersistence" and "boardId s \<noteq> ''__proto__''"
    and "client_write_begin n s = Inr (n1, i)"
    and "events_wf n1 es" and "list_all no_catch_up es" and "currentTerm (run_events n1 es) = currentTerm n"
    and "client_write_check (run_events n1 es) i latency = Some (n2, r)" and "cw_success r"
    and "events_wf n2 fs" and "list_all own_boards fs"
  shows "s \<in> set (bv_events (board_view_of (boards (run_events n2 fs)) (boardId s)))"
proof -
  let ?e = "\<lparr>e_index = i, e_term = currentTerm n, e_stroke = s\<rparr>"
  have proto: "boardId (e_stroke ?e) \<noteq> ''__proto__''" using assms(3) by simp
  have "tenure (currentTerm n) i ?e (run_events n1 es)"
    using write_begun[OF assms(1,2,4)] assms(5,6) proto by (rule tenure_run)
  from acknowledged_in_history[OF this _ proto assms(7-9)]
  have ok: "in_history n2 s" "node_inv n2" "pkind (store n2) = FilePersistence" by simp_all
  from history_grows_run[OF ok(2,3) assms(10,11)] ok(1) show ?thesis
    using assms(3) by (simp add: history_grows_def in_history_def)
qed

text \<open>The leader of the samples writes a fourth stroke, is asked for its vote, gets the answer of a
  peer, acknowledges the write, and restarts.\<close>
definition sample_waiting :: "node_event list" where
  "sample_waiting = [RequestVote \<lparr>rv_term = 1, rv_candidateId = ''replica3'', rv_lastLogIndex = 0, rv_lastLogTerm = 0\<rparr>,
     ReplicationSettled ''http://replica2''
       (SendAppend 1 \<lparr>ae_term = 1, ae_leaderId = ''replica1'', ae_leaderAddr = None, ae_prevLogIndex = 0, ae_prevLogTerm = 0,
          ae_entries = entries (raftLog (fst (projr (client_write_begin sample_leader (sample_stroke ''s4''))))), ae_leaderCommit = 0\<rparr>)
       (AppendResult \<lparr>aer_term = 1, aer_success = True, aer_responderId = ''replica2'', aer_currentLogLength = 4\<rparr>)]"

definition sample_written :: "raft_node \<times> nat" where
  "sample_written = projr (client_write_begin sample_leader (sample_stroke ''s4''))"

definition sample_check :: "(raft_node \<times> client_write_result) option" where
  "sample_check = client_write_check (run_events (fst sample_written) sample_waiting) 4 0"

theorem acknowledged_stroke_is_kept_witness:
  "sample_stroke ''s4'' \<in> set (bv_events (board_view_of
     (boards (run_events (fst (the sample_check)) [CrashRestart sample_timers new_metrics])) ''b''))"
proof -
  have "pkind (store sample_leader) = FilePersistence" by code_simp
  moreover have "client_write_begin sample_leader (sample_stroke ''s4'') = Inr (fst sample_written, 4)"
    using sample_leads by (simp add: sample_written_def client_write_begin_def Let_def) code_simp
  moreover have "currentTerm (run_events (fst sample_written) sample_waiting) = currentTerm sample_leader \<and>
      sample_check \<noteq> None \<and> cw_success (snd (the sample_check))" by code_simp
  moreover have "client_write_check (run_events (fst sample_written) sample_waiting) 4 0 =
      Some (fst (the sample_check), snd (the sample_check))" if "sample_check \<noteq> None"
    using that by (auto simp: sample_check_def)
  moreover have "boardId (sample_stroke ''s4'') = ''b''" by (simp add: sample_stroke_def)
  ultimately show ?thesis
    using acknowledged_stroke_is_kept[OF reachable_leader, of "sample_stroke ''s4''" "fst sample_written" 4 sample_waiting
        0 "fst (the sample_check)" "snd (the sample_check)" "[CrashRestart sample_timers new_metrics]"]
    by (simp add: sample_waiting_def)
qed

end
