(* ===== verification/Follower_Props.thy ===== *)
theory Follower_Props
  imports Leader_Props
begin

text \<open>
  Catching up, and the corners of the follower's handlers in which the code does not do what the
  protocol asks for: the repair of a conflicting tail that never ends, and the second vote in a term.
\<close>

section \<open>Catching up\<close>

lemma filter_index_take:
  "entries_from s es \<Longrightarrow> filter (\<lambda>e. e_index e \<le> c) es = take (Suc c - s) es"
proof (induction es arbitrary: s)
  case (Cons e es)
  have "filter (\<lambda>e. e_index e \<le> c) es = take (Suc c - Suc s) es"
    using Cons.IH[of "Suc s"] Cons.prems by simp
  then show ?case
    using Cons.prems by (cases "s \<le> c") (auto simp: Suc_diff_le)
qed simp

lemma entries_from_take: "entries_from s es \<Longrightarrow> entries_from s (take k es)"
  by (simp add: entries_from_nth)

text \<open>Entries that run on from the end of the log are appended as they are.\<close>
lemma cu_loop_appends:
  assumes "entries_from (getLastIndex l + 1) es" and "lastIncludedIndex l = b"
  shows "entries (cu_loop b c es l) = entries l @ es \<and> lastIncludedIndex (cu_loop b c es l) = b"
  using assms
proof (induction es arbitrary: l)
  case (Cons e es)
  have e: "e_index e = getLastIndex l + 1" and rest: "entries_from (Suc (getLastIndex l + 1)) es"
    using Cons.prems(1) by simp_all
  have absent: "getEntry l (e_index e) = None" using e by (simp add: getEntry_None_iff)
  then have pl: "place l e = log_append l e" by (rule rl.place_absent)
  have "b < e_index e" using e Cons.prems(2) lastIncludedIndex_le_last[of l] by linarith
  then have step: "cu_loop b c (e # es) l = cu_loop b c es (log_append l e)"
    using absent pl by simp
  have "entries (cu_loop b c es (log_append l e)) = entries (log_append l e) @ es \<and>
      lastIncludedIndex (cu_loop b c es (log_append l e)) = b"
    using rest Cons.prems(2) by (intro Cons.IH) simp_all
  then show ?case unfolding step by (simp add: log_append_def)
qed simp

lemma handleSyncLog_entries:
  assumes "handleSyncLog m args = (m', r)" and "lastIncludedIndex (raftLog m) < sl_fromIndex args"
  shows "slr_snapshot r = None" and "slr_commitIndex r = commitIndex m"
    and "slr_entries r = filter (\<lambda>e. e_index e \<le> commitIndex m) (getEntriesFrom (raftLog m) (sl_fromIndex args))"
    and "slr_term r = max (currentTerm m) (sl_term args)"
proof -
  have from_same: "getEntriesFrom (raftLog (becomeFollower m t l a)) i = getEntriesFrom (raftLog m) i" for t l a i
    by (simp add: getEntriesFrom_def Let_def)
  show "slr_snapshot r = None" "slr_commitIndex r = commitIndex m"
    "slr_entries r = filter (\<lambda>e. e_index e \<le> commitIndex m) (getEntriesFrom (raftLog m) (sl_fromIndex args))"
    "slr_term r = max (currentTerm m) (sl_term args)"
    using assms by (auto simp: handleSyncLog_def Let_def from_same split: if_splits)
qed

text \<open>A follower that catches up from a node that still holds the entries it asks for ends with
  the later of the two commit indices, with the other node's entries from the end of its own log to
  that node's commit index, and with its own entries below. (Its own uncommitted tail is not
  compared with the other log.)\<close>
theorem catch_up_contract:
  assumes "reachable n" and "reachable m" and "lastIncludedIndex (raftLog m) \<le> getLastIndex (raftLog n)"
    and "handleSyncLog m (catch_up_args n) = (m', r)"
  shows "commitIndex (catch_up_apply n r) = max (commitIndex n) (commitIndex m) \<and>
    lastApplied (catch_up_apply n r) = commitIndex (catch_up_apply n r) \<and>
    (\<forall>i > lastIncludedIndex (raftLog (catch_up_apply n r)).
       (getLastIndex (raftLog n) < i \<and> i \<le> commitIndex m \<longrightarrow>
          getEntry (raftLog (catch_up_apply n r)) i = getEntry (raftLog m) i) \<and>
       (i \<le> getLastIndex (raftLog n) \<longrightarrow> getEntry (raftLog (catch_up_apply n r)) i = getEntry (raftLog n) i))"
proof -
  let ?from = "getLastIndex (raftLog n) + 1"
  have inv: "node_inv n" "node_inv m" using assms(1,2) by (simp_all add: node_inv_reachable)
  have wf: "log_wf (raftLog m)" and cm: "commitIndex m \<le> getLastIndex (raftLog m)"
    using inv(2) by (auto simp: node_inv_def log_inv_def)
  have lt: "lastIncludedIndex (raftLog m) < ?from" using assms(3) by simp
  note r = handleSyncLog_entries[OF assms(4)]
  have args: "sl_fromIndex (catch_up_args n) = ?from" by (simp add: catch_up_args_def)
  define es where "es = take (Suc (commitIndex m) - ?from) (getEntriesFrom (raftLog m) ?from)"
  have all: "entries_from ?from (getEntriesFrom (raftLog m) ?from)"
    using entries_from_getEntriesFrom[OF wf lt, of "length (getEntriesFrom (raftLog m) ?from)"] by simp
  have es: "entries_from ?from es" unfolding es_def by (rule entries_from_take[OF all])
  have "sync_entries r = filter (\<lambda>e. e_index e \<le> commitIndex m) (getEntriesFrom (raftLog m) ?from)"
    using r(2,3) lt args by (simp add: sync_entries_def)
  then have sync: "sync_entries r = es"
    using filter_index_take[OF all] by (simp add: es_def)
  have swf: "sync_wf n r"
    using es sync by (cases es) (simp_all add: sync_wf_def)
  let ?n1 = "if slr_term r > currentTerm n then becomeFollower n (slr_term r) None None else n"
  have base: "catch_up_base n r = ?n1"
    using r(1) lt args by (simp add: catch_up_base_def)
  have n1: "commitIndex ?n1 = commitIndex n" "getLastIndex (raftLog ?n1) = getLastIndex (raftLog n)"
    "getEntry (raftLog ?n1) i = getEntry (raftLog n) i" "entries (raftLog ?n1) = entries (raftLog n)"
    "lastIncludedIndex (raftLog ?n1) = lastIncludedIndex (raftLog n)" for i
    by simp_all
  have rci: "slr_commitIndex r = commitIndex m" using r(2) lt args by simp
  define l where "l = cu_loop (lastIncludedIndex (raftLog ?n1)) (commitIndex ?n1) es (raftLog ?n1)"
  have l: "entries l = entries (raftLog n) @ es" "lastIncludedIndex l = lastIncludedIndex (raftLog n)"
    using cu_loop_appends[of "raftLog ?n1" es "lastIncludedIndex (raftLog ?n1)" "commitIndex ?n1"] es n1
    by (simp_all add: l_def)
  have n': "catch_up_apply n r = follow_commit (?n1\<lparr>raftLog := l\<rparr>) (commitIndex m)"
    by (simp only: catch_up_apply_eq Let_def base sync l_def rci)
  have len: "length es = Suc (commitIndex m) - ?from"
    using lt cm by (simp add: es_def length_getEntriesFrom)
  have last: "getLastIndex l = max (getLastIndex (raftLog n)) (commitIndex m)"
    using l len by (simp add: getLastIndex_def)
  have bounds: "lastIncludedIndex (raftLog (?n1\<lparr>raftLog := l\<rparr>)) \<le> commitIndex (?n1\<lparr>raftLog := l\<rparr>)"
    "commitIndex (?n1\<lparr>raftLog := l\<rparr>) \<le> getLastIndex (raftLog (?n1\<lparr>raftLog := l\<rparr>))"
    using inv(1) l(2) last n1 by (auto simp: node_inv_def log_inv_def)
  have new: "getEntry l i = getEntry (raftLog m) i" if i: "getLastIndex (raftLog n) < i" "i \<le> commitIndex m" for i
  proof -
    have "getEntry l i = Some (es ! (i - ?from))"
      using i l len by (auto simp: getEntry_def js_at_def nth_append getLastIndex_def)
    moreover have "getEntry (raftLog m) (?from + (i - ?from)) = Some (getEntriesFrom (raftLog m) ?from ! (i - ?from))"
      using i cm by (intro getEntriesFrom_nth[OF lt]) simp
    ultimately show ?thesis using i len by (simp add: es_def)
  qed
  have old: "getEntry l i = getEntry (raftLog n) i" if "i \<le> getLastIndex (raftLog n)" for i
    using that l by (auto simp: getEntry_def js_at_append getLastIndex_def)
  have "commitIndex (catch_up_apply n r) = max (commitIndex n) (commitIndex m)"
    using follow_commit_commitIndex[OF bounds(2), of "commitIndex m"] n' last n1 by simp
  moreover have "getEntry (raftLog (catch_up_apply n r)) i = getEntry l i"
    if "lastIncludedIndex (raftLog (catch_up_apply n r)) < i" for i
    using follow_commit_log(3)[OF bounds, of "commitIndex m" i] that n' by simp
  moreover have "lastApplied (catch_up_apply n r) = commitIndex (catch_up_apply n r)"
    using node_inv_catch_up_apply[OF inv(1) swf] by (simp add: node_inv_def)
  ultimately show ?thesis using new old by auto
qed

theorem catch_up_contract_witness:
  "commitIndex (catch_up_apply sample_node (snd (handleSyncLog sample_follower (catch_up_args sample_node)))) =
   max (commitIndex sample_node) (commitIndex sample_follower)"
proof -
  have "lastIncludedIndex (raftLog sample_follower) \<le> getLastIndex (raftLog sample_node)" by code_simp
  then show ?thesis
    using catch_up_contract[OF reachable_sample reachable_follower _ surjective_pairing] by blast
qed

section \<open>A conflicting tail that is never repaired\<close>

text \<open>C36: Log repair can hang. When a follower's log is exactly as long as the leader's previous
  index and its last entry has another term, the follower refuses and reports its length, the leader
  sets its next index to that length plus one, which is the index it had, and neither log changes: the
  next round sends the same message again.\<close>
theorem conflicting_tail_livelock:
  assumes "reachable f" and "reachable n"
    and "lastIncludedIndex (raftLog f) = 0" and "lastIncludedIndex (raftLog n) = 0"
    and "replicateOnce n v = SendAppend i args" and "i = Suc (getLength (raftLog f))"
    and "0 < getLength (raftLog f)" and "getTermAt (raftLog n) (i - 1) \<noteq> getLastTerm (raftLog f)"
    and "currentTerm f \<le> currentTerm n" and "handleAppendEntries f args = (f', r)"
  shows "\<not> aer_success r \<and> entries (raftLog f') = entries (raftLog f) \<and> currentTerm f' \<le> currentTerm n \<and>
    nextIndex (appendEntries_settled n v i args r) v = Some i \<and>
    replicateOnce (appendEntries_settled n v i args r) v = SendAppend i args"
proof -
  note s = replicateOnce_SendAppend[OF assms(5)]
  let ?k = "getLength (raftLog f)" and ?m = "accept_leader f (ae_term args) (ae_leaderId args) (ae_leaderAddr args)"
  have prev: "ae_prevLogIndex args = ?k" "ae_prevLogTerm args = getTermAt (raftLog n) (i - 1)" "ae_term args = currentTerm n"
    using s(4) assms(6) by simp_all
  have "getEntry (raftLog f) ?k = Some (entries (raftLog f) ! (?k - 1))"
    using assms(3,7) by (simp add: getEntry_def js_at_def getLength_def)
  then have bad: "\<not> log_consistent (raftLog f) args"
    using assms(3,7,8) prev by (auto simp: log_consistent_def getLastTerm_def getLength_def)
  then have out: "f' = ?m" "r = append_reply ?m False"
    using assms(9,10) prev by (auto simp: handleAppendEntries_def Let_def)
  have r: "aer_term r = currentTerm n" "\<not> aer_success r" "aer_currentLogLength r = ?k"
    using out prev assms(9) by (simp_all add: append_reply_def currentTerm_accept_leader getLength_def)
  have settled: "appendEntries_settled n v i args r = n\<lparr>nextIndex := (nextIndex n)(v \<mapsto> i)\<rparr>"
    using r assms(6) by (simp add: appendEntries_settled_def)
  have "replicateOnce (n\<lparr>nextIndex := (nextIndex n)(v \<mapsto> i)\<rparr>) v = SendAppend i args"
    using s by (simp add: replicateOnce_def Let_def)
  then show ?thesis
    using r(2) out prev assms(9) settled by (simp add: currentTerm_accept_leader)
qed

text \<open>A leader of term 2 with two entries of its own, and a follower with an entry of term 1.\<close>
definition livelock_leader :: raft_node where
  "livelock_leader = run_events sample_node [ElectionTimeout, ElectionTimeout,
     VoteSettled (sample_election\<lparr>el_args := (el_args sample_election)\<lparr>rv_term := 2\<rparr>\<rparr>)
       (Some \<lparr>rvr_term = 2, rvr_voteGranted = True, rvr_responderId = ''replica2''\<rparr>),
     ClientWrite (sample_stroke ''p''),
     Heartbeat \<lparr>hb_term = 3, hb_leaderId = ''replica3'', hb_leaderAddr = None, hb_leaderCommit = 0\<rparr>, ElectionTimeout,
     VoteSettled (sample_election\<lparr>el_args := (el_args sample_election)\<lparr>rv_term := 4\<rparr>\<rparr>)
       (Some \<lparr>rvr_term = 4, rvr_voteGranted = True, rvr_responderId = ''replica3''\<rparr>)]"

definition livelock_follower :: raft_node where
  "livelock_follower = deliver sample_node (AppendEntries (sample_append
     \<lparr>ae_entries := [sample_entry 1 1], ae_leaderCommit := 0\<rparr>))"

definition livelock_args :: append_entries_args where
  "livelock_args = (case replicateOnce livelock_leader ''http://replica2'' of SendAppend i args \<Rightarrow> args)"

lemma livelock_reachable: "reachable livelock_leader" "reachable livelock_follower"
  unfolding livelock_leader_def livelock_follower_def
  by (rule reachable_run[OF reachable_sample], simp,
      rule reachable.event[OF reachable_sample], simp add: sample_append_def ae_wf_def sample_entry_def)

lemma livelock_setting:
  "lastIncludedIndex (raftLog livelock_follower) = 0 \<and> lastIncludedIndex (raftLog livelock_leader) = 0 \<and>
   replicateOnce livelock_leader ''http://replica2'' = SendAppend 2 livelock_args \<and>
   getLength (raftLog livelock_follower) = 1 \<and>
   getTermAt (raftLog livelock_leader) 1 \<noteq> getLastTerm (raftLog livelock_follower) \<and>
   currentTerm livelock_follower \<le> currentTerm livelock_leader"
  by code_simp

theorem conflicting_tail_livelock_witness:
  "replicateOnce (appendEntries_settled livelock_leader ''http://replica2'' 2 livelock_args
     (snd (handleAppendEntries livelock_follower livelock_args))) ''http://replica2'' = SendAppend 2 livelock_args"
proof -
  note h = livelock_setting
  have "2 = Suc (getLength (raftLog livelock_follower))" "0 < getLength (raftLog livelock_follower)"
    "getTermAt (raftLog livelock_leader) (2 - 1) \<noteq> getLastTerm (raftLog livelock_follower)"
    using h by simp_all
  with conflicting_tail_livelock[OF livelock_reachable(2,1) _ _ _ this _ surjective_pairing] h
  show ?thesis by blast
qed

section \<open>Two votes in one term\<close>

text \<open>A node can vote twice in a term. A candidate that has voted for itself and hears of a
  leader of the same term forgets its vote, on disk too, and then grants the vote of that term to
  another candidate.\<close>
theorem candidate_votes_twice:
  "let n = deliver sample_node ElectionTimeout;
       n1 = deliver n (Heartbeat \<lparr>hb_term = 1, hb_leaderId = ''replica2'', hb_leaderAddr = None, hb_leaderCommit = 0\<rparr>);
       (n2, r) = handleRequestVote n1 \<lparr>rv_term = 1, rv_candidateId = ''replica3'', rv_lastLogIndex = 0, rv_lastLogTerm = 0\<rparr>
   in ps_currentTerm (loadState (store n)) = 1 \<and> ps_votedFor (loadState (store n)) = Some ''replica1'' \<and>
      rvr_voteGranted r \<and> rvr_term r = 1 \<and>
      ps_currentTerm (loadState (store n2)) = 1 \<and> ps_votedFor (loadState (store n2)) = Some ''replica3''"
  by code_simp

end
