(* ===== verification/Snapshot_Props.thy ===== *)
theory Snapshot_Props
  imports Replica_Props
begin

text \<open>
  A crash while a snapshot is taken. A handler makes its disk calls one after the other, and a crash keeps a
  first part of them. Taking a snapshot survives a crash at every point, with nothing lost.
\<close>

section \<open>Taking a snapshot\<close>

text \<open>What the constructor makes of a store, whatever node wrote it.\<close>
lemma opened_outcome:
  assumes ok: "store_ok p" and on_disk: "pkind p = FilePersistence" and new: "n' = new_RaftNode cfg tm m p"
  shows "currentTerm n' = ps_currentTerm (loadState p)" and "votedFor n' = ps_votedFor (loadState p)"
    and "commitIndex n' = max (ps_commitIndex (loadState p)) (lastIncludedIndex (new_RaftLog p))"
    and "getLastIndex (raftLog n') = getLastIndex (new_RaftLog p)"
    and "lastIncludedIndex (new_RaftLog p) \<le> lastIncludedIndex (raftLog n')"
    and "lastIncludedIndex (raftLog n') < i \<Longrightarrow> getEntry (raftLog n') i = getEntry (new_RaftLog p) i"
    and "same_boards (boards n') (replayed (new_RaftLog p) (commitIndex n'))"
proof -
  let ?o = "opened cfg tm m p"
  note o = opened_inv[OF ok, of cfg tm m]
  have log: "raftLog ?o = new_RaftLog p" by (simp add: opened_def)
  have range: "lastIncludedIndex (raftLog ?o) \<le> commitIndex ?o" "commitIndex ?o \<le> getLastIndex (raftLog ?o)"
    using o(1) by (auto simp: log_inv_def)
  note l = applyCommitted_log[OF range]
  show "currentTerm n' = ps_currentTerm (loadState p)" "votedFor n' = ps_votedFor (loadState p)"
    by (simp_all add: new new_RaftNode_opened) (simp_all add: opened_def)
  show c: "commitIndex n' = max (ps_commitIndex (loadState p)) (lastIncludedIndex (new_RaftLog p))"
    by (simp add: new new_RaftNode_opened) (simp add: opened_def)
  show "getLastIndex (raftLog n') = getLastIndex (new_RaftLog p)"
    "lastIncludedIndex (new_RaftLog p) \<le> lastIncludedIndex (raftLog n')"
    "lastIncludedIndex (raftLog n') < i \<Longrightarrow> getEntry (raftLog n') i = getEntry (new_RaftLog p) i"
    using l log by (simp_all add: new new_RaftNode_opened)
  have "boards n' = boards (apply_loop ?o)"
    by (simp add: new new_RaftNode_opened applyCommitted_def maybeSnapshot_def)
  moreover have "commitIndex n' = commitIndex ?o" by (simp add: new new_RaftNode_opened)
  moreover have "pkind (store ?o) = FilePersistence" using log on_disk by simp
  ultimately show "same_boards (boards n') (replayed (new_RaftLog p) (commitIndex n'))"
    using apply_loop_inv[OF o(1,2)] log by (auto simp: boards_inv_def)
qed

lemma filter_beyond:
  assumes "log_wf l" and "lastIncludedIndex l \<le> i"
  shows "filter (\<lambda>e. i < e_index e) (entries l) = drop (i - lastIncludedIndex l) (entries l)"
  using log_wf_install(1)[OF assms] by (simp add: log_installSnapshot_def Let_def)

text \<open>A store that holds the snapshot of a node, its state, and at least its entries beyond it.\<close>
lemma snapshot_recovers:
  assumes inv: "node_inv n" and on_disk: "pkind (store n) = FilePersistence" "pkind p = FilePersistence"
    and st: "loadState p = loadState (store n)"
    and sn: "loadSnapshot p = Some \<lparr>sn_lastIncludedIndex = commitIndex n, sn_lastIncludedTerm = t,
      sn_boards = snapshot_boards (boards n)\<rparr>"
    and es: "filter (\<lambda>e. commitIndex n < e_index e) (loadLog p) =
      drop (commitIndex n - lastIncludedIndex (raftLog n)) (entries (raftLog n))"
    and new: "n' = new_RaftNode cfg tm m p"
  shows "currentTerm n' = currentTerm n" and "votedFor n' = votedFor n" and "commitIndex n' = commitIndex n"
    and "getLastIndex (raftLog n') = getLastIndex (raftLog n)"
    and "commitIndex n < i \<Longrightarrow> getEntry (raftLog n') i = getEntry (raftLog n) i"
    and "same_boards (boards n') (boards n)" and "store_ok p"
proof -
  let ?l = "new_RaftLog p"
  have le: "lastIncludedIndex (raftLog n) \<le> commitIndex n" "commitIndex n \<le> getLastIndex (raftLog n)"
    and wf: "log_wf (raftLog n)"
    using inv by (auto simp: node_inv_def log_inv_def)
  have l: "entries ?l = drop (commitIndex n - lastIncludedIndex (raftLog n)) (entries (raftLog n))"
    "lastIncludedIndex ?l = commitIndex n"
    using sn es by (simp_all add: new_RaftLog_def Let_def)
  have saved: "ps_currentTerm (loadState p) = currentTerm n" "ps_votedFor (loadState p) = votedFor n"
    "ps_commitIndex (loadState p) \<le> commitIndex n"
    using inv on_disk st by (auto simp: node_inv_def state_saved_def)
  have last: "getLastIndex ?l = getLastIndex (raftLog n)"
    using l le by (simp add: getLastIndex_def)
  have get: "getEntry ?l i = getEntry (raftLog n) i" if "commitIndex n < i" for i
    using l le that by (simp add: getEntry_def js_at_drop)
  have "log_wf ?l"
    using wf l le by (auto simp: log_wf_def)
  then show ok: "store_ok p"
    using saved(3) l(2) last le(2) by (simp add: store_ok_def)
  note o = opened_outcome[OF ok on_disk(2) new]
  show c: "commitIndex n' = commitIndex n" using o(3) saved(3) l(2) by simp
  show "currentTerm n' = currentTerm n" "votedFor n' = votedFor n" using o(1,2) saved by simp_all
  show "getLastIndex (raftLog n') = getLastIndex (raftLog n)" using o(4) last by simp
  show "getEntry (raftLog n') i = getEntry (raftLog n) i" if i: "commitIndex n < i" for i
  proof -
    have "node_inv n'" unfolding new by (rule node_inv_new[OF ok])
    then have "lastIncludedIndex (raftLog n') < i" using c i by (auto simp: node_inv_def log_inv_def)
    then show ?thesis using o(6)[of i] get[OF i] by simp
  qed
  have "replayed ?l (commitIndex n) = restoreBoardState (snapshot_boards (boards n))"
    using l(2) sn by (simp add: replayed_def upto_index_def snapshot_state_def)
  then show "same_boards (boards n') (boards n)"
    using o(7) c inv by (auto simp: same_boards_def view_restore_snapshot node_inv_def boards_inv_def)
qed

lemma takeSnapshot_calls:
  "new_calls (store n) (store (takeSnapshot n)) =
     SaveSnapshot \<lparr>sn_lastIncludedIndex = commitIndex n, sn_lastIncludedTerm = getTermAt (raftLog n) (commitIndex n),
       sn_boards = snapshot_boards (boards n)\<rparr> #
     (if commitIndex n \<le> lastIncludedIndex (raftLog n) then []
      else [RewriteLog (drop (commitIndex n - lastIncludedIndex (raftLog n)) (entries (raftLog n)))])"
  by (simp add: new_calls_def takeSnapshot_def log_compact_def Let_def js_slice_def)

lemma filter_implied: "(\<And>x. P x \<Longrightarrow> Q x) \<Longrightarrow> filter P (filter Q xs) = filter P xs"
  by (induction xs) auto

lemma loadLog_beyond:
  assumes "node_inv n" and "pkind (store n) = FilePersistence"
  shows "filter (\<lambda>e. commitIndex n < e_index e) (loadLog (store n)) =
    drop (commitIndex n - lastIncludedIndex (raftLog n)) (entries (raftLog n))"
proof -
  have wf: "log_wf (raftLog n)" and le: "lastIncludedIndex (raftLog n) \<le> commitIndex n"
    and dur: "new_RaftLog (store n) = raftLog n"
    using assms by (auto simp: node_inv_def log_inv_def log_durable_def)
  have "entries (new_RaftLog p) = filter (\<lambda>e. lastIncludedIndex (new_RaftLog p) < e_index e) (loadLog p) \<or>
      entries (new_RaftLog p) = loadLog p" for p
    by (cases "loadSnapshot p") (simp_all add: new_RaftLog_def Let_def)
  from this[of "store n"]
  have "entries (raftLog n) = filter (\<lambda>e. lastIncludedIndex (raftLog n) < e_index e) (loadLog (store n)) \<or>
      entries (raftLog n) = loadLog (store n)"
    unfolding dur .
  moreover have "filter (\<lambda>e. commitIndex n < e_index e) (filter (\<lambda>e. lastIncludedIndex (raftLog n) < e_index e) es) =
      filter (\<lambda>e. commitIndex n < e_index e) es" for es
    by (rule filter_implied) (use le in linarith)
  ultimately have "filter (\<lambda>e. commitIndex n < e_index e) (loadLog (store n)) =
      filter (\<lambda>e. commitIndex n < e_index e) (entries (raftLog n))"
    by metis
  then show ?thesis using filter_beyond[OF wf le] by simp
qed

text \<open>C12: Taking a snapshot is safe at every point of a crash. However many of its disk calls were
  carried out, the node that opens the disk has the same term, vote, commit index and last index, the
  same entries beyond the commit index, and the same boards.\<close>
theorem snapshot_crash_safe:
  assumes "reachable n" and "pkind (store n) = FilePersistence"
    and "n' = new_RaftNode cfg tm m (crash_after (store n) k (new_calls (store n) (store (takeSnapshot n))))"
  shows "currentTerm n' = currentTerm n \<and> votedFor n' = votedFor n \<and> commitIndex n' = commitIndex n \<and>
    getLastIndex (raftLog n') = getLastIndex (raftLog n) \<and>
    (\<forall>i > commitIndex n. getEntry (raftLog n') i = getEntry (raftLog n) i) \<and> same_boards (boards n') (boards n)"
proof -
  have inv: "node_inv n" using assms(1) by (rule node_inv_reachable)
  let ?cs = "new_calls (store n) (store (takeSnapshot n))"
  let ?p = "crash_after (store n) k ?cs"
  show ?thesis
  proof (cases k)
    case 0
    then have "n' = new_RaftNode cfg tm m (store n)" using assms(3) by (simp add: crash_after_def)
    note r = reopened[OF inv assms(2) this]
    have "lastIncludedIndex (raftLog n') \<le> commitIndex n'" using r(1) by (auto simp: node_inv_def log_inv_def)
    with r show ?thesis by auto
  next
    case (Suc j)
    let ?sn = "\<lparr>sn_lastIncludedIndex = commitIndex n, sn_lastIncludedTerm = getTermAt (raftLog n) (commitIndex n),
       sn_boards = snapshot_boards (boards n)\<rparr>"
    let ?es = "drop (commitIndex n - lastIncludedIndex (raftLog n)) (entries (raftLog n))"
    have "?p = saveSnapshot (store n) ?sn \<or> ?p = rewriteLog (saveSnapshot (store n) ?sn) ?es"
      using Suc by (cases j) (simp_all add: crash_after_def takeSnapshot_calls saveSnapshot_def rewriteLog_def)
    moreover have "filter (\<lambda>e. commitIndex n < e_index e) ?es = ?es"
      unfolding loadLog_beyond[OF inv assms(2), symmetric] by simp
    ultimately have "loadState ?p = loadState (store n) \<and> loadSnapshot ?p = Some ?sn \<and>
        filter (\<lambda>e. commitIndex n < e_index e) (loadLog ?p) = ?es"
      using assms(2) loadLog_beyond[OF inv assms(2)] by (auto simp: file_store.load_saved)
    then show ?thesis
      using snapshot_recovers[OF inv assms(2) _ _ _ _ assms(3)] assms(2) by simp
  qed
qed

theorem snapshot_crash_safe_witness:
  "commitIndex (new_RaftNode sample_config sample_timers new_metrics
     (crash_after (store sample_follower) 1 (new_calls (store sample_follower) (store (takeSnapshot sample_follower))))) =
   commitIndex sample_follower"
  using snapshot_crash_safe[OF reachable_follower pkind_follower refl] by blast

end
