(* ===== verification/Crash_Points.thy ===== *)
theory Crash_Points
  imports Snapshot_Props Leader_Props
begin

text \<open>
  A replica that may crash inside a handler. A handler makes its disk calls one after the other, and a crash
  keeps a first part of them; each operation is shown to leave a store that can be opened after every part,
  but for one window, between the two calls in which a received snapshot is installed. The machine of this theory also
  keeps the catch-up requests that are under way, so that what a follower takes from an answer follows from what it
  asked for and from what its log has become meanwhile. The last section proves that the two conditions
  of this machine are needed.
\<close>

section \<open>Stores that can be opened at every point\<close>

text \<open>After \<open>k\<close> of the calls the log has been rewritten and the snapshot that replaces what is gone comes next.\<close>
definition window :: "pcall list \<Rightarrow> nat \<Rightarrow> bool" where
  "window cs k \<longleftrightarrow> 0 < k \<and> k < length cs \<and>
     (case (cs ! (k - 1), cs ! k) of (RewriteLog es, SaveSnapshot sn) \<Rightarrow> True | _ \<Rightarrow> False)"

definition safely :: "persistence \<Rightarrow> persistence \<Rightarrow> bool" where
  "safely p p' \<longleftrightarrow> (\<exists>cs. p' = foldl persist_call p cs \<and> (\<forall>k \<le> length cs. store_ok (crash_after p k cs) \<or> window cs k))"

lemma safely_refl: "store_ok p \<Longrightarrow> safely p p"
  by (auto simp: safely_def crash_after_def intro: exI[of _ "[]"])

lemma safely_call:
  assumes "store_ok p" and "store_ok (persist_call p c)"
  shows "safely p (persist_call p c)"
proof -
  have "store_ok (crash_after p k [c])" if "k \<le> length [c]" for k
    using assms that by (cases k) (simp_all add: crash_after_def)
  then show ?thesis unfolding safely_def by (intro exI[of _ "[c]"]) simp
qed

lemma safely_trans:
  assumes "safely p p'" and "safely p' p''"
  shows "safely p p''"
proof -
  obtain cs where cs: "p' = foldl persist_call p cs" "\<And>k. k \<le> length cs \<Longrightarrow> store_ok (crash_after p k cs) \<or> window cs k"
    using assms(1) by (auto simp: safely_def)
  obtain ds where ds: "p'' = foldl persist_call p' ds" "\<And>k. k \<le> length ds \<Longrightarrow> store_ok (crash_after p' k ds) \<or> window ds k"
    using assms(2) by (auto simp: safely_def)
  have "store_ok (crash_after p k (cs @ ds)) \<or> window (cs @ ds) k" if "k \<le> length (cs @ ds)" for k
  proof (cases "k \<le> length cs")
    case True
    have "window (cs @ ds) k" if "window cs k" using that by (auto simp: window_def nth_append)
    moreover have "crash_after p k (cs @ ds) = crash_after p k cs" using True by (simp add: crash_after_def)
    ultimately show ?thesis using cs(2)[OF True] by auto
  next
    case False
    then have j: "k - length cs \<le> length ds" using that by simp
    have "window (cs @ ds) k" if "window ds (k - length cs)"
    proof -
      have "k - 1 - length cs = k - length cs - 1" "\<not> k - 1 < length cs" using False by auto
      then show ?thesis using that False by (auto simp: window_def nth_append)
    qed
    moreover have "crash_after p k (cs @ ds) = crash_after p' (k - length cs) ds"
      using False cs(1) by (simp add: crash_after_def)
    ultimately show ?thesis using ds(2)[OF j] by auto
  qed
  then show ?thesis using cs(1) ds(1) unfolding safely_def by (intro exI[of _ "cs @ ds"]) simp
qed

lemma calls_foldl: "calls (foldl persist_call p cs) = calls p @ cs"
  by (induction cs arbitrary: p) (simp_all add: persist_call_def split: pkind.split)

text \<open>A crash at any point outside the window leaves a store that can be opened.\<close>
lemma crash_outside_window:
  assumes "safely p p'" and "\<not> window (new_calls p p') k"
  shows "store_ok (crash_after p k (new_calls p p'))"
proof -
  obtain cs where cs: "p' = foldl persist_call p cs" "\<And>k. k \<le> length cs \<Longrightarrow> store_ok (crash_after p k cs) \<or> window cs k"
    using assms(1) by (auto simp: safely_def)
  have new: "new_calls p p' = cs" using cs(1) by (simp add: new_calls_def calls_foldl)
  show ?thesis
  proof (cases "k \<le> length cs")
    case False
    have "\<not> window cs (length cs)" by (simp add: window_def)
    with cs(2)[of "length cs"] False show ?thesis by (simp add: new crash_after_def)
  qed (use cs(2) assms(2) new in auto)
qed

lemma store_ok_memory: "pkind p = MemoryPersistence \<Longrightarrow> store_ok p"
  by (simp add: store_ok_def new_RaftLog_def persistence_ops Let_def log_wf_def getLastIndex_def)

lemma store_ok_log:
  assumes "log_wf l" and "log_durable l" and "ps_commitIndex (loadState (persistence l)) \<le> getLastIndex l"
  shows "store_ok (persistence l)"
  using assms store_ok_memory[of "persistence l"]
  by (cases "pkind (persistence l)") (auto simp: store_ok_def log_durable_def)

lemma store_ok_saved:
  assumes "log_inv n" and "state_saved n"
  shows "store_ok (store n)"
proof (cases "pkind (store n)")
  case FilePersistence
  then have "ps_commitIndex (loadState (store n)) \<le> getLastIndex (raftLog n)"
    using assms by (auto simp: log_inv_def state_saved_def)
  with assms(1) show ?thesis by (intro store_ok_log) (auto simp: log_inv_def)
qed (rule store_ok_memory)

lemma saved_commit:
  "node_inv n \<Longrightarrow> pkind (store n) = FilePersistence \<Longrightarrow> ps_commitIndex (loadState (store n)) \<le> commitIndex n"
  by (auto simp: node_inv_def state_saved_def)

lemma memory_commit: "pkind p = MemoryPersistence \<Longrightarrow> ps_commitIndex (loadState p) = 0"
  by (simp add: loadState_def)

lemma commit_on_disk: "node_inv n \<Longrightarrow> ps_commitIndex (loadState (store n)) \<le> commitIndex n"
  using saved_commit[of n] memory_commit[of "store n"] by (cases "pkind (store n)") auto

section \<open>Saving the state and applying\<close>

lemma safely_persistState:
  assumes "log_inv m" and "store_ok (store m)"
  shows "safely (store m) (store (persistState m))"
proof -
  have "lastIncludedIndex (raftLog m) \<le> commitIndex m" using assms(1) by (simp add: log_inv_def)
  then have "log_inv (persistState m)" "state_saved (persistState m)"
    using assms(1) by (simp_all add: state_saved_persistState)
  then have "store_ok (store (persistState m))" by (rule store_ok_saved)
  then show ?thesis
    using safely_call[OF assms(2)] by (simp add: persistState_def saveState_def)
qed

lemma safely_becomeFollower:
  assumes "node_inv n"
  shows "safely (store n) (store (becomeFollower n t l a))"
proof -
  define m where "m = (let n1 = n\<lparr>state := Follower, currentTerm := t, votedFor := None\<rparr>;
      n2 = (if l \<noteq> None then n1\<lparr>leaderId := l\<rparr> else n1)
    in if a \<noteq> None then n2\<lparr>leaderAddr := a\<rparr> else n2)"
  have m: "log_inv m" "store m = store n" using assms by (simp_all add: m_def node_inv_def Let_def)
  have "store (becomeFollower n t l a) = store (persistState m)"
    by (simp add: becomeFollower_def m_def Let_def)
  then show ?thesis
    using safely_persistState[OF m(1)] m(2) store_ok_node[OF assms] by simp
qed

lemma safely_accept_leader: "node_inv n \<Longrightarrow> safely (store n) (store (accept_leader n t l a))"
  by (auto simp: accept_leader_def Let_def intro: safely_becomeFollower safely_refl store_ok_node)

lemma safely_takeSnapshot:
  assumes "node_inv n"
  shows "safely (store n) (store (takeSnapshot n))"
proof -
  let ?sn = "\<lparr>sn_lastIncludedIndex = commitIndex n, sn_lastIncludedTerm = getTermAt (raftLog n) (commitIndex n),
     sn_boards = snapshot_boards (boards n)\<rparr>"
  let ?p = "saveSnapshot (store n) ?sn"
  have "store_ok ?p"
  proof (cases "pkind (store n)")
    case FilePersistence
    with snapshot_recovers(7)[OF assms, of ?p] show ?thesis
      using loadLog_beyond[OF assms] by (simp add: file_store.load_saved)
  qed (simp add: store_ok_memory)
  then have first: "safely (store n) ?p"
    using safely_call[OF store_ok_node[OF assms]] by (simp add: saveSnapshot_def)
  have last: "store_ok (store (takeSnapshot n))"
    by (rule store_ok_node[OF node_inv_takeSnapshot[OF assms]])
  show ?thesis
  proof (cases "commitIndex n \<le> lastIncludedIndex (raftLog n)")
    case True
    then show ?thesis using first by (simp add: takeSnapshot_def log_compact_def Let_def)
  next
    case False
    let ?es = "js_slice (commitIndex n - lastIncludedIndex (raftLog n)) (entries (raftLog n))"
    have "store (takeSnapshot n) = persist_call ?p (RewriteLog ?es)"
      using False by (simp add: takeSnapshot_def log_compact_def Let_def rewriteLog_def)
    with safely_trans[OF first safely_call[OF \<open>store_ok ?p\<close>]] last show ?thesis by simp
  qed
qed

lemma safely_applyCommitted:
  assumes "log_inv n" and "boards_inv n" and "state_saved n"
  shows "safely (store n) (store (applyCommitted n))"
proof -
  have m: "node_inv (apply_loop n)"
    using apply_loop_inv[OF assms(1,2)] assms(3) by (simp add: node_inv_def)
  have "safely (store n) (store (takeSnapshot (apply_loop n)))" using safely_takeSnapshot[OF m] by simp
  then show ?thesis
    by (simp add: applyCommitted_def maybeSnapshot_def safely_refl[OF store_ok_saved[OF assms(1,3)]])
qed

text \<open>A new commit index is saved, then the entries up to it are applied.\<close>
lemma safely_commit:
  assumes "node_inv n" and "commitIndex n \<le> i" and "i \<le> getLastIndex (raftLog n)"
  shows "safely (store n) (store (applyCommitted (persistState (n\<lparr>commitIndex := i\<rparr>))))"
proof -
  let ?n = "n\<lparr>commitIndex := i\<rparr>"
  have n: "log_inv ?n" "boards_inv ?n" using assms by (auto simp: node_inv_def log_inv_def)
  then have "state_saved (persistState ?n)" by (intro state_saved_persistState) (simp add: log_inv_def)
  with n have "safely (store (persistState ?n)) (store (applyCommitted (persistState ?n)))"
    by (intro safely_applyCommitted) simp_all
  moreover have "safely (store ?n) (store (persistState ?n))"
    using n store_ok_node[OF assms(1)] by (intro safely_persistState) simp_all
  ultimately show ?thesis using safely_trans by simp
qed

lemma safely_follow_commit: "node_inv n \<Longrightarrow> safely (store n) (store (follow_commit n c))"
  by (auto simp: follow_commit_def node_inv_def log_inv_def intro!: safely_commit safely_refl store_ok_node)

lemma safely_updateCommitIndex: "node_inv n \<Longrightarrow> safely (store n) (store (updateCommitIndex n))"
  by (auto simp: updateCommitIndex_def split: option.split dest!: find_commit_Some
      intro!: safely_commit safely_refl store_ok_node)

section \<open>Merging entries and installing a snapshot\<close>

lemma loadState_truncate [simp]: "loadState (persistence (truncateFrom l i)) = loadState (persistence l)"
  by (simp add: truncateFrom_def Let_def persistence_ops split: pkind.split)

lemma safely_place:
  assumes "log_wf l" and "log_durable l" and "commit \<le> getLastIndex l" and "ps_commitIndex (loadState (persistence l)) \<le> commit"
    and range: "lastIncludedIndex l < e_index e" "e_index e \<le> getLastIndex l + 1"
    and free: "\<not> (case getEntry l (e_index e) of None \<Rightarrow> False
                 | Some x \<Rightarrow> e_term x \<noteq> e_term e \<and> e_index e \<le> commit)"
  shows "safely (persistence l) (persistence (place l e))"
proof -
  have ok: "store_ok (persistence l)" using assms(1-4) by (intro store_ok_log) simp_all
  have m: "merged commit (e_index e) l (place l e)" by (rule merged_place[OF assms(1-3) range free])
  then have last: "store_ok (persistence (place l e))"
    using assms(4) by (intro store_ok_log) (auto simp: merged_def)
  show ?thesis
  proof (cases rule: rl.place_cases[where l = l and e = e])
    case (present x)
    then show ?thesis using ok by (simp add: safely_refl)
  next
    case absent
    then have "persistence (place l e) = persist_call (persistence l) (AppendLog e)"
      by (simp add: log_append_def appendLog_def)
    then show ?thesis using safely_call[OF ok] last by simp
  next
    case (conflict x)
    let ?l = "truncateFrom l (e_index e)"
    have i: "commit < e_index e" "e_index e \<le> getLastIndex l"
      using conflict free getEntry_Some_iff[of l "e_index e"] by auto
    then have "getLastIndex ?l = e_index e - 1" using range by (simp add: getLastIndex_truncate)
    then have cut: "store_ok (persistence ?l)"
      using assms(1,2,4) i by (intro store_ok_log) (simp_all add: log_wf_truncate log_durable_truncate)
    have "\<exists>es. persistence ?l = persist_call (persistence l) (RewriteLog es)"
      using i range by (auto simp: truncateFrom_def Let_def rewriteLog_def)
    then have "safely (persistence l) (persistence ?l)" using safely_call[OF ok] cut by auto
    moreover have "persistence (place l e) = persist_call (persistence ?l) (AppendLog e)"
      using rl.place_conflict(1)[OF conflict] by (simp add: log_append_def appendLog_def)
    then have "safely (persistence ?l) (persistence (place l e))" using safely_call[OF cut] last by simp
    ultimately show ?thesis by (rule safely_trans)
  qed
qed

lemma safely_ae_loop:
  assumes "log_wf l" and "log_durable l" and "lastIncludedIndex l = b" and "b \<le> commit"
    and "commit \<le> getLastIndex l" and "entries_from s es" and "s \<le> getLastIndex l + 1"
    and "ps_commitIndex (loadState (persistence l)) \<le> commit" and "ae_loop b commit es l = Inl l' \<or> ae_loop b commit es l = Inr l'"
  shows "safely (persistence l) (persistence l')"
  using assms
proof (induction es arbitrary: s l)
  case Nil
  then show ?case by (auto intro!: safely_refl store_ok_log)
next
  case (Cons e es)
  have idx: "e_index e = s" and rest: "entries_from (Suc s) es" using Cons.prems(6) by auto
  let ?clash = "case getEntry l (e_index e) of None \<Rightarrow> False
      | Some x \<Rightarrow> e_term x \<noteq> e_term e \<and> e_index e \<le> commit"
  consider (below) "e_index e \<le> b" | (clash) "\<not> e_index e \<le> b" ?clash | (placed) "\<not> e_index e \<le> b" "\<not> ?clash" by blast
  then show ?case
  proof cases
    case below
    then have "Suc s \<le> getLastIndex l + 1"
      using idx Cons.prems(3) lastIncludedIndex_le_last[of l] by linarith
    then show ?thesis using below Cons.prems(9) Cons.IH[OF Cons.prems(1-5) rest _ Cons.prems(8)] by simp
  next
    case clash
    then show ?thesis using Cons.prems by (auto intro!: safely_refl store_ok_log split: option.splits)
  next
    case placed
    have range: "lastIncludedIndex l < e_index e" "e_index e \<le> getLastIndex l + 1"
      using placed(1) idx Cons.prems(3,7) by auto
    have m: "merged commit s l (place l e)"
      using merged_place[OF Cons.prems(1,2,5) range placed(2)] idx by simp
    have "Suc s \<le> getLastIndex (place l e) + 1" using rl.place_top[OF range] idx by simp
    then have "safely (persistence (place l e)) (persistence l')"
      using m rest Cons.prems(3,4,8,9) placed by (intro Cons.IH) (auto simp: merged_def)
    with safely_place[OF Cons.prems(1,2,5,8) range placed(2)] show ?thesis by (rule safely_trans)
  qed
qed

lemma safely_cu_loop:
  assumes "log_wf l" and "log_durable l" and "lastIncludedIndex l = b" and "b \<le> commit"
    and "commit \<le> getLastIndex l" and "entries_from s es" and "s \<le> getLastIndex l + 1"
    and "ps_commitIndex (loadState (persistence l)) \<le> commit"
  shows "safely (persistence l) (persistence (cu_loop b commit es l))"
  using assms
proof (induction es arbitrary: s l)
  case Nil
  then show ?case by (auto intro!: safely_refl store_ok_log)
next
  case (Cons e es)
  have idx: "e_index e = s" and rest: "entries_from (Suc s) es" using Cons.prems(6) by auto
  let ?clash = "case getEntry l (e_index e) of None \<Rightarrow> False
      | Some x \<Rightarrow> e_term x \<noteq> e_term e \<and> e_index e \<le> commit"
  show ?case
  proof (cases "e_index e \<le> b \<or> ?clash")
    case True
    have "Suc s \<le> getLastIndex l + 1"
      using True idx Cons.prems(3,4,5) lastIncludedIndex_le_last[of l] by (auto split: option.splits)
    with True Cons.IH[OF Cons.prems(1-5) rest _ Cons.prems(8)] show ?thesis by auto
  next
    case False
    have range: "lastIncludedIndex l < e_index e" "e_index e \<le> getLastIndex l + 1" and free: "\<not> ?clash"
      using False idx Cons.prems(3,7) by auto
    have m: "merged commit s l (place l e)"
      using merged_place[OF Cons.prems(1,2,5) range free] idx by simp
    have "Suc s \<le> getLastIndex (place l e) + 1" using rl.place_top[OF range] idx by simp
    then have "safely (persistence (place l e)) (persistence (cu_loop b commit es (place l e)))"
      using m rest Cons.prems(3,4,8) by (intro Cons.IH) (auto simp: merged_def)
    with safely_place[OF Cons.prems(1,2,5,8) range free] safely_trans False show ?thesis by auto
  qed
qed

lemma safely_applySnapshot:
  assumes "node_inv n" and "commitIndex n < i"
  shows "safely (store n) (store (applySnapshot n i t bds))"
proof -
  let ?l = "log_installSnapshot (raftLog n) i t"
  let ?sn = "\<lparr>sn_lastIncludedIndex = i, sn_lastIncludedTerm = t, sn_boards = bds\<rparr>"
  let ?st = "\<lparr>ps_currentTerm = currentTerm n, ps_votedFor = votedFor n, ps_commitIndex = i\<rparr>"
  let ?cs = "[RewriteLog (entries ?l), SaveSnapshot ?sn, SaveState ?st]"
  have wf: "log_wf (raftLog n)" and le: "lastIncludedIndex (raftLog n) \<le> i"
    using assms by (auto simp: node_inv_def log_inv_def)
  have wf': "log_wf ?l" using wf le by (rule log_wf_install)
  let ?p2 = "saveSnapshot (persistence ?l) ?sn"
  have per: "persistence ?l = rewriteLog (store n) (entries ?l)" by (simp add: log_installSnapshot_def Let_def)
  have "log_durable (?l\<lparr>persistence := ?p2\<rparr>)"
    using filter_all_index[OF wf'] by (auto simp: log_durable_fields per file_store.load_saved)
  moreover have "loadState ?p2 = loadState (store n)"
    by (cases "pkind (store n)") (simp_all add: per persistence_ops)
  ultimately have two: "store_ok ?p2"
    using store_ok_log[of "?l\<lparr>persistence := ?p2\<rparr>"] wf' commit_on_disk[OF assms(1)] assms(2) lastIncludedIndex_le_last[of ?l] by simp
  have all: "store (applySnapshot n i t bds) = foldl persist_call (store n) ?cs"
    by (simp add: applySnapshot_def persistState_def Let_def per rewriteLog_def saveSnapshot_def saveState_def)
  have three: "store_ok (foldl persist_call (store n) ?cs)"
    unfolding all[symmetric] using assms by (intro store_ok_node node_inv_applySnapshot)
  have "store_ok (crash_after (store n) k ?cs) \<or> window ?cs k" if "k \<le> length ?cs" for k
  proof -
    have "k = 0 \<or> k = 1 \<or> k = 2 \<or> k = 3" using that by auto
    then consider "k = 0" | "k = 1" | "k = 2" | "k = 3" by blast
    then show ?thesis
      using store_ok_node[OF assms(1)] two three
      by cases (simp_all add: crash_after_def window_def per rewriteLog_def saveSnapshot_def numeral_2_eq_2 numeral_3_eq_3)
  qed
  then show ?thesis unfolding safely_def all by blast
qed

section \<open>Every handler\<close>

lemma safely_step_down:
  "node_inv n \<Longrightarrow> safely (store n) (store (if t > currentTerm n then becomeFollower n t None None else n))"
  by (simp add: safely_becomeFollower safely_refl store_ok_node)

lemma safely_handleRequestVote:
  assumes "node_inv n"
  shows "safely (store n) (store (fst (handleRequestVote n args)))"
proof -
  let ?n = "if rv_term args > currentTerm n then becomeFollower n (rv_term args) None None else n"
  have inv: "node_inv ?n" using assms by (simp add: node_inv_becomeFollower)
  then have "log_inv (?n\<lparr>votedFor := v, currentTerm := t\<rparr>)" for v t by (simp add: node_inv_def)
  from safely_persistState[OF this] have "safely (store ?n) (store (persistState (?n\<lparr>votedFor := v, currentTerm := t\<rparr>)))" for v t
    using store_ok_node[OF inv] by simp
  then have "safely (store ?n) (store (fst (handleRequestVote n args)))"
    using safely_refl[OF store_ok_node[OF inv]] by (simp add: handleRequestVote_def Let_def)
  with safely_step_down[OF assms] show ?thesis by (rule safely_trans)
qed

lemma safely_handleAppendEntries:
  assumes "node_inv n" and "ae_wf args"
  shows "safely (store n) (store (fst (handleAppendEntries n args)))"
proof (cases "ae_term args < currentTerm n")
  case False
  let ?n = "accept_leader n (ae_term args) (ae_leaderId args) (ae_leaderAddr args)"
  have inv: "node_inv ?n" using assms(1) by (rule node_inv_accept_leader)
  have "safely (store ?n) (store (fst (handleAppendEntries n args)))"
  proof (cases "log_consistent (raftLog ?n) args")
    case True
    let ?r = "ae_loop (lastIncludedIndex (raftLog ?n)) (commitIndex ?n) (ae_entries args) (raftLog ?n)"
    have wf: "log_wf (raftLog ?n)" "log_durable (raftLog ?n)" "lastIncludedIndex (raftLog ?n) \<le> commitIndex ?n"
      "commitIndex ?n \<le> getLastIndex (raftLog ?n)" using inv by (auto simp: node_inv_def log_inv_def)
    have s: "Suc (ae_prevLogIndex args) \<le> getLastIndex (raftLog ?n) + 1" using log_consistent_range[OF True] by simp
    have m: "node_inv (?n\<lparr>raftLog := l\<rparr>)" "safely (store ?n) (persistence l)" if "?r = Inl l \<or> ?r = Inr l" for l
      using ae_merge[OF inv assms(2) True] that
        safely_ae_loop[OF wf(1,2) refl wf(3,4) assms(2)[unfolded ae_wf_def] s commit_on_disk[OF inv], of l]
      by (auto intro: node_inv_merged[OF inv])
    have "safely (store ?n) (store (follow_commit (?n\<lparr>raftLog := l\<rparr>) c))" if "?r = Inl l \<or> ?r = Inr l" for l c
      using safely_trans[OF m(2)[OF that]] safely_follow_commit[OF m(1)[OF that], of c] by simp
    then show ?thesis using True False m(2) by (auto simp: handleAppendEntries_def Let_def split: sum.split)
  qed (use False safely_refl[OF store_ok_node[OF inv]] in \<open>simp add: handleAppendEntries_def Let_def\<close>)
  with safely_accept_leader[OF assms(1)] show ?thesis by (rule safely_trans)
qed (simp add: handleAppendEntries_def safely_refl store_ok_node assms(1))

lemma safely_handleHeartbeat:
  assumes "node_inv n"
  shows "safely (store n) (store (fst (handleHeartbeat n args)))"
  using safely_trans[OF safely_accept_leader[OF assms] safely_follow_commit[OF node_inv_accept_leader[OF assms]]]
  by (simp add: handleHeartbeat_def Let_def safely_refl store_ok_node assms)

lemma safely_handleInstallSnapshot:
  assumes "node_inv n"
  shows "safely (store n) (store (fst (handleInstallSnapshot n args)))"
  using safely_trans[OF safely_accept_leader[OF assms] safely_applySnapshot[OF node_inv_accept_leader[OF assms]]]
  by (simp add: handleInstallSnapshot_def Let_def safely_refl store_ok_node assms safely_accept_leader)

lemma safely_catch_up_base:
  assumes "node_inv n"
  shows "safely (store n) (store (catch_up_base n r))"
proof -
  let ?n = "if slr_term r > currentTerm n then becomeFollower n (slr_term r) None None else n"
  have inv: "node_inv ?n" using assms by (simp add: node_inv_becomeFollower)
  have "safely (store m) (store (case slr_snapshot r of None \<Rightarrow> m | Some sn \<Rightarrow> if sn_lastIncludedIndex sn > commitIndex m
      then applySnapshot m (sn_lastIncludedIndex sn) (sn_lastIncludedTerm sn) (sn_boards sn) else m))" if "node_inv m" for m
    using safely_refl[OF store_ok_node[OF that]] safely_applySnapshot[OF that] by (simp split: option.split)
  from this[OF inv] have "safely (store ?n) (store (catch_up_base n r))"
    by (simp only: catch_up_base_def Let_def)
  with safely_step_down[OF assms] show ?thesis by (rule safely_trans)
qed

lemma safely_catch_up_apply:
  assumes "node_inv n" and "sync_wf n r"
  shows "safely (store n) (store (catch_up_apply n r))"
proof -
  let ?n = "catch_up_base n r"
  let ?l = "cu_loop (lastIncludedIndex (raftLog ?n)) (commitIndex ?n) (sync_entries r) (raftLog ?n)"
  note base = catch_up_base_inv[OF assms(1), of r]
  obtain s where s: "entries_from s (sync_entries r)" "s \<le> getLastIndex (raftLog n) + 1"
    using assms(2) by (rule sync_wf_from)
  have l: "safely (store ?n) (persistence ?l)"
    using base s commit_on_disk[OF base(1)] by (intro safely_cu_loop) (auto simp: node_inv_def log_inv_def)
  have "safely (store n) (store (?n\<lparr>raftLog := ?l\<rparr>))"
    using safely_trans[OF safely_catch_up_base[OF assms(1)] l] by simp
  from safely_trans[OF this safely_follow_commit[OF node_inv_merged[OF base(1) catch_up_merged[OF assms]]]]
  show ?thesis by (simp add: catch_up_apply_eq Let_def)
qed

lemma safely_new: "store_ok p \<Longrightarrow> safely p (store (new_RaftNode cfg tm m p))"
  using safely_applyCommitted[OF opened_inv, of p cfg tm m] by (simp add: new_RaftNode_opened) (simp add: opened_def)

lemma store_finalizeElection [simp]: "store (fst (finalizeElection n el)) = store n"
  by (simp add: finalizeElection_def becomeLeader_def Let_def)

lemma store_drive_peers [simp]: "store (fst (drive_peers n ps)) = store n"
  by (induction ps arbitrary: n) (simp_all add: split_beta driveReplication_def Let_def)

lemma safely_runElection:
  assumes "node_inv n"
  shows "safely (store n) (store (fst (runElection n)))"
proof -
  let ?m = "n\<lparr>state := Candidate, currentTerm := currentTerm n + 1, votedFor := Some (my_id n), leaderId := None\<rparr>"
  have "safely (store ?m) (store (persistState ?m))"
    using assms store_ok_node[OF assms] by (intro safely_persistState) (simp_all add: node_inv_def)
  then show ?thesis by (simp add: runElection_def becomeCandidate_def Let_def)
qed

lemma safely_vote_settled:
  assumes "node_inv n"
  shows "safely (store n) (store (fst (vote_settled n el reply)))"
proof -
  have "store (fst (vote_finally m e)) = store m" for m e by (simp add: vote_finally_def Let_def)
  moreover have "safely (store n) (store (fst (vote_then n el r)))" for r
    by (simp add: vote_then_def Let_def safely_becomeFollower assms safely_refl store_ok_node)
  ultimately show ?thesis
    by (cases reply) (simp_all add: vote_settled_def split_beta safely_refl store_ok_node assms)
qed

lemma safely_confirm_loop: "node_inv n \<Longrightarrow> safely (store n) (store (fst (confirm_loop n results acks)))"
  by (induction n results acks rule: confirm_loop.induct)
    (simp_all add: safely_becomeFollower safely_refl store_ok_node)

lemma safely_client_write_begin:
  assumes "node_inv n" and "client_write_begin n stroke = Inr (n', i)"
  shows "safely (store n) (store n')"
proof -
  have "store_ok (store n')" using node_inv_client_write_begin[OF assms] by (rule store_ok_node)
  moreover have "\<exists>e. store n' = persist_call (store n) (AppendLog e)"
    using assms(2) by (auto simp: client_write_begin_def Let_def log_append_def appendLog_def split: if_splits)
  ultimately show ?thesis using safely_call[OF store_ok_node[OF assms(1)]] by auto
qed

lemma safely_client_write_check:
  "node_inv n \<Longrightarrow> client_write_check n i latency = Some r \<Longrightarrow> safely (store n) (store (fst r))"
  by (auto simp: client_write_check_def Let_def safely_updateCommitIndex safely_refl store_ok_node split: if_splits)

lemma safely_replication_settled: "node_inv n \<Longrightarrow> safely (store n) (store (replication_settled n peer r outcome))"
  by (simp add: replication_settled_def appendEntries_settled_def installSnapshot_settled_def Let_def
      safely_becomeFollower safely_refl store_ok_node split: replication.split rpc_outcome.split)

text \<open>Whatever a replica handles, a crash outside the window leaves a store that can be opened.\<close>
lemma safely_deliver:
  assumes "node_inv n" and "event_wf n ev"
  shows "safely (store n) (store (deliver n ev))"
proof (cases ev)
  case ElectionTimeout
  have "safely (store n) (store (fst (runElection (n\<lparr>timers := tm\<rparr>))))" for tm
    using safely_runElection[of "n\<lparr>timers := tm\<rparr>"] assms(1) by simp
  with ElectionTimeout show ?thesis
    using assms(1) by (simp add: onElectionTimeout_def Let_def split_beta safely_refl store_ok_node)
next
  case (ClientWrite stroke)
  then show ?thesis using assms(1) safely_client_write_begin[OF assms(1)]
    by (auto simp: safely_refl store_ok_node split: sum.split)
next
  case (WriteRoundSettled i latency)
  then show ?thesis using assms(1) safely_client_write_check[OF assms(1)]
    by (force simp: safely_refl store_ok_node split: option.split)
next
  case (SyncLog args)
  then show ?thesis using assms(1)
    by (simp add: handleSyncLog_def Let_def safely_becomeFollower safely_refl store_ok_node split: option.split)
qed (use assms in \<open>simp_all add: safely_handleRequestVote safely_handleAppendEntries safely_handleHeartbeat
    safely_handleInstallSnapshot safely_vote_settled safely_replication_settled safely_catch_up_apply safely_new
    safely_updateCommitIndex sendHeartbeats_begin_def sendHeartbeats_end_def confirmLeadership_end_def split_beta
    safely_confirm_loop safely_refl store_ok_node\<close>)

section \<open>The machine\<close>

text \<open>What a catch-up request is answered: entries that run on from the index it asks for.\<close>
definition answers :: "sync_log_args \<Rightarrow> sync_log_result \<Rightarrow> bool" where
  "answers args r \<longleftrightarrow> entries_from (sl_fromIndex args) (slr_entries r)"

lemma entries_from_filter: "entries_from s es \<Longrightarrow> entries_from s (filter (\<lambda>e. e_index e \<le> c) es)"
proof (induction es arbitrary: s)
  case (Cons e es)
  have above: "\<forall>x\<in>set xs. t \<le> e_index x" if "entries_from t xs" for t xs
    using that by (induction xs arbitrary: t) (simp_all, fastforce)
  show ?case
  proof (cases "e_index e \<le> c")
    case True
    then show ?thesis using Cons by simp
  next
    case False
    then have "filter (\<lambda>e. e_index e \<le> c) es = []"
      using above[of "Suc s" es] Cons.prems by (auto simp: filter_empty_conv)
    with False show ?thesis by simp
  qed
qed simp

text \<open>That is what a replica with a disk answers.\<close>
lemma sync_log_answers:
  assumes "node_inv m" and "pkind (store m) = FilePersistence" and "0 < sl_fromIndex args"
  shows "answers args (snd (handleSyncLog m args))"
proof -
  let ?m = "if sl_term args > currentTerm m then becomeFollower m (sl_term args) None None else m"
  have inv: "node_inv ?m" "pkind (store ?m) = FilePersistence" using assms by (simp_all add: node_inv_becomeFollower)
  have wf: "log_wf (raftLog ?m)" "log_durable (raftLog ?m)" using inv(1) by (auto simp: node_inv_def log_inv_def)
  have "loadSnapshot (store ?m) \<noteq> None" if "sl_fromIndex args \<le> lastIncludedIndex (raftLog ?m)"
    using wf(2) inv(2) that assms(3) by (auto simp: log_durable_fields split: option.splits)
  moreover have "entries_from i (getEntriesFrom (raftLog ?m) i)" if "lastIncludedIndex (raftLog ?m) < i" for i
    using entries_from_getEntriesFrom[OF wf(1) that, of "length (getEntriesFrom (raftLog ?m) i)"] by simp
  ultimately have "entries_from (sl_fromIndex args) (slr_entries (snd (handleSyncLog m args)))"
    by (auto simp: handleSyncLog_def Let_def entries_from_filter split: option.splits)
  then show ?thesis by (simp add: answers_def)
qed

text \<open>
  What may arrive at a replica that has asked \<open>Q\<close>: the entries of an AppendEntries run on from its previous index, as every
  leader sends them; and an answer to a catch-up request fits the request, and, if it brings committed entries,
  the log has not been cut below the index asked for.
\<close>
fun fits :: "raft_node \<Rightarrow> sync_log_args set \<Rightarrow> node_event \<Rightarrow> bool" where
  "fits n Q (AppendEntries args) \<longleftrightarrow> ae_wf args"
| "fits n Q (CatchUpSettled r) \<longleftrightarrow>
     (\<exists>args\<in>Q. answers args r \<and> (sync_entries r = [] \<or> sl_fromIndex args \<le> getLastIndex (raftLog n) + 1))"
| "fits n Q _ \<longleftrightarrow> True"

text \<open>A replica and the catch-up requests that its process has sent. It may crash after any part of the disk calls of a
  handler, or of its constructor, and is then opened again; only the window is left out.\<close>
inductive replica_state :: "raft_node \<Rightarrow> sync_log_args set \<Rightarrow> bool" where
  fresh: "disk p = empty_disk \<Longrightarrow> replica_state (new_RaftNode cfg tm m p) {}"
| asks: "replica_state n Q \<Longrightarrow> catch_up_targets n \<noteq> [] \<Longrightarrow> replica_state n (insert (catch_up_args n) Q)"
| handles: "replica_state n Q \<Longrightarrow> fits n Q ev \<Longrightarrow> stays_up ev \<Longrightarrow> replica_state (deliver n ev) Q"
| crashes: "replica_state n Q \<Longrightarrow> fits n Q ev \<Longrightarrow> cs = new_calls (store n) (store (deliver n ev)) \<Longrightarrow> \<not> window cs k \<Longrightarrow>
    replica_state (new_RaftNode (config n) tm m (crash_after (store n) k cs)) {}"

lemma fits_wf:
  assumes "fits n Q ev"
  shows "event_wf n ev"
proof (cases ev)
  case (CatchUpSettled r)
  with assms obtain args where "answers args r"
    and cut: "sync_entries r = [] \<or> sl_fromIndex args \<le> getLastIndex (raftLog n) + 1" by auto
  then have "entries_from (sl_fromIndex args) (sync_entries r)"
    by (simp add: answers_def sync_entries_def entries_from_filter)
  with cut CatchUpSettled show ?thesis by (auto simp: sync_wf_def split: list.split)
qed (use assms in auto)

lemma node_inv_replica_state: "replica_state n Q \<Longrightarrow> node_inv n"
proof (induction rule: replica_state.induct)
  case (crashes n Q ev cs k tm m)
  have "store_ok (crash_after (store n) k cs)"
    using crash_outside_window[OF safely_deliver[OF crashes.IH fits_wf[OF crashes.hyps(2)]]] crashes.hyps(3,4) by simp
  then show ?case by (rule node_inv_new)
qed (simp_all add: node_inv_new store_ok_empty node_inv_deliver fits_wf)

text \<open>C2: The invariant of a replica. Let it handle any messages, timers, writes and answers, and let it crash at any
  point, also between two disk calls of a handler or of its constructor, and be opened again on what the disk
  then holds. The log is indexed without gaps, the snapshot boundary, the applied index, the commit index and the end of
  the log are ordered, exactly the committed entries are applied, and with \<open>FilePersistence\<close> the disk gives
  back the term, the vote, the commit index, the log and the boards (but for \<open>__proto__\<close>) the replica works with. Three things are
  left out: a crash between the two disk calls in which a received snapshot is installed; the answer to a catch-up request
  that arrives when the log has been cut below the index that was asked for; and messages whose entries do not run on, as they do
  from leaders and, in answers to catch-up requests, from replicas with a disk.\<close>
theorem replica_invariant:
  assumes "replica_state n Q"
  shows "log_wf (raftLog n) \<and> lastIncludedIndex (raftLog n) \<le> lastApplied n \<and>
    lastApplied n = commitIndex n \<and> commitIndex n \<le> getLastIndex (raftLog n) \<and>
    (pkind (store n) = FilePersistence \<longrightarrow>
      new_RaftLog (store n) = raftLog n \<and>
      ps_currentTerm (loadState (store n)) = currentTerm n \<and> ps_votedFor (loadState (store n)) = votedFor n \<and>
      max (ps_commitIndex (loadState (store n))) (lastIncludedIndex (raftLog n)) = commitIndex n \<and>
      same_boards (boards n) (replayed (raftLog n) (commitIndex n)))"
  using node_inv_replica_state[OF assms]
  by (auto simp: node_inv_def log_inv_def log_durable_def boards_inv_def state_saved_def)

text \<open>A follower that crashes after three of the five disk calls of an AppendEntries: a term and two entries.\<close>
definition sample_crashed :: raft_node where
  "sample_crashed = new_RaftNode sample_config sample_timers new_metrics
     (crash_after (store sample_node) 3 (new_calls (store sample_node) (store sample_follower)))"

lemma sample_node_state: "replica_state sample_node {}"
  unfolding sample_node_def by (rule replica_state.fresh) (simp add: sample_store_def)

lemma sample_crashed_state: "replica_state sample_crashed {}"
proof -
  have "config sample_node = sample_config" "\<not> window (new_calls (store sample_node) (store sample_follower)) 3" by code_simp+
  moreover have "fits sample_node {} (AppendEntries sample_append)" using wf_sample_append by simp
  ultimately show ?thesis
    using replica_state.crashes[OF sample_node_state, of "AppendEntries sample_append"]
    by (simp add: sample_crashed_def sample_follower_def)
qed

theorem replica_invariant_witness:
  "log_wf (raftLog sample_crashed) \<and> getLastIndex (raftLog sample_crashed) = 2 \<and> commitIndex sample_crashed = 0"
proof -
  have "getLastIndex (raftLog sample_crashed) = 2 \<and> commitIndex sample_crashed = 0" by code_simp
  then show ?thesis using replica_invariant[OF sample_crashed_state] by simp
qed

section \<open>Why a late answer is left out\<close>

lemma cu_loop_gap:
  assumes "entries_from s es" and "getLastIndex l + 1 < s"
  shows "entries (cu_loop (lastIncludedIndex l) commit es l) = entries l @ es \<and>
    lastIncludedIndex (cu_loop (lastIncludedIndex l) commit es l) = lastIncludedIndex l"
  using assms
proof (induction es arbitrary: s l)
  case (Cons e es)
  have s: "e_index e = s" "entries_from (Suc s) es" using Cons.prems(1) by simp_all
  then have none: "getEntry l (e_index e) = None" using Cons.prems(2) by (simp add: getEntry_None_iff)
  then have "place l e = log_append l e" by (rule rl.place_absent)
  moreover have "\<not> e_index e \<le> lastIncludedIndex l"
    using s(1) Cons.prems(2) lastIncludedIndex_le_last[of l] by linarith
  ultimately have "cu_loop (lastIncludedIndex l) commit (e # es) l = cu_loop (lastIncludedIndex (log_append l e)) commit es (log_append l e)"
    using none by simp
  moreover have "getLastIndex (log_append l e) + 1 < Suc s" using Cons.prems(2) by simp
  ultimately show ?case
    using Cons.IH[OF s(2), of "log_append l e"] by (simp del: cu_loop.simps) (simp add: log_append_def)
qed simp

lemma catch_up_base_plain:
  assumes "slr_snapshot r = None"
  shows "entries (raftLog (catch_up_base n r)) = entries (raftLog n)"
    and "lastIncludedIndex (raftLog (catch_up_base n r)) = lastIncludedIndex (raftLog n)"
    and "commitIndex (catch_up_base n r) = commitIndex n"
  using assms by (simp_all add: catch_up_base_def Let_def)

lemma last_entry_index: "entries_from s es \<Longrightarrow> es \<noteq> [] \<Longrightarrow> e_index (last es) = s + length es - 1"
proof -
  assume "entries_from s es" "es \<noteq> []"
  then have "e_index (es ! (length es - 1)) = s + (length es - 1)" by (simp add: entries_from_nth)
  with \<open>es \<noteq> []\<close> show ?thesis by (simp add: last_conv_nth Nat.add_diff_assoc Suc_le_eq)
qed

lemma applied_all: "lastApplied n \<le> commitIndex n \<Longrightarrow> lastApplied (apply_loop n) = commitIndex n"
proof (induction n rule: apply_loop.induct)
  case (1 n)
  then show ?case by (cases "lastApplied n < commitIndex n") (simp_all add: apply_loop.simps[of n])
qed

text \<open>C38: The answer to a catch-up request can leave a gap. \<open>requestCatchUp\<close> does not check that an answer still continues
  the log: if, while it waits, a leader's AppendEntries cuts the log below the index that was asked for, the committed
  entries of the answer are appended right after what is left. The replica then commits and applies each of them under an
  index that is lower than its own, and skips the committed entries in between.\<close>
theorem late_catch_up_answer_leaves_gap:
  assumes "replica_state n Q" and "args \<in> Q" and "answers args r" and "slr_snapshot r = None"
    and "sync_entries r \<noteq> []" and "getLastIndex (raftLog n) + 1 < sl_fromIndex args"
  shows "let n' = deliver n (CatchUpSettled r); i = getLastIndex (raftLog n) + 1; es = sync_entries r in
    commitIndex n' = getLastIndex (raftLog n) + length es \<and> lastApplied n' = commitIndex n' \<and>
    (\<forall>k < length es. i + k < e_index (es ! k) \<and>
       (lastIncludedIndex (raftLog n') < i + k \<longrightarrow> getEntry (raftLog n') (i + k) = Some (es ! k)))"
proof -
  let ?i = "getLastIndex (raftLog n) + 1" and ?es = "sync_entries r" and ?b = "catch_up_base n r"
  note base = catch_up_base_plain[OF assms(4), of n]
  let ?l = "cu_loop (lastIncludedIndex (raftLog ?b)) (commitIndex ?b) ?es (raftLog ?b)"
  have es: "entries_from (sl_fromIndex args) ?es"
    using assms(3) by (simp add: answers_def sync_entries_def entries_from_filter)
  have "getLastIndex (raftLog ?b) + 1 < sl_fromIndex args"
    using assms(6) base by (simp add: getLastIndex_def)
  from cu_loop_gap[OF es this, of "commitIndex ?b"] base(1,2)
  have l: "entries ?l = entries (raftLog n) @ ?es" "lastIncludedIndex ?l = lastIncludedIndex (raftLog n)" by simp_all
  have inv: "commitIndex n \<le> getLastIndex (raftLog n)" "lastIncludedIndex (raftLog n) \<le> commitIndex n"
    using node_inv_replica_state[OF assms(1)] by (auto simp: node_inv_def log_inv_def)
  let ?m = "?b\<lparr>raftLog := ?l\<rparr>"
  have last: "getLastIndex ?l = getLastIndex (raftLog n) + length ?es" "lastIncludedIndex ?l = lastIncludedIndex (raftLog n)"
    using l by (simp_all add: getLastIndex_def)
  have range: "lastIncludedIndex (raftLog ?m) \<le> commitIndex ?m" "commitIndex ?m \<le> getLastIndex (raftLog ?m)"
    using last inv base(3) by simp_all
  have n': "deliver n (CatchUpSettled r) = follow_commit ?m (slr_commitIndex r)"
    by (simp add: catch_up_apply_eq Let_def)
  have "last ?es \<in> set ?es" using assms(5) by simp
  then have "e_index (last ?es) \<le> slr_commitIndex r" by (simp add: sync_entries_def)
  then have "getLastIndex ?l < slr_commitIndex r"
    using last_entry_index[OF es assms(5)] last(1) assms(5,6) by (cases ?es) auto
  then have commit: "commitIndex (deliver n (CatchUpSettled r)) = getLastIndex (raftLog n) + length ?es"
    unfolding n' using follow_commit_commitIndex[of ?m "slr_commitIndex r"] range last inv base(3) by (simp add: max_def)
  have "getEntry ?l (?i + k) = Some (?es ! k)" if "k < length ?es" for k
    using that l by (simp add: getEntry_def getLastIndex_def js_at_def nth_append)
  moreover have "?i + k < e_index (?es ! k)" if "k < length ?es" for k
    using es that assms(6) by (simp add: entries_from_nth)
  moreover have "lastApplied (follow_commit ?m (slr_commitIndex r)) = commitIndex (follow_commit ?m (slr_commitIndex r))"
  proof -
    have "lastApplied (catch_up_base n r) = commitIndex n"
      using node_inv_replica_state[OF assms(1)] assms(4) by (simp add: catch_up_base_def node_inv_def Let_def)
    then show ?thesis
      using base(3) last(1) inv applied_all by (simp add: follow_commit_def applyCommitted_def maybeSnapshot_def)
  qed
  ultimately show ?thesis
    using commit follow_commit_log(3)[OF range] unfolding n' Let_def by simp
qed

text \<open>A follower with five entries, two of them committed, asks for the sixth; then the leader of term 2 replaces the third.\<close>
definition sample_asking :: raft_node where
  "sample_asking = deliver sample_follower (AppendEntries (sample_append\<lparr>ae_prevLogIndex := 3, ae_prevLogTerm := 1,
     ae_entries := [sample_entry 4 1, sample_entry 5 1]\<rparr>))"

definition sample_cut :: raft_node where
  "sample_cut = deliver sample_asking (AppendEntries (sample_append\<lparr>ae_term := 2, ae_prevLogIndex := 2, ae_prevLogTerm := 1,
     ae_entries := [sample_entry 3 2]\<rparr>))"

definition sample_late :: sync_log_result where
  "sample_late = \<lparr>slr_term = 2, slr_entries = [sample_entry 6 2, sample_entry 7 2], slr_commitIndex = 7, slr_snapshot = None\<rparr>"

lemma sample_follower_state: "replica_state sample_follower {}"
  unfolding sample_follower_def
  using replica_state.handles[OF sample_node_state, of "AppendEntries sample_append"] wf_sample_append by simp

lemma sample_cut_state: "replica_state sample_cut {catch_up_args sample_asking}"
proof -
  have "replica_state sample_asking {}"
    unfolding sample_asking_def
    by (rule replica_state.handles[OF sample_follower_state]) (simp_all add: ae_wf_def sample_entry_def sample_append_def)
  moreover have "catch_up_targets sample_asking \<noteq> []" by code_simp
  ultimately have "replica_state sample_asking {catch_up_args sample_asking}" using replica_state.asks by fastforce
  then show ?thesis
    unfolding sample_cut_def
    by (rule replica_state.handles) (simp_all add: ae_wf_def sample_entry_def sample_append_def)
qed

theorem late_catch_up_answer_leaves_gap_witness:
  "commitIndex (deliver sample_cut (CatchUpSettled sample_late)) = 5 \<and>
   getEntry (raftLog (deliver sample_cut (CatchUpSettled sample_late))) 4 = Some (sample_entry 6 2)"
proof -
  have from_six: "sl_fromIndex (catch_up_args sample_asking) = 6" "getLastIndex (raftLog sample_cut) = 3"
    "lastIncludedIndex (raftLog (deliver sample_cut (CatchUpSettled sample_late))) = 0" by code_simp+
  moreover have "answers (catch_up_args sample_asking) sample_late"
    using from_six(1) by (simp add: answers_def sample_late_def sample_entry_def)
  moreover have "sync_entries sample_late = [sample_entry 6 2, sample_entry 7 2]" "slr_snapshot sample_late = None"
    by (simp_all add: sync_entries_def sample_late_def sample_entry_def)
  ultimately show ?thesis
    using late_catch_up_answer_leaves_gap[OF sample_cut_state, of "catch_up_args sample_asking" sample_late]
    by (auto simp: Let_def simp del: deliver.simps)
qed

section \<open>Why the window is left out\<close>

lemma apply_loop_empty:
  assumes "entries (raftLog n) = []"
  shows "boards (apply_loop n) = boards n"
  using assms
proof (induction n rule: apply_loop.induct)
  case (1 n)
  have "boards (apply_next n) = boards n"
    using 1(2) by (simp add: apply_next_def getEntry_def js_at_def Let_def)
  then show ?case using 1 by (cases "lastApplied n < commitIndex n") (simp_all add: apply_loop.simps[of n])
qed

text \<open>What is opened on a store whose log is gone: the boards of its snapshot, whatever it had committed.\<close>
lemma opened_without_log:
  assumes "loadLog p = []"
  shows "entries (raftLog (new_RaftNode cfg tm m p)) = []" and "boards (new_RaftNode cfg tm m p) = snapshot_state p"
proof -
  have "entries (new_RaftLog p) = []" using assms by (simp add: new_RaftLog_def Let_def split: option.split)
  then have o: "entries (raftLog (opened cfg tm m p)) = []" by (simp add: opened_def)
  then show "entries (raftLog (new_RaftNode cfg tm m p)) = []"
    by (simp add: new_RaftNode_opened applyCommitted_def maybeSnapshot_def takeSnapshot_def log_compact_def js_slice_def Let_def)
  show "boards (new_RaftNode cfg tm m p) = snapshot_state p"
    using apply_loop_empty[OF o] by (simp add: new_RaftNode_opened applyCommitted_def maybeSnapshot_def) (simp add: opened_def)
qed

lemma opened_commit: "commitIndex (new_RaftNode cfg tm m p) = max (ps_commitIndex (loadState p)) (lastIncludedIndex (new_RaftLog p))"
  by (simp add: new_RaftNode_opened) (simp add: opened_def)

text \<open>C40: Installing a received snapshot is not crash safe, because the log is rewritten before the snapshot is saved. When a
  follower with a disk is sent a snapshot that is beyond its commit index and covers its log, there is a point in the handler
  such that, if the process crashes there and is started again, the replica has the same commit index, but its log is empty
  and its boards are those of its old snapshot: everything that it had committed since is gone.\<close>
theorem install_snapshot_crash_loses_entries:
  assumes "replica_state n Q" and "pkind (store n) = FilePersistence"
    and "currentTerm n \<le> is_term args" and "commitIndex n < is_lastIncludedIndex args"
    and "getLastIndex (raftLog n) \<le> is_lastIncludedIndex args"
  shows "\<exists>k. \<forall>cfg tm m. let cs = new_calls (store n) (store (fst (handleInstallSnapshot n args)));
      n' = new_RaftNode cfg tm m (crash_after (store n) k cs) in
    window cs k \<and> commitIndex n' = commitIndex n \<and> entries (raftLog n') = [] \<and> boards n' = snapshot_state (store n)"
proof -
  let ?n = "accept_leader n (is_term args) (is_leaderId args) None"
  let ?sn = "\<lparr>sn_lastIncludedIndex = is_lastIncludedIndex args, sn_lastIncludedTerm = is_lastIncludedTerm args, sn_boards = is_boards args\<rparr>"
  have inv: "node_inv ?n" using node_inv_replica_state[OF assms(1)] by (rule node_inv_accept_leader)
  obtain cs where cs: "store ?n = foldl persist_call (store n) cs"
    using safely_accept_leader[OF node_inv_replica_state[OF assms(1)], of "is_term args" "is_leaderId args" None]
    unfolding safely_def by blast
  have wf: "log_wf (raftLog ?n)" "lastIncludedIndex (raftLog ?n) \<le> is_lastIncludedIndex args"
    using inv assms(4) by (auto simp: node_inv_def log_inv_def)
  have gone: "entries (log_installSnapshot (raftLog ?n) (is_lastIncludedIndex args) t) = []" for t
    using log_wf_install(1)[OF wf] assms(5) by (simp add: getLastIndex_def)
  let ?st = "\<lparr>ps_currentTerm = currentTerm ?n, ps_votedFor = votedFor ?n, ps_commitIndex = is_lastIncludedIndex args\<rparr>"
  have "store (fst (handleInstallSnapshot n args)) =
      persist_call (persist_call (persist_call (store ?n) (RewriteLog [])) (SaveSnapshot ?sn)) (SaveState ?st)"
    using assms(3,4) gone
    by (simp add: handleInstallSnapshot_def applySnapshot_def persistState_def Let_def saveState_def saveSnapshot_def)
      (simp add: log_installSnapshot_def rewriteLog_def Let_def)
  then have all: "store (fst (handleInstallSnapshot n args)) =
      foldl persist_call (store n) (cs @ [RewriteLog [], SaveSnapshot ?sn, SaveState ?st])"
    by (simp add: cs)
  let ?cs = "new_calls (store n) (store (fst (handleInstallSnapshot n args)))"
  have new: "?cs = cs @ [RewriteLog [], SaveSnapshot ?sn, SaveState ?st]"
    unfolding all new_calls_def calls_foldl by simp
  define p where "p = crash_after (store n) (length cs + 1) ?cs"
  have p: "p = rewriteLog (store ?n) []" by (simp add: p_def new crash_after_def cs rewriteLog_def)
  have kind: "pkind (store ?n) = FilePersistence" using assms(2) by simp
  have "loadLog p = []" and st: "loadState p = loadState (store ?n)" and snap: "loadSnapshot p = loadSnapshot (store ?n)"
    unfolding p using kind by (simp_all add: file_store.load_saved)
  note o = opened_without_log[OF this(1)]
  have "snapshot_state (store ?n) = snapshot_state (store n)"
    by (simp add: accept_leader_def becomeFollower_def persistState_def Let_def)
  then have boards: "snapshot_state p = snapshot_state (store n)" by (simp add: snapshot_state_def snap)
  have "lastIncludedIndex (new_RaftLog p) = lastIncludedIndex (new_RaftLog (store ?n))"
    by (simp add: new_RaftLog_def Let_def snap split: option.split)
  also have "\<dots> = lastIncludedIndex (raftLog ?n)" using inv kind by (simp add: node_inv_def log_inv_def log_durable_def)
  finally have "max (ps_commitIndex (loadState p)) (lastIncludedIndex (new_RaftLog p)) = commitIndex n"
    using inv kind st by (simp add: node_inv_def state_saved_def)
  then have "commitIndex (new_RaftNode cfg tm m p) = commitIndex n" for cfg tm m by (simp add: opened_commit)
  moreover have "window ?cs (length cs + 1)" by (simp add: new window_def nth_append)
  ultimately have "window ?cs (length cs + 1) \<and> commitIndex (new_RaftNode cfg tm m p) = commitIndex n \<and>
      entries (raftLog (new_RaftNode cfg tm m p)) = [] \<and> boards (new_RaftNode cfg tm m p) = snapshot_state (store n)" for cfg tm m
    using o boards by simp
  then show ?thesis unfolding Let_def p_def by blast
qed

definition sample_install :: install_snapshot_args where
  "sample_install = \<lparr>is_term = 1, is_leaderId = ''replica2'', is_lastIncludedIndex = 3, is_lastIncludedTerm = 1,
     is_boards = [(''b'', [sample_stroke ''A'', sample_stroke ''B'', sample_stroke ''C''])]\<rparr>"

text \<open>A follower that has committed and applied two strokes.\<close>
theorem install_snapshot_crash_loses_entries_witness:
  "commitIndex sample_follower = 2 \<and> length (getStrokes (boards sample_follower) ''b'') = 2 \<and>
   (\<exists>k. let n' = new_RaftNode sample_config sample_timers new_metrics (crash_after (store sample_follower) k
        (new_calls (store sample_follower) (store (fst (handleInstallSnapshot sample_follower sample_install))))) in
      commitIndex n' = 2 \<and> entries (raftLog n') = [] \<and> getStrokes (boards n') ''b'' = [])"
proof -
  have f: "commitIndex sample_follower = 2" "length (getStrokes (boards sample_follower) ''b'') = 2"
    "getStrokes (snapshot_state (store sample_follower)) ''b'' = []"
    "currentTerm sample_follower \<le> is_term sample_install" "getLastIndex (raftLog sample_follower) \<le> is_lastIncludedIndex sample_install"
    "commitIndex sample_follower < is_lastIncludedIndex sample_install" by code_simp+
  from install_snapshot_crash_loses_entries[OF sample_follower_state pkind_follower f(4,6,5)] f(1-3)
  show ?thesis unfolding Let_def by metis
qed

end
