(* ===== verification/Local_Props.thy ===== *)
theory Local_Props
  imports Boards Timers Metrics
begin

text \<open>
  The properties of the parts of a replica that hold without any cluster: the boards and their
  snapshots, the election timer, and the latency histogram.
\<close>

section \<open>Boards\<close>

text \<open>C24: The replica's boards refine the abstract board: after any sequence of events, what a board
  shows is the replay of its own events alone, whatever happened on other boards in between. So
  replicas that applied the same events show the same strokes.\<close>
theorem boards_refine_replay:
  "getStrokes (foldl applyBoardEvent new_boards evs) b =
     bv_visible (replay_view (filter (\<lambda>e. boardId e = b) evs))"
  using replica_boards.view_replay[of new_boards b evs]
  by (simp add: getStrokes_view)

text \<open>A visible stroke is never undone: every stroke a board shows was submitted to it and its id is
  not in the board's set of undone strokes.\<close>
theorem visible_never_undone:
  "set (getStrokes (foldl applyBoardEvent new_boards evs) b) \<subseteq>
     {s \<in> set evs. boardId s = b \<and>
        strokeId s \<notin> nullish (undoneStrokeIds (foldl applyBoardEvent new_boards evs) b) {}}"
proof -
  have v: "board_view_of (foldl applyBoardEvent new_boards evs) b = replay_view (filter (\<lambda>e. boardId e = b) evs)"
    by (simp add: replica_boards.view_replay)
  have "view_ok (board_view_of (foldl applyBoardEvent new_boards evs) b)"
    unfolding v by (rule view_ok_replay)
  moreover have "bv_events (board_view_of (foldl applyBoardEvent new_boards evs) b) = filter (\<lambda>e. boardId e = b) evs"
    unfolding v by simp
  ultimately show ?thesis
    by (auto simp: view_ok_def board_view_of_def getStrokes_def)
qed

text \<open>An undone stroke stays hidden, also when its drawing event arrives later or twice, until a
  redo of it arrives on its board.\<close>
theorem undo_hides:
  assumes "action e = Some ActUndo" and "targetStrokeId e = Some t" and "t \<noteq> []"
    and "\<forall>e'\<in>set later. \<not> (boardId e' = boardId e \<and> action e' = Some ActRedo \<and> targetStrokeId e' = Some t)"
  shows "t \<notin> strokeId ` set (getStrokes (foldl applyBoardEvent new_boards (earlier @ e # later)) (boardId e))"
proof -
  let ?on = "filter (\<lambda>x. boardId x = boardId e)"
  have "request_of e = Undo t"
    using assms(1-3) by (simp add: request_of_def)
  moreover have "\<forall>e'\<in>set (?on later). request_of e' \<noteq> Redo t"
    using assms(4) by (auto simp: request_of_Redo nullish_def split: option.splits)
  ultimately have "\<forall>s\<in>set (bv_visible (replay_view (?on earlier @ e # ?on later))). strokeId s \<noteq> t"
    by (rule undo_hides_until_redo)
  then show ?thesis
    using replica_boards.view_replay[of new_boards "boardId e" "earlier @ e # later"]
    by (auto simp: getStrokes_view)
qed

definition draw :: "string \<Rightarrow> stroke" where
  "draw sid = \<lparr>strokeId = sid, boardId = ''b'', userId = ''u'', color = ''red'', width = json_width (whole 3),
     points = json_points [(whole 0, whole 0), (whole 1, whole 1)], timestamp = whole 0, action = None, targetStrokeId = None\<rparr>"

definition undo_of :: "string \<Rightarrow> stroke" where
  "undo_of sid = (draw ''x'')\<lparr>action := Some ActUndo, targetStrokeId := Some sid\<rparr>"

definition redo_of :: "string \<Rightarrow> stroke" where
  "redo_of sid = (draw ''y'')\<lparr>action := Some ActRedo, targetStrokeId := Some sid\<rparr>"

theorem undo_hides_witness:
  "''s'' \<notin> strokeId ` set (getStrokes (foldl applyBoardEvent new_boards ([draw ''s''] @ undo_of ''s'' # [draw ''s''])) ''b'')"
  using undo_hides[of "undo_of ''s''" "''s''" "[draw ''s'']" "[draw ''s'']"]
  by (simp add: undo_of_def draw_def)

text \<open>A redo brings a stroke back: after a redo of a stroke that was drawn on the board, at any time
  before, the board shows a stroke with that id.\<close>
theorem redo_restores:
  assumes "action e = Some ActRedo" and "targetStrokeId e = Some t" and "t \<noteq> []"
    and "d \<in> set earlier" and "boardId d = boardId e" and "strokeId d = t" and "action d \<in> {None, Some ActStroke}"
  shows "t \<in> strokeId ` set (getStrokes (foldl applyBoardEvent new_boards (earlier @ [e])) (boardId e))"
proof -
  let ?on = "filter (\<lambda>x. boardId x = boardId e)"
  have "request_of e = Redo t"
    using assms(1-3) by (simp add: request_of_def)
  moreover have "d \<in> set (bv_events (replay_view (?on earlier)))" "draws t d"
    using assms(4-7) by (auto simp: draws_def)
  ultimately have "\<exists>s\<in>set (bv_visible (view_step (replay_view (?on earlier)) e)). strokeId s = t"
    by (rule redo_shows)
  then show ?thesis
    using replica_boards.view_replay[of new_boards "boardId e" "earlier @ [e]"]
    by (auto simp: getStrokes_view replay_view_append)
qed

theorem redo_restores_witness:
  "''s'' \<in> strokeId ` set (getStrokes (foldl applyBoardEvent new_boards ([draw ''s'', undo_of ''s''] @ [redo_of ''s''])) ''b'')"
  using redo_restores[of "redo_of ''s''" "''s''" "draw ''s''" "[draw ''s'', undo_of ''s'']"]
  by (simp add: redo_of_def undo_of_def draw_def)

text \<open>C30: A snapshot is a faithful copy of the boards, but one: rebuilding the state from the boards object of
  a snapshot gives every board the same events, undone set and visible strokes, in the same order,
  except that a board named \<open>__proto__\<close> comes back empty.\<close>
theorem snapshot_roundtrip:
  "board_view_of (restoreBoardState (snapshot_boards (foldl applyBoardEvent new_boards evs))) b =
    (if b = ''__proto__'' then empty_view else board_view_of (foldl applyBoardEvent new_boards evs) b)"
  by (simp add: view_restore_snapshot replica_boards.ok_foldl)

text \<open>A board named \<open>__proto__\<close> is lost by every snapshot: its strokes are shown before, and
  after a restore the board is empty.\<close>
theorem snapshot_loses_proto_board:
  "let bs = applyBoardEvent new_boards ((draw ''s'')\<lparr>boardId := ''__proto__''\<rparr>) in
     map strokeId (getStrokes bs ''__proto__'') = [''s''] \<and>
     getStrokes (restoreBoardState (snapshot_boards bs)) ''__proto__'' = []"
  by code_simp

section \<open>The election timer and the metrics\<close>

text \<open>Once started, the election timer is re-armed by every reset, with a timeout between the two
  configured bounds plus the replica's skew (300 ms per replica number), which is always more than three
  heartbeat intervals.\<close>
theorem election_timeout_window:
  assumes "electionCallback tm" and "electionSkewMs tm = computeElectionSkew (Some rid)" and "rid \<noteq> []"
  shows "\<exists>ms. electionTimer (resetElectionTimer tm) = Some ms \<and> electionPending (resetElectionTimer tm) \<and>
    500 + 300 * digits_value (filter is_digit rid) \<le> ms \<and> ms \<le> 800 + 300 * digits_value (filter is_digit rid) \<and>
    3 * heartbeatIntervalMs < ms"
proof -
  have skew: "electionSkewMs tm = 300 * digits_value (filter is_digit rid)"
    using assms(2,3) by (simp add: computeElectionSkew_def electionSkewStepMs_def Let_def digits_value_def)
  let ?tm = "if electionTimer tm \<noteq> None then tm\<lparr>electionPending := False\<rparr> else tm"
  have armed: "electionTimer (resetElectionTimer tm) = Some (fst (randomTimeout ?tm))" "electionPending (resetElectionTimer tm)"
    using assms(1) by (simp_all add: resetElectionTimer_def Let_def split_beta)
  have "500 + electionSkewMs tm \<le> fst (randomTimeout ?tm)" "fst (randomTimeout ?tm) \<le> 800 + electionSkewMs tm"
    using randomTimeout_bounds[of ?tm] by (simp_all add: raft_timing split: if_splits)
  with skew armed show ?thesis by (simp add: raft_timing)
qed

theorem election_timeout_window_witness:
  "\<exists>ms. electionTimer (startElectionTimer (new_timers (Some ''replica3'') (\<lambda>i. i))) = Some ms \<and> 1400 \<le> ms"
proof -
  let ?tm = "(new_timers (Some ''replica3'') (\<lambda>i. i))\<lparr>electionCallback := True\<rparr>"
  have "digits_value (filter is_digit ''replica3'') = 3" by code_simp
  then show ?thesis
    using election_timeout_window[of ?tm "''replica3''"] by (auto simp: startElectionTimer_def new_timers_def)
qed

text \<open>The latency histogram is cumulative, as Prometheus expects it: after any observations each
  bucket holds how many of them were at most its bound, the counts ascend with the bounds and none
  exceeds the total, and the total and the sum are those of the observations.\<close>
theorem latency_histogram:
  "let m = foldl observeWriteLatency new_metrics obs in
     latencyBucketCounts m = map (\<lambda>b. length (filter (\<lambda>ms. ms \<le> b) obs)) LATENCY_BUCKETS_MS \<and>
     sorted (latencyBucketCounts m) \<and> (\<forall>k\<in>set (latencyBucketCounts m). k \<le> latencyCount m) \<and>
     latencyCount m = length obs \<and> latencySum m = sum_list obs"
proof -
  have mono: "length (filter (\<lambda>ms. ms \<le> a) obs) \<le> length (filter (\<lambda>ms. ms \<le> b) obs)" if "a \<le> b" for a b :: nat
    using that by (induction obs) auto
  show ?thesis
    by (simp add: Let_def observed_buckets observed_count) (simp add: LATENCY_BUCKETS_MS_def mono)
qed

theorem latency_histogram_witness:
  "latencyBucketCounts (foldl observeWriteLatency new_metrics [3, 7, 2000]) = [1, 2, 2, 2, 2, 2, 2, 2]"
  using latency_histogram[of "[3, 7, 2000]"] by (simp add: Let_def LATENCY_BUCKETS_MS_def)

end
