(* ===== verification/Ledger.thy ===== *)
theory Ledger
  imports Log_Matching "HOL-Library.Sublist"
begin

text \<open>
  The invariant behind leader completeness. A \<open>ledger\<close> keeps what every member's log was in every
  term, as a leader, as a candidate and at all; the central clause (\<open>leaders_complete\<close>) says that each
  leader's log has an electing majority whose marks it has kept, unless a leader in between had lost them.
  From it the theorem follows by induction on the term (\<open>complete_leaders\<close>). The second half shows that
  the invariant outlives every way in which a member can move.
\<close>

section \<open>The ledger\<close>

record ledger =
  logs :: "log_entry list set"
  led :: "(nat \<times> log_entry list) set"
  held :: "(url \<times> nat \<times> log_entry list) set"
  stood :: "(url \<times> nat \<times> log_entry list) set"

text \<open>The ledger after member \<open>u\<close> has become the node \<open>n\<close>.\<close>
definition noted :: "url \<Rightarrow> raft_node \<Rightarrow> ledger \<Rightarrow> ledger" where
  "noted u n g =
     (let l = entries (raftLog n) in
      \<lparr>logs = insert l (logs g),
       led = (if state n = Leader then insert (currentTerm n, l) (led g) else led g),
       held = insert (u, currentTerm n, l) (held g),
       stood = (if state n = Candidate then insert (u, currentTerm n, l) (stood g) else stood g)\<rparr>)"

lemma noted_grows:
  "logs g \<subseteq> logs (noted u n g)" "led g \<subseteq> led (noted u n g)" "held g \<subseteq> held (noted u n g)" "stood g \<subseteq> stood (noted u n g)"
  by (auto simp: noted_def Let_def)

text \<open>\<open>Z\<close> has what \<open>Y\<close> has up to place \<open>i\<close>.\<close>
definition holds :: "log_entry list \<Rightarrow> log_entry list \<Rightarrow> nat \<Rightarrow> bool" where
  "holds Z Y i \<longleftrightarrow> i < length Z \<and> take (Suc i) Z = take (Suc i) Y"

text \<open>A leader of a term between had not.\<close>
definition lacked :: "(nat \<times> log_entry list) set \<Rightarrow> nat \<Rightarrow> nat \<Rightarrow> log_entry list \<Rightarrow> nat \<Rightarrow> bool" where
  "lacked L lo hi Y i \<longleftrightarrow> (\<exists>(t, Z)\<in>L. lo < t \<and> t < hi \<and> \<not> holds Z Y i)"

text \<open>Member \<open>v\<close> has stored the entry at place \<open>i\<close> of \<open>Y\<close> in the term the entry was written in.\<close>
definition marked :: "ledger \<Rightarrow> url \<Rightarrow> log_entry list \<Rightarrow> nat \<Rightarrow> bool" where
  "marked g v Y i \<longleftrightarrow> i < length Y \<and> (v, e_term (Y ! i), Y) \<in> held g"

lemma lacked_mono: "lacked L lo hi Y i \<Longrightarrow> L \<subseteq> L' \<Longrightarrow> hi \<le> hi' \<Longrightarrow> lacked L' lo hi' Y i"
  by (fastforce simp: lacked_def)

lemma holds_refl: "i < length Y \<Longrightarrow> holds Y Y i"
  by (simp add: holds_def)

lemma holds_append: "holds Z Y i \<Longrightarrow> holds (Z @ es) Y i"
  by (auto simp: holds_def)

lemma holds_prefix: "holds Z Y i \<Longrightarrow> prefix Z Z' \<Longrightarrow> holds Z' Y i"
  by (auto simp: prefix_def holds_append)

lemma holds_take: "holds Z Y i \<Longrightarrow> Suc i \<le> q \<Longrightarrow> holds (take q Z) Y i"
  by (simp add: holds_def min_absorb1)

lemma holds_nth: "holds Z Y i \<Longrightarrow> i < length Y \<Longrightarrow> Z ! i = Y ! i"
  unfolding holds_def by (metis lessI nth_take)

lemma holds_lower: "holds Z Y i \<Longrightarrow> j \<le> i \<Longrightarrow> holds Z Y j"
  unfolding holds_def by (metis Suc_le_mono le_less_trans min_def take_take)

lemma holds_sym: "holds Z Y i \<Longrightarrow> i < length Y \<Longrightarrow> holds Y Z i"
  by (simp add: holds_def)

lemma holds_trans: "holds Z Y i \<Longrightarrow> holds Y X i \<Longrightarrow> holds Z X i"
  by (simp add: holds_def)

section \<open>The invariant\<close>

text \<open>A leader's log only grows in a term; its entries are of no later term.\<close>
definition led_ok :: "cluster \<Rightarrow> ledger \<Rightarrow> bool" where
  "led_ok c g \<longleftrightarrow> (\<forall>t Z. (t, Z) \<in> led g \<longrightarrow> Z \<in> logs g \<and> (\<exists>w. (t, w) \<in> elected c) \<and> (\<forall>e\<in>set Z. e_term e \<le> t) \<and>
     (\<forall>Z'. (t, Z') \<in> led g \<longrightarrow> prefix Z Z' \<or> prefix Z' Z))"

definition leaders_lead :: "url set \<Rightarrow> cluster \<Rightarrow> ledger \<Rightarrow> bool" where
  "leaders_lead M c g \<longleftrightarrow> (\<forall>u\<in>M. state (nodes c u) = Leader \<longrightarrow> (currentTerm (nodes c u), log_of c u) \<in> led g \<and>
     (\<forall>Z. (currentTerm (nodes c u), Z) \<in> led g \<longrightarrow> prefix Z (log_of c u)))"

text \<open>Every entry of every log was a leader's in its term, with all before it, and terms do not go back.\<close>
definition origins :: "ledger \<Rightarrow> bool" where
  "origins g \<longleftrightarrow> (\<forall>X\<in>logs g. sorted (map e_term X) \<and>
     (\<forall>i < length X. \<exists>Z. (e_term (X ! i), Z) \<in> led g \<and> holds Z X i))"

definition held_ok :: "url set \<Rightarrow> cluster \<Rightarrow> ledger \<Rightarrow> bool" where
  "held_ok M c g \<longleftrightarrow>
     (\<forall>v\<in>M. (\<forall>e\<in>set (log_of c v). e_term e \<le> currentTerm (nodes c v)) \<and> (v, currentTerm (nodes c v), log_of c v) \<in> held g) \<and>
     (\<forall>v t Y. (v, t, Y) \<in> held g \<longrightarrow> v \<in> M \<and> Y \<in> logs g \<and> t \<le> currentTerm (nodes c v))"

text \<open>A member loses what it has marked only to a leader that lacks it.\<close>
definition kept :: "url set \<Rightarrow> cluster \<Rightarrow> ledger \<Rightarrow> bool" where
  "kept M c g \<longleftrightarrow> (\<forall>v\<in>M. \<forall>Y i. marked g v Y i \<longrightarrow>
     holds (log_of c v) Y i \<or> lacked (led g) (e_term (Y ! i)) (Suc (currentTerm (nodes c v))) Y i)"

definition stood_ok :: "url set \<Rightarrow> cluster \<Rightarrow> ledger \<Rightarrow> bool" where
  "stood_ok M c g \<longleftrightarrow>
     (\<forall>u t C. (u, t, C) \<in> stood g \<longrightarrow> C \<in> logs g \<and> t \<le> currentTerm (nodes c u) \<and> (\<forall>e\<in>set C. e_term e < t) \<and>
        (\<forall>C'. (u, t, C') \<in> stood g \<longrightarrow> C' = C)) \<and>
     (\<forall>u\<in>M. state (nodes c u) = Candidate \<longrightarrow> (u, currentTerm (nodes c u), log_of c u) \<in> stood g)"

text \<open>A vote request describes the log its sender stood with.\<close>
definition last_term :: "log_entry list \<Rightarrow> nat" where
  "last_term C = (if C = [] then 0 else e_term (last C))"

definition asked :: "cluster \<Rightarrow> ledger \<Rightarrow> bool" where
  "asked c g \<longleftrightarrow>
     (\<forall>u v args. (u, v, args) \<in> voteRequests c \<longrightarrow> (\<exists>C. (u, rv_term args, C) \<in> stood g \<and>
        rv_lastLogIndex args = length C \<and> rv_lastLogTerm args = last_term C)) \<and>
     (\<forall>u t v. v \<in> voters c u t \<longrightarrow> (\<exists>C. (u, t, C) \<in> stood g))"

text \<open>Until its term has a leader, a candidate has what its voters have marked before.\<close>
definition votes_kept :: "cluster \<Rightarrow> ledger \<Rightarrow> bool" where
  "votes_kept c g \<longleftrightarrow> (\<forall>u t v C Y i. v \<in> voters c u t \<longrightarrow> (u, t, C) \<in> stood g \<longrightarrow> (\<forall>w. (t, w) \<notin> elected c) \<longrightarrow>
     marked g v Y i \<longrightarrow> e_term (Y ! i) < t \<longrightarrow> holds C Y i \<or> lacked (led g) (e_term (Y ! i)) t Y i)"

definition leaders_complete :: "url set \<Rightarrow> cluster \<Rightarrow> ledger \<Rightarrow> bool" where
  "leaders_complete M c g \<longleftrightarrow> (\<forall>t Z. (t, Z) \<in> led g \<longrightarrow> (\<exists>E. majority_of M E \<and> (\<forall>v\<in>E. t \<le> currentTerm (nodes c v) \<and>
     (\<forall>Y i. marked g v Y i \<longrightarrow> e_term (Y ! i) < t \<longrightarrow> holds Z Y i \<or> lacked (led g) (e_term (Y ! i)) t Y i))))"

text \<open>A message with entries is a piece of its sender's log in its term.\<close>
definition calls_led :: "cluster \<Rightarrow> ledger \<Rightarrow> bool" where
  "calls_led c g \<longleftrightarrow> (\<forall>u v args. (u, v, CallAppend args) \<in> leaderCalls c \<longrightarrow>
     sent_ok {Z. (ae_term args, Z) \<in> led g} (CallAppend args))"

definition complete :: "url set \<Rightarrow> cluster \<Rightarrow> ledger \<Rightarrow> bool" where
  "complete M c g \<longleftrightarrow> matching M c (logs g) \<and> led_ok c g \<and> leaders_lead M c g \<and> origins g \<and> held_ok M c g \<and> kept M c g \<and>
     stood_ok M c g \<and> asked c g \<and> votes_kept c g \<and> leaders_complete M c g \<and> calls_led c g"

lemmas complete_defs = complete_def led_ok_def leaders_lead_def origins_def held_ok_def kept_def stood_ok_def asked_def
  votes_kept_def leaders_complete_def calls_led_def

section \<open>The theorem, on the invariant\<close>

text \<open>What a majority has marked, each in a log of its own, every later leader has.\<close>
lemma complete_leaders:
  assumes inv: "complete M c g" and Q: "majority_of M Q"
    and marks: "\<And>v. v \<in> Q \<Longrightarrow> \<exists>X. marked g v X i \<and> X ! i = Y ! i \<and> holds X Y i"
  shows "(t, Z) \<in> led g \<Longrightarrow> e_term (Y ! i) < t \<Longrightarrow> holds Z Y i"
proof (induction t arbitrary: Z rule: less_induct)
  case (less t)
  obtain E where E: "majority_of M E" "\<And>v X i. v \<in> E \<Longrightarrow> marked g v X i \<Longrightarrow> e_term (X ! i) < t \<Longrightarrow>
      holds Z X i \<or> lacked (led g) (e_term (X ! i)) t X i"
    using inv less.prems(1) unfolding complete_def leaders_complete_def by metis
  obtain v where "v \<in> Q" "v \<in> E"
    using cluster_quorums.quorum_intersect[OF Q E(1)] by auto
  then obtain X where X: "marked g v X i" "X ! i = Y ! i" "holds X Y i" using marks by blast
  have same: "holds Z' X i \<longleftrightarrow> holds Z' Y i" for Z' using X(3) by (simp add: holds_def)
  have "holds Z Y i \<or> lacked (led g) (e_term (Y ! i)) t Y i"
    using E(2)[OF \<open>v \<in> E\<close> X(1)] X(2) less.prems(2) same by (simp add: lacked_def)
  then show ?case using less.IH by (auto simp: lacked_def)
qed

section \<open>A member moves\<close>

text \<open>What can become of a log: it stays, its leader writes an entry, or it becomes a prefix of the log of the
  leader of the new term that goes beyond what the two had in common.\<close>
definition written :: "raft_node \<Rightarrow> raft_node \<Rightarrow> bool" where
  "written n n' \<longleftrightarrow> state n = Leader \<and> state n' = Leader \<and> currentTerm n' = currentTerm n \<and>
     (\<exists>e. entries (raftLog n') = entries (raftLog n) @ [e] \<and> e_term e = currentTerm n)"

definition merged :: "ledger \<Rightarrow> raft_node \<Rightarrow> raft_node \<Rightarrow> bool" where
  "merged g n n' \<longleftrightarrow> state n' = Follower \<and> (\<exists>Z q. (currentTerm n', Z) \<in> led g \<and> q \<le> length Z \<and> entries (raftLog n') = take q Z \<and>
     (\<forall>m \<le> length (entries (raftLog n)). take m (entries (raftLog n)) = take m Z \<longrightarrow> m < q))"

definition moves :: "url set \<Rightarrow> (url \<Rightarrow> node_config) \<Rightarrow> cluster \<Rightarrow> ledger \<Rightarrow> url \<Rightarrow> raft_node \<Rightarrow> bool" where
  "moves M cfg c g u n \<longleftrightarrow> complete M c g \<and> cluster_inv M cfg c \<and> u \<in> M \<and>
     (\<forall>t v w. (t, v) \<in> elected (set_node u n c) \<longrightarrow> (t, w) \<in> elected (set_node u n c) \<longrightarrow> v = w) \<and>
     (state n = Leader \<longrightarrow> majority_of M (insert u (voters c u (currentTerm n)))) \<and>
     role_ok (nodes c u) n \<and> currentTerm (nodes c u) \<le> currentTerm n \<and>
     (entries (raftLog n) = log_of c u \<or> written (nodes c u) n \<or> merged g (nodes c u) n)"

lemma movesD:
  assumes "moves M cfg c g u n"
  shows "complete M c g" and "cluster_inv M cfg c"
    and "(t, v) \<in> elected (set_node u n c) \<Longrightarrow> (t, w) \<in> elected (set_node u n c) \<Longrightarrow> v = w" and "u \<in> M"
    and "role_ok (nodes c u) n" and "currentTerm (nodes c u) \<le> currentTerm n"
    and "state n = Leader \<Longrightarrow> majority_of M (insert u (voters c u (currentTerm n)))"
  using assms unfolding moves_def by blast+

lemma moves_cases:
  assumes "moves M cfg c g u n"
  obtains (same) "entries (raftLog n) = log_of c u"
    | (written) e where "state (nodes c u) = Leader" "state n = Leader" "currentTerm n = currentTerm (nodes c u)"
        "entries (raftLog n) = log_of c u @ [e]" "e_term e = currentTerm n"
    | (merged) Z q where "state n = Follower" "(currentTerm n, Z) \<in> led g" "q \<le> length Z" "entries (raftLog n) = take q Z"
        "\<And>m. m \<le> length (log_of c u) \<Longrightarrow> take m (log_of c u) = take m Z \<Longrightarrow> m < q"
  using assms unfolding moves_def written_def merged_def by auto

text \<open>A member that leads led the same term before, with a log that has grown, or has a term to itself.\<close>
lemma moves_leader:
  assumes m: "moves M cfg c g u n" and lead: "state n = Leader"
  obtains (leads_on) "state (nodes c u) = Leader" "currentTerm (nodes c u) = currentTerm n"
      "prefix (log_of c u) (entries (raftLog n))"
    | (new) "\<And>w. (currentTerm n, w) \<notin> elected c" "entries (raftLog n) = log_of c u"
proof (cases "state (nodes c u) = Leader \<and> currentTerm (nodes c u) = currentTerm n")
  case True
  have "prefix (log_of c u) (entries (raftLog n))"
    by (rule moves_cases[OF m]) (use lead in auto)
  then show ?thesis using leads_on True by blast
next
  case False
  have "elections_over c" using movesD(1)[OF m] by (simp add: complete_def matching_def)
  then have "(currentTerm n, w) \<notin> elected c" for w
    by (rule newly_elected[OF _ movesD(2,5)[OF m] lead _ False]) (erule (1) movesD(3)[OF m])
  moreover have "entries (raftLog n) = log_of c u"
    by (rule moves_cases[OF m]) (use lead False in auto)
  ultimately show ?thesis using new by blast
qed

lemma moved_terms:
  assumes "moves M cfg c g u n"
  shows "\<forall>e\<in>set (entries (raftLog n)). e_term e \<le> currentTerm n"
proof -
  have old: "\<forall>e\<in>set (log_of c u). e_term e \<le> currentTerm n"
    using movesD(1,4,6)[OF assms] by (fastforce simp: complete_def held_ok_def)
  show ?thesis
  proof (rule moves_cases[OF assms])
    fix Z q
    assume "(currentTerm n, Z) \<in> led g" "entries (raftLog n) = take q Z"
    then show ?thesis
      using movesD(1)[OF assms] by (auto simp: complete_def led_ok_def dest: in_set_takeD)
  qed (use old in auto)
qed

lemma led_noted:
  "(t, Z) \<in> led (noted u n g) \<longleftrightarrow> (t, Z) \<in> led g \<or> state n = Leader \<and> t = currentTerm n \<and> Z = entries (raftLog n)"
  "X \<in> logs (noted u n g) \<longleftrightarrow> X \<in> logs g \<or> X = entries (raftLog n)"
  "(v, t, Y) \<in> held (noted u n g) \<longleftrightarrow> (v, t, Y) \<in> held g \<or> v = u \<and> t = currentTerm n \<and> Y = entries (raftLog n)"
  "(v, t, Y) \<in> stood (noted u n g) \<longleftrightarrow> (v, t, Y) \<in> stood g \<or> state n = Candidate \<and> v = u \<and> t = currentTerm n \<and> Y = entries (raftLog n)"
  by (auto simp: noted_def Let_def)

text \<open>All logs of the term in which a member leads are behind its own.\<close>
lemma moved_leads:
  assumes m: "moves M cfg c g u n" and lead: "state n = Leader" and Z: "(currentTerm n, Z) \<in> led g"
  shows "prefix Z (entries (raftLog n))"
proof (rule moves_leader[OF m lead])
  assume a: "state (nodes c u) = Leader" "currentTerm (nodes c u) = currentTerm n" "prefix (log_of c u) (entries (raftLog n))"
  then have "prefix Z (log_of c u)"
    using movesD(1,4)[OF m] Z unfolding complete_def leaders_lead_def by metis
  then show ?thesis using a(3) prefix_order.trans by blast
next
  assume "\<And>w. (currentTerm n, w) \<notin> elected c"
  then show ?thesis using movesD(1)[OF m] Z unfolding complete_def led_ok_def by blast
qed

lemma moved_led_ok:
  assumes m: "moves M cfg c g u n"
  shows "led_ok (set_node u n c) (noted u n g)"
proof -
  have ok: "led_ok c g" using movesD(1)[OF m] by (simp add: complete_def)
  have el: "(t, w) \<in> elected c \<Longrightarrow> (t, w) \<in> elected (set_node u n c)" for t w
    using elected_set_node by blast
  have "state n = Leader \<Longrightarrow> (currentTerm n, u) \<in> elected (set_node u n c)" by (simp add: set_node_def)
  then show ?thesis
    using ok el moved_terms[OF m] moved_leads[OF m] unfolding led_ok_def led_noted by blast
qed

lemma moved_leaders_lead:
  assumes m: "moves M cfg c g u n"
  shows "leaders_lead M (set_node u n c) (noted u n g)"
  unfolding leaders_lead_def
proof (intro ballI impI)
  fix w
  assume w: "w \<in> M" "state (nodes (set_node u n c) w) = Leader"
  show "(currentTerm (nodes (set_node u n c) w), log_of (set_node u n c) w) \<in> led (noted u n g) \<and>
    (\<forall>Z. (currentTerm (nodes (set_node u n c) w), Z) \<in> led (noted u n g) \<longrightarrow> prefix Z (log_of (set_node u n c) w))"
  proof (cases "w = u")
    case True
    then show ?thesis using w(2) moved_leads[OF m] by (auto simp: led_noted)
  next
    case False
    have "state n \<noteq> Leader \<or> currentTerm (nodes c w) \<noteq> currentTerm n"
    proof (rule ccontr)
      assume "\<not> ?thesis"
      then have "(currentTerm n, u) \<in> elected (set_node u n c)" "(currentTerm n, w) \<in> elected (set_node u n c)"
        using w False movesD(2)[OF m] by (auto simp: set_node_def cluster_inv_def members_inv_def)
      then show False using movesD(3)[OF m] False by blast
    qed
    then show ?thesis
      using w False movesD(1)[OF m] by (auto simp: led_noted complete_def leaders_lead_def)
  qed
qed

lemma moved_origins:
  assumes m: "moves M cfg c g u n"
  shows "origins (noted u n g)"
proof -
  have old: "origins g" "log_of c u \<in> logs g"
    using movesD(1,4)[OF m] by (simp_all add: complete_def matching_def members_logs_def)
  have led: "Z \<in> logs g" if "(t, Z) \<in> led g" for t Z
    using movesD(1)[OF m] that by (auto simp: complete_def led_ok_def)
  have from_old: "\<exists>Z. (e_term (X ! i), Z) \<in> led (noted u n g) \<and> holds Z X i" if "X \<in> logs g" "i < length X" for X i
    using old(1) that unfolding origins_def led_noted by blast
  have new: "sorted (map e_term (entries (raftLog n))) \<and> (\<forall>i < length (entries (raftLog n)).
      \<exists>Z. (e_term (entries (raftLog n) ! i), Z) \<in> led (noted u n g) \<and> holds Z (entries (raftLog n)) i)"
  proof (rule moves_cases[OF m])
    assume "entries (raftLog n) = log_of c u"
    then show ?thesis using old from_old by (simp add: origins_def)
  next
    fix e
    assume w: "state n = Leader" "currentTerm n = currentTerm (nodes c u)" "entries (raftLog n) = log_of c u @ [e]"
      "e_term e = currentTerm n"
    have "\<forall>x\<in>set (log_of c u). e_term x \<le> e_term e"
      using movesD(1,4)[OF m] w by (simp add: complete_def held_ok_def)
    then have "sorted (map e_term (entries (raftLog n)))"
      using old w(3) by (auto simp: origins_def sorted_append)
    moreover have "\<exists>Z. (e_term (entries (raftLog n) ! i), Z) \<in> led (noted u n g) \<and> holds Z (entries (raftLog n)) i"
      if i: "i < length (entries (raftLog n))" for i
    proof (cases "i < length (log_of c u)")
      case True
      obtain Z where "(e_term (log_of c u ! i), Z) \<in> led (noted u n g)" "holds Z (log_of c u) i"
        using from_old[OF old(2) True] by blast
      then show ?thesis using True w(3) by (auto simp: holds_def nth_append)
    next
      case False
      then show ?thesis using i w by (auto simp: led_noted holds_refl nth_append)
    qed
    ultimately show ?thesis by blast
  next
    fix Z q
    assume Z: "(currentTerm n, Z) \<in> led g" "q \<le> length Z" "entries (raftLog n) = take q Z"
    have "sorted (map e_term (take q Z))"
      using old(1) led[OF Z(1)] by (simp add: origins_def take_map[symmetric] sorted_wrt_take)
    moreover have "\<exists>Z'. (e_term (take q Z ! i), Z') \<in> led (noted u n g) \<and> holds Z' (take q Z) i" if "i < length (take q Z)" for i
      using from_old[OF led[OF Z(1)], of i] that by (auto simp: holds_def min_absorb1)
    ultimately show ?thesis using Z(3) by simp
  qed
  show ?thesis
    unfolding origins_def
  proof
    fix X
    assume "X \<in> logs (noted u n g)"
    then consider "X \<in> logs g" | "X = entries (raftLog n)" by (auto simp: led_noted)
    then show "sorted (map e_term X) \<and> (\<forall>i < length X. \<exists>Z. (e_term (X ! i), Z) \<in> led (noted u n g) \<and> holds Z X i)"
      using old(1) from_old new by cases (simp_all add: origins_def)
  qed
qed

lemma moved_held_ok:
  assumes m: "moves M cfg c g u n"
  shows "held_ok M (set_node u n c) (noted u n g)"
  using movesD[OF m] moved_terms[OF m]
  by (auto simp: complete_def held_ok_def led_noted) (meson order_trans)

lemma marked_noted:
  "marked (noted u n g) v Y i \<longleftrightarrow>
     marked g v Y i \<or> v = u \<and> Y = entries (raftLog n) \<and> i < length Y \<and> e_term (Y ! i) = currentTerm n"
  by (auto simp: marked_def led_noted)

text \<open>The log of the leader of its term has every entry of that term that was ever stored with all before it.\<close>
lemma marked_led:
  assumes "complete M c g" and "Y \<in> logs g" and "i < length Y"
  obtains Z where "(e_term (Y ! i), Z) \<in> led g" and "holds Z Y i"
  using assms unfolding complete_def origins_def by blast

lemma holds_shorter:
  assumes "prefix Z Z2" and "holds Z2 Y i" and "\<not> holds Z Y i"
  shows "length Z \<le> i"
proof (rule ccontr)
  assume "\<not> length Z \<le> i"
  then show False using assms by (auto simp: prefix_def holds_def)
qed

lemma merged_holds:
  assumes inv: "complete M c g" and Z: "(t, Z) \<in> led g" "q \<le> length Z"
    and more: "\<And>m. m \<le> length X \<Longrightarrow> take m X = take m Z \<Longrightarrow> m < q"
    and Y: "Y \<in> logs g" "i < length Y" "e_term (Y ! i) \<le> t" and X: "holds X Y i"
  shows "holds (take q Z) Y i \<or> lacked (led g) (e_term (Y ! i)) (Suc t) Y i"
proof (cases "holds Z Y i")
  case True
  then have "take (Suc i) X = take (Suc i) Z" "Suc i \<le> length X" using X by (simp_all add: holds_def)
  then have "Suc i < q" by (intro more) simp_all
  with True show ?thesis by (simp add: holds_take)
next
  case False
  have "e_term (Y ! i) \<noteq> t"
  proof
    assume t: "e_term (Y ! i) = t"
    obtain Z2 where Z2: "(t, Z2) \<in> led g" "holds Z2 Y i" using marked_led[OF inv Y(1,2)] t by metis
    have "prefix Z Z2 \<or> prefix Z2 Z" using inv Z(1) Z2(1) unfolding complete_def led_ok_def by blast
    then have p: "prefix Z Z2" using holds_prefix[OF Z2(2)] False by blast
    then have "length Z \<le> i" by (rule holds_shorter[OF _ Z2(2) False])
    then have "take (length Z) X = Z" "length Z \<le> length X"
      using p X Z2(2) unfolding holds_def prefix_def
      by (metis append_eq_conv_conj le_SucI min.absorb1 take_take, simp)
    then have "length Z < q" by (intro more) simp_all
    then show False using Z(2) by simp
  qed
  then have "e_term (Y ! i) < t" using Y(3) by simp
  with False Z(1) show ?thesis by (auto simp: lacked_def)
qed

lemma moved_kept:
  assumes m: "moves M cfg c g u n"
  shows "kept M (set_node u n c) (noted u n g)"
  unfolding kept_def
proof (intro ballI allI impI)
  fix v Y i
  assume v: "v \<in> M" and mk: "marked (noted u n g) v Y i"
  have inv: "complete M c g" by (rule movesD(1)[OF m])
  have later: "lacked (led (noted u n g)) lo hi' Y i" if "lacked (led g) lo hi Y i" "hi \<le> hi'" for lo hi hi'
    using lacked_mono[OF that(1) noted_grows(2) that(2)] .
  show "holds (log_of (set_node u n c) v) Y i \<or>
    lacked (led (noted u n g)) (e_term (Y ! i)) (Suc (currentTerm (nodes (set_node u n c) v))) Y i"
  proof (cases "marked g v Y i")
    case False
    with mk have "v = u" "Y = entries (raftLog n)" "i < length Y" by (auto simp: marked_noted)
    then show ?thesis using holds_refl by simp
  next
    case True
    then have old: "holds (log_of c v) Y i \<or> lacked (led g) (e_term (Y ! i)) (Suc (currentTerm (nodes c v))) Y i"
      using inv v by (simp add: complete_def kept_def)
    show ?thesis
    proof (cases "v = u")
      case False
      then show ?thesis using old later by auto
    next
      case u: True
      have Y: "Y \<in> logs g" "i < length Y" "e_term (Y ! i) \<le> currentTerm n"
        using True inv order_trans[OF _ movesD(6)[OF m]] u unfolding marked_def complete_def held_ok_def by blast+
      from old show ?thesis
      proof
        assume "lacked (led g) (e_term (Y ! i)) (Suc (currentTerm (nodes c v))) Y i"
        then show ?thesis using later movesD(6)[OF m] u by auto
      next
        assume h: "holds (log_of c v) Y i"
        show ?thesis
        proof (rule moves_cases[OF m])
          fix Z q
          assume z: "(currentTerm n, Z) \<in> led g" "q \<le> length Z" "entries (raftLog n) = take q Z"
            "\<And>m. m \<le> length (log_of c u) \<Longrightarrow> take m (log_of c u) = take m Z \<Longrightarrow> m < q"
          have "holds (take q Z) Y i \<or> lacked (led g) (e_term (Y ! i)) (Suc (currentTerm n)) Y i"
            by (rule merged_holds[OF inv z(1,2) _ Y h[unfolded u]]) (erule (1) z(4))
          then show ?thesis using u later z(3) by auto
        qed (use h u in \<open>auto simp: holds_append\<close>)
      qed
    qed
  qed
qed

lemma moved_stood_ok:
  assumes m: "moves M cfg c g u n"
  shows "stood_ok M (set_node u n c) (noted u n g)"
proof -
  have inv: "complete M c g" and old: "stood_ok M c g" using movesD(1)[OF m] by (simp_all add: complete_def)
  have mono: "t \<le> currentTerm (nodes (set_node u n c) v)" if "t \<le> currentTerm (nodes c v)" for t v
    using that movesD(6)[OF m] by auto
  have cand: "(\<forall>e\<in>set (entries (raftLog n)). e_term e < currentTerm n) \<and>
      (\<forall>C. (u, currentTerm n, C) \<in> stood g \<longrightarrow> C = entries (raftLog n))" if "state n = Candidate"
  proof -
    have l: "entries (raftLog n) = log_of c u" by (rule moves_cases[OF m]) (use that in auto)
    from movesD(5)[OF m] that consider "currentTerm (nodes c u) < currentTerm n"
      | "currentTerm (nodes c u) = currentTerm n" "state (nodes c u) = Candidate"
      by (auto simp: role_ok_def)
    then show ?thesis
    proof cases
      case 1
      have "\<forall>e\<in>set (log_of c u). e_term e \<le> currentTerm (nodes c u)"
        using inv movesD(4)[OF m] by (simp add: complete_def held_ok_def)
      moreover have "(u, currentTerm n, C) \<notin> stood g" for C
        using old 1 unfolding stood_ok_def by (metis not_le)
      ultimately show ?thesis using 1 l by fastforce
    next
      case 2
      then have "(u, currentTerm n, log_of c u) \<in> stood g" using old movesD(4)[OF m] by (auto simp: stood_ok_def)
      then show ?thesis using old l unfolding stood_ok_def by metis
    qed
  qed
  have "C' = C" if "(v, t, C) \<in> stood (noted u n g)" "(v, t, C') \<in> stood (noted u n g)" for v t C C'
    using that old cand unfolding led_noted stood_ok_def by blast
  moreover have "C \<in> logs (noted u n g) \<and> t \<le> currentTerm (nodes (set_node u n c) v) \<and> (\<forall>e\<in>set C. e_term e < t)"
    if "(v, t, C) \<in> stood (noted u n g)" for v t C
  proof (cases "(v, t, C) \<in> stood g")
    case True
    then show ?thesis using old mono unfolding led_noted stood_ok_def by blast
  next
    case False
    then show ?thesis using that cand by (auto simp: led_noted)
  qed
  moreover have "(v, currentTerm (nodes (set_node u n c) v), log_of (set_node u n c) v) \<in> stood (noted u n g)"
    if "v \<in> M" "state (nodes (set_node u n c) v) = Candidate" for v
    using that old by (auto simp: led_noted stood_ok_def)
  ultimately show ?thesis unfolding stood_ok_def by blast
qed

lemma moved_asked:
  assumes m: "moves M cfg c g u n"
  shows "asked (set_node u n c) (noted u n g)"
  using movesD(1)[OF m] noted_grows(4)[of g u n] unfolding complete_def asked_def set_node_other voters_set_node by blast

text \<open>A member's new mark is of its present term, so it is none that a vote of it depends on.\<close>
lemma new_mark_late:
  assumes m: "moves M cfg c g u n" and mk: "marked (noted u n g) v Y i" and v: "t \<le> currentTerm (nodes c v)" "e_term (Y ! i) < t"
  shows "marked g v Y i"
  using mk v movesD(6)[OF m] by (auto simp: marked_noted)

lemma moved_votes_kept:
  assumes m: "moves M cfg c g u n"
  shows "votes_kept (set_node u n c) (noted u n g)"
  unfolding votes_kept_def voters_set_node
proof (intro allI impI)
  fix w t v C Y i
  assume v: "v \<in> voters c w t" and C: "(w, t, C) \<in> stood (noted u n g)" and free: "\<forall>x. (t, x) \<notin> elected (set_node u n c)"
    and mk: "marked (noted u n g) v Y i" and early: "e_term (Y ! i) < t"
  have old: "votes_kept c g" "asked c g" using movesD(1)[OF m] by (simp_all add: complete_def)
  obtain C0 where C0: "(w, t, C0) \<in> stood g" using old(2) v unfolding asked_def by blast
  then have "C = C0"
    using moved_stood_ok[OF m] C unfolding stood_ok_def led_noted by blast
  moreover have "marked g v Y i"
    using new_mark_late[OF m mk _ early] voterD(5)[OF movesD(2)[OF m] v] by (simp add: committed_to_def)
  moreover have "\<forall>x. (t, x) \<notin> elected c" using free elected_set_node by blast
  ultimately have "holds C Y i \<or> lacked (led g) (e_term (Y ! i)) t Y i"
    using old(1) v C0 early unfolding votes_kept_def by blast
  then show "holds C Y i \<or> lacked (led (noted u n g)) (e_term (Y ! i)) t Y i"
    using lacked_mono[OF _ noted_grows(2) order_refl] by blast
qed

text \<open>The majority that elects a leader.\<close>
lemma elected_complete:
  assumes m: "moves M cfg c g u n" and lead: "state n = Leader" and fresh: "\<And>w. (currentTerm n, w) \<notin> elected c"
    and l: "entries (raftLog n) = log_of c u"
    and v: "v \<in> insert u (voters c u (currentTerm n))" and mk: "marked g v Y i" and early: "e_term (Y ! i) < currentTerm n"
  shows "holds (entries (raftLog n)) Y i \<or> lacked (led g) (e_term (Y ! i)) (currentTerm n) Y i"
proof (cases "v = u")
  case True
  have inv: "complete M c g" by (rule movesD(1)[OF m])
  have "holds (log_of c u) Y i \<or> lacked (led g) (e_term (Y ! i)) (Suc (currentTerm (nodes c u))) Y i"
    using inv movesD(4)[OF m] mk True by (simp add: complete_def kept_def)
  moreover have "lacked (led g) lo (currentTerm n) Y i" if la: "lacked (led g) lo (Suc (currentTerm (nodes c u))) Y i" for lo
  proof -
    obtain t Z where t: "(t, Z) \<in> led g" "lo < t" "t < Suc (currentTerm (nodes c u))" "\<not> holds Z Y i"
      using la unfolding lacked_def by blast
    have "t \<noteq> currentTerm n" using t(1) fresh inv unfolding complete_def led_ok_def by blast
    then have "t < currentTerm n" using t(3) movesD(6)[OF m] by linarith
    with t show ?thesis by (auto simp: lacked_def)
  qed
  ultimately show ?thesis using l by auto
next
  case False
  then have v': "v \<in> voters c u (currentTerm n)" using v by simp
  have inv: "votes_kept c g" "asked c g" "stood_ok M c g" using movesD(1)[OF m] by (simp_all add: complete_def)
  obtain C where C: "(u, currentTerm n, C) \<in> stood g" using inv(2) v' unfolding asked_def by blast
  then have "\<not> currentTerm (nodes c u) < currentTerm n" using inv(3) unfolding stood_ok_def by (metis not_le)
  moreover have "state (nodes c u) \<noteq> Leader" if "currentTerm (nodes c u) = currentTerm n"
    using that fresh[of u] movesD(2,4)[OF m] by (auto simp: cluster_inv_def members_inv_def)
  ultimately have "currentTerm (nodes c u) = currentTerm n" "state (nodes c u) = Candidate"
    using movesD(5,6)[OF m] lead by (auto simp: role_ok_def)
  then have "(u, currentTerm n, log_of c u) \<in> stood g" using inv(3) movesD(4)[OF m] unfolding stood_ok_def by metis
  then show ?thesis using inv(1) v' fresh mk early l unfolding votes_kept_def by metis
qed

lemma moved_leaders_complete:
  assumes m: "moves M cfg c g u n"
  shows "leaders_complete M (set_node u n c) (noted u n g)"
  unfolding leaders_complete_def
proof (intro allI impI)
  fix t Z
  assume Z: "(t, Z) \<in> led (noted u n g)"
  let ?c = "set_node u n c" and ?g = "noted u n g"
  have more: "lacked (led ?g) lo t Y i" if "lacked (led g) lo t Y i" for lo Y i
    using lacked_mono[OF that noted_grows(2) order_refl] .
  have later: "t \<le> currentTerm (nodes ?c v)" if "t \<le> currentTerm (nodes c v)" for v
    using that movesD(6)[OF m] by auto
  have given: "\<exists>E. majority_of M E \<and> (\<forall>v\<in>E. t \<le> currentTerm (nodes ?c v) \<and>
      (\<forall>Y i. marked ?g v Y i \<longrightarrow> e_term (Y ! i) < t \<longrightarrow> holds Z Y i \<or> lacked (led ?g) (e_term (Y ! i)) t Y i))"
    if old: "(t, Z0) \<in> led g" and pre: "prefix Z0 Z" for Z0
  proof -
    obtain E where E: "majority_of M E" "\<And>v. v \<in> E \<Longrightarrow> t \<le> currentTerm (nodes c v)"
      "\<And>v Y i. v \<in> E \<Longrightarrow> marked g v Y i \<Longrightarrow> e_term (Y ! i) < t \<Longrightarrow> holds Z0 Y i \<or> lacked (led g) (e_term (Y ! i)) t Y i"
      using movesD(1)[OF m] old unfolding complete_def leaders_complete_def by metis
    show ?thesis
      using E later new_mark_late[OF m] holds_prefix[OF _ pre] more by (intro exI[of _ E]) blast
  qed
  show "\<exists>E. majority_of M E \<and> (\<forall>v\<in>E. t \<le> currentTerm (nodes ?c v) \<and>
      (\<forall>Y i. marked ?g v Y i \<longrightarrow> e_term (Y ! i) < t \<longrightarrow> holds Z Y i \<or> lacked (led ?g) (e_term (Y ! i)) t Y i))"
  proof (cases "(t, Z) \<in> led g")
    case True
    then show ?thesis using given by blast
  next
    case False
    then have n: "state n = Leader" "t = currentTerm n" "Z = entries (raftLog n)" using Z by (auto simp: led_noted)
    show ?thesis
    proof (rule moves_leader[OF m n(1)])
      assume on: "state (nodes c u) = Leader" "currentTerm (nodes c u) = currentTerm n" "prefix (log_of c u) (entries (raftLog n))"
      then have "(t, log_of c u) \<in> led g"
        using movesD(1,4)[OF m] n(2) unfolding complete_def leaders_lead_def by metis
      then show ?thesis using given on(3) n(3) by blast
    next
      assume new: "\<And>w. (currentTerm n, w) \<notin> elected c" "entries (raftLog n) = log_of c u"
      have maj: "majority_of M (insert u (voters c u t))" using movesD(7)[OF m n(1)] n(2) by simp
      have late: "t \<le> currentTerm (nodes ?c v)" if "v \<in> insert u (voters c u t)" for v
        using that n(2) later voterD(5)[OF movesD(2)[OF m], of v u t] by (auto simp: committed_to_def)
      have "holds Z Y i \<or> lacked (led ?g) (e_term (Y ! i)) t Y i"
        if v: "v \<in> insert u (voters c u t)" and mk: "marked ?g v Y i" and early: "e_term (Y ! i) < t" for v Y i
      proof -
        have "marked g v Y i" using mk early n(2) late[OF v] new_mark_late[OF m mk _ early] by (cases "v = u") (auto simp: marked_noted)
        from elected_complete[OF m n(1) new, of v Y i] v early this n more show ?thesis by blast
      qed
      with maj late show ?thesis by blast
    qed
  qed
qed

lemma moved_calls_led:
  assumes m: "moves M cfg c g u n"
  shows "calls_led (set_node u n c) (noted u n g)"
  unfolding calls_led_def set_node_other
proof (intro allI impI)
  fix x y args
  assume "(x, y, CallAppend args) \<in> leaderCalls c"
  then have "sent_ok {Z. (ae_term args, Z) \<in> led g} (CallAppend args)"
    using movesD(1)[OF m] unfolding complete_def calls_led_def by blast
  then show "sent_ok {Z. (ae_term args, Z) \<in> led (noted u n g)} (CallAppend args)"
    by (rule sent_ok_mono) (use noted_grows(2) in blast)
qed

lemma moved_complete:
  assumes "moves M cfg c g u n" and "matching M (set_node u n c) (logs (noted u n g))"
  shows "complete M (set_node u n c) (noted u n g)"
  unfolding complete_def
  using assms(2) moved_led_ok[OF assms(1)] moved_leaders_lead[OF assms(1)] moved_origins[OF assms(1)]
    moved_held_ok[OF assms(1)] moved_kept[OF assms(1)] moved_stood_ok[OF assms(1)] moved_asked[OF assms(1)]
    moved_votes_kept[OF assms(1)] moved_leaders_complete[OF assms(1)] moved_calls_led[OF assms(1)]
  by blast

end
