(* ===== verification/Leader_Completeness.thy ===== *)
theory Leader_Completeness
  imports Ledger
begin

text \<open>
  Leader completeness: an entry that a majority has stored in the term it was written in is in the log
  of every later leader. Like log matching it is proved of the plain runs of \<open>Log_Matching\<close>. Here the
  steps of the cluster are shown to keep the invariant of \<open>Ledger\<close>, and the theorems are read off it.
\<close>

section \<open>The steps of the cluster\<close>

lemma complete_messages:
  assumes inv: "complete M c g" and same: "nodes c' = nodes c" "elected c' = elected c"
    and calls: "\<And>u v call. (u, v, call) \<in> leaderCalls c' \<Longrightarrow>
      (u, v, call) \<in> leaderCalls c \<or> sent_ok {Z. (call_term call, Z) \<in> led g} call"
    and reqs: "\<And>u v args. (u, v, args) \<in> voteRequests c' \<Longrightarrow> (u, v, args) \<in> voteRequests c \<or>
      (\<exists>C. (u, rv_term args, C) \<in> stood g \<and> rv_lastLogIndex args = length C \<and> rv_lastLogTerm args = last_term C)"
    and votes: "\<And>u t v. v \<in> voters c' u t \<Longrightarrow> v \<in> voters c u t \<or> (\<exists>C. (u, t, C) \<in> stood g) \<and>
      (\<forall>C Y i. (u, t, C) \<in> stood g \<longrightarrow> (\<forall>w. (t, w) \<notin> elected c) \<longrightarrow> marked g v Y i \<longrightarrow> e_term (Y ! i) < t \<longrightarrow>
         holds C Y i \<or> lacked (led g) (e_term (Y ! i)) t Y i)"
  shows "complete M c' g"
proof -
  have "{Z. (t, Z) \<in> led g} \<subseteq> logs g" for t
    using inv unfolding complete_def led_ok_def by blast
  then have "(u, v, call) \<in> leaderCalls c \<or> sent_ok (logs g) call" if "(u, v, call) \<in> leaderCalls c'" for u v call
    using calls[OF that] sent_ok_mono by blast
  moreover have "matching M c (logs g)" using inv by (simp add: complete_def)
  ultimately have "matching M c' (logs g)" using same matching_calls by metis
  moreover have "calls_led c' g"
    unfolding calls_led_def
  proof (intro allI impI)
    fix u v args
    assume "(u, v, CallAppend args) \<in> leaderCalls c'"
    from calls[OF this] show "sent_ok {Z. (ae_term args, Z) \<in> led g} (CallAppend args)"
    proof
      assume "(u, v, CallAppend args) \<in> leaderCalls c"
      then show ?thesis using inv unfolding complete_def calls_led_def by blast
    qed (simp del: sent_ok.simps)
  qed
  moreover have "asked c' g"
    using inv reqs votes unfolding complete_def asked_def by blast
  moreover have "votes_kept c' g"
    unfolding votes_kept_def
  proof (intro allI impI)
    fix u t v C Y i
    assume v: "v \<in> voters c' u t" and rest: "(u, t, C) \<in> stood g" "\<forall>w. (t, w) \<notin> elected c'" "marked g v Y i" "e_term (Y ! i) < t"
    from votes[OF v] show "holds C Y i \<or> lacked (led g) (e_term (Y ! i)) t Y i"
    proof
      assume "v \<in> voters c u t"
      then show ?thesis using inv rest same(2) unfolding complete_def votes_kept_def by blast
    qed (use rest same(2) in blast)
  qed
  ultimately show ?thesis
    using inv same by (simp add: complete_def led_ok_def leaders_lead_def held_ok_def kept_def stood_ok_def leaders_complete_def)
qed

lemma logs_noted: "logs (noted u n g) = insert (entries (raftLog n)) (logs g)"
  by (simp add: noted_def Let_def)

text \<open>A member moves and its log stays.\<close>
lemma complete_stays:
  assumes inv: "complete M c g" "cluster_inv M cfg c" and u: "u \<in> M" and role: "role_ok (nodes c u) n"
    and n: "currentTerm (nodes c u) \<le> currentTerm n" "node_inv n" "lastIncludedIndex (raftLog n) = 0" "log_stays (nodes c u) n"
    and one: "\<And>t v w. (t, v) \<in> elected (set_node u n c) \<Longrightarrow> (t, w) \<in> elected (set_node u n c) \<Longrightarrow> v = w"
    and maj: "state n = Leader \<Longrightarrow> majority_of M (insert u (voters c u (currentTerm n)))"
  shows "complete M (set_node u n c) (noted u n g)"
proof (rule moved_complete)
  have m: "matching M c (logs g)" using inv(1) by (simp add: complete_def)
  have "lastIncludedIndex (raftLog (nodes c u)) = 0" "log_of c u \<in> logs g"
    using m u by (simp_all add: matching_def members_logs_def)
  then have l: "entries (raftLog n) = log_of c u" "entries (raftLog n) \<in> logs g"
    using n(3,4) by (simp_all add: log_stays_def)
  then show "moves M cfg c g u n"
    unfolding moves_def using inv u role n(1) one maj by blast
  have "matching M (set_node u n c) (logs g)"
    by (rule matching_same[OF m inv(2) u role n(2-4)]) (erule (1) one)
  then show "matching M (set_node u n c) (logs (noted u n g))"
    using l(2) by (simp add: logs_noted insert_absorb)
qed

text \<open>The leader of a term writes an entry.\<close>
lemma complete_write:
  assumes inv: "complete M c g" "cluster_inv M cfg c" and u: "u \<in> M"
    and w: "client_write_begin (nodes c u) stroke = Inr (n, i)" and plain: "lastIncludedIndex (raftLog n) = 0"
    and one: "\<And>t v w. (t, v) \<in> elected (set_node u n c) \<Longrightarrow> (t, w) \<in> elected (set_node u n c) \<Longrightarrow> v = w"
    and maj: "state n = Leader \<Longrightarrow> majority_of M (insert u (voters c u (currentTerm n)))"
  shows "complete M (set_node u n c) (noted u n g)"
proof (rule moved_complete)
  have m: "matching M c (logs g)" using inv(1) by (simp add: complete_def)
  have own: "node_inv (nodes c u)" "lastIncludedIndex (raftLog (nodes c u)) = 0"
    using m u by (simp_all add: matching_def members_logs_def)
  let ?e = "\<lparr>e_index = Suc (length (log_of c u)), e_term = currentTerm (nodes c u), e_stroke = stroke\<rparr>"
  have n: "state (nodes c u) = Leader" "state n = Leader" "currentTerm n = currentTerm (nodes c u)"
    "entries (raftLog n) = log_of c u @ [?e]"
    using w own(2) by (auto simp: client_write_begin_def log_append_def getLastIndex_def Let_def split: if_splits)
  then show "moves M cfg c g u n"
    unfolding moves_def written_def role_ok_def using inv u one maj by auto
  have "node_inv n" using own(1) w by (rule node_inv_client_write_begin)
  from matching_write[OF m inv(2) u this plain n] show "matching M (set_node u n c) (logs (noted u n g))"
    using n(3) by (simp add: logs_noted n(4))
qed

lemma term_mono:
  "quiet n n' \<Longrightarrow> currentTerm n \<le> currentTerm n'" "follows n t n' \<Longrightarrow> currentTerm n \<le> currentTerm n'"
  by (auto simp: quiet_def follows_def)

text \<open>A member handles a message of a leader.\<close>
lemma complete_leader_call:
  assumes inv: "complete M c g" "cluster_inv M cfg c" and v: "v \<in> M" and call: "(u, v, call) \<in> leaderCalls c"
    and n: "n = handle_call (nodes c v) call" and plain: "lastIncludedIndex (raftLog n) = 0"
    and one: "\<And>t x w. (t, x) \<in> elected (set_node v n c) \<Longrightarrow> (t, w) \<in> elected (set_node v n c) \<Longrightarrow> x = w"
    and maj: "state n = Leader \<Longrightarrow> majority_of M (insert v (voters c v (currentTerm n)))"
  shows "complete M (set_node v n c) (noted v n g)"
proof -
  have m: "matching M c (logs g)" using inv(1) by (simp add: complete_def)
  have own: "node_inv (nodes c v)" "lastIncludedIndex (raftLog (nodes c v)) = 0" "log_of c v \<in> logs g"
    using m v by (simp_all add: matching_def members_logs_def)
  have role: "role_ok (nodes c v) n" "currentTerm (nodes c v) \<le> currentTerm n"
    using follows_handle_call n role_ok_follows term_mono(2) by blast+
  have same: ?thesis if "log_stays (nodes c v) n" "node_inv n"
    by (rule complete_stays[OF inv v role that(2) plain that(1) _ maj]) (erule (1) one)
  show ?thesis
  proof (cases call)
    case (CallAppend args)
    let ?H = "{Z. (ae_term args, Z) \<in> led g}"
    have sent: "sent_ok ?H (CallAppend args)" using inv(1) call CallAppend unfolding complete_def calls_led_def by blast
    have sub: "?H \<subseteq> logs g" using inv(1) unfolding complete_def led_ok_def by blast
    have n': "n = fst (handleAppendEntries (nodes c v) args)" using n CallAppend by simp
    show ?thesis
    proof (rule appended[OF own(1,2) sent _ n' plain])
      show "matches (log_of c v) X \<and> indexed X" if "X \<in> ?H" for X
        using that sub m own(3) unfolding matching_def histories_def by blast
    next
      assume "entries (raftLog n) = log_of c v" "node_inv n"
      then show ?thesis using same log_stays_same by blast
    next
      fix Z q
      assume z: "Z \<in> ?H" "entries (raftLog n) = take q Z" "state n = Follower" "node_inv n" "currentTerm n = ae_term args" "q \<le> length Z"
        "\<And>m. m \<le> length (log_of c v) \<Longrightarrow> take m (log_of c v) = take m Z \<Longrightarrow> m < q"
      have "merged g (nodes c v) n"
        unfolding merged_def using z by (intro conjI exI[of _ Z] exI[of _ q]) auto
      then have "moves M cfg c g v n"
        unfolding moves_def using inv v role one maj by blast
      moreover have "matching M (set_node v n c) (logs (noted v n g))"
        using matching_prefix[OF m inv(2) v z(4) plain z(3) _ z(2)] z(1,2) sub by (auto simp: logs_noted)
      ultimately show ?thesis by (rule moved_complete)
    qed
  next
    case (CallHeartbeat args)
    then show ?thesis
      using same own(1) n log_stays_handleHeartbeat node_inv_handleHeartbeat by simp
  next
    case (CallSnapshot args)
    have "sent_ok (logs g) call" using m call by (auto simp: matching_def calls_sent_def)
    then show ?thesis
      using same own(1) n snapshot_ignored CallSnapshot node_inv_handleInstallSnapshot by (simp add: log_stays_same)
  qed
qed

text \<open>A log that is not behind \<open>X\<close> has what \<open>X\<close> has, or a leader in between had lost it.\<close>
lemma not_behind_holds:
  assumes inv: "complete M c g" and logs: "X \<in> logs g" "C \<in> logs g" and C: "\<forall>e\<in>set C. e_term e < t"
    and ahead: "last_term X < last_term C \<or> last_term X = last_term C \<and> length X \<le> length C"
    and Y: "holds X Y i" "i < length Y"
  shows "holds C Y i \<or> lacked (led g) (e_term (Y ! i)) t Y i"
proof -
  have i: "i < length X" "X ! i = Y ! i" using Y holds_nth[of X Y i] by (simp_all add: holds_def)
  have sorted: "sorted (map e_term Z)" if "Z \<in> logs g" for Z using inv that by (simp add: complete_def origins_def)
  have ne: "X \<noteq> []" "C \<noteq> []" using i(1) ahead by (auto simp: last_term_def)
  define k where "k = length X - 1"
  define l where "l = length C - 1"
  have k: "k < length X" "i \<le> k" "e_term (X ! k) = last_term X" and l: "l < length C" "e_term (C ! l) = last_term C"
    using ne i(1) by (auto simp: k_def l_def last_term_def last_conv_nth)
  obtain Z where Z: "(last_term C, Z) \<in> led g" "holds Z C l" using marked_led[OF inv logs(2) l(1)] l(2) by metis
  have C_Z: "holds C Z j" if "j \<le> l" for j using holds_lower[OF holds_sym[OF Z(2) l(1)] that] .
  have "e_term (X ! i) \<le> e_term (X ! k)"
    using sorted_nth_mono[OF sorted[OF logs(1)], of i k] k by simp
  then have T: "e_term (Y ! i) \<le> last_term X" using k(3) i(2) by simp
  from ahead show ?thesis
  proof
    assume less: "last_term X < last_term C"
    show ?thesis
    proof (cases "holds Z Y i")
      case True
      have "i \<le> l"
      proof (rule ccontr)
        assume "\<not> i \<le> l"
        moreover have "Z \<in> logs g" using Z(1) inv unfolding complete_def led_ok_def by blast
        ultimately have "e_term (Z ! l) \<le> e_term (Z ! i)"
          using sorted_nth_mono[OF sorted, of Z l i] True Z(2) by (simp add: holds_def)
        then show False
          using holds_nth[OF True Y(2)] holds_nth[OF Z(2) l(1)] l(2) T less by simp
      qed
      then show ?thesis using holds_trans[OF C_Z True] by simp
    next
      case False
      moreover have "last_term C < t" using C l nth_mem by metis
      ultimately show ?thesis using Z(1) T less unfolding lacked_def by fastforce
    qed
  next
    assume eq: "last_term X = last_term C \<and> length X \<le> length C"
    obtain Z2 where Z2: "(last_term C, Z2) \<in> led g" "holds Z2 X k" using marked_led[OF inv logs(1) k(1)] k(3) eq by metis
    have "prefix Z Z2 \<or> prefix Z2 Z" using inv Z(1) Z2(1) unfolding complete_def led_ok_def by blast
    then obtain Z3 where "holds Z3 C l" "holds Z3 X k" using Z(2) Z2(2) holds_prefix by blast
    moreover have "k \<le> l" unfolding k_def l_def using conjunct2[OF eq] by (rule diff_le_mono)
    ultimately have "holds C X k"
      using holds_trans[OF holds_lower[OF holds_sym[OF _ l(1)]]] by blast
    then show ?thesis using holds_trans[OF holds_lower[OF _ k(2)] Y(1)] by blast
  qed
qed

lemma getLast_plain:
  assumes "lastIncludedIndex l = 0"
  shows "getLastIndex l = length (entries l)"
    and "entries l \<noteq> [] \<or> lastIncludedTerm l = 0 \<Longrightarrow> getLastTerm l = last_term (entries l)"
  using assms by (auto simp: getLastIndex_def getLastTerm_def last_term_def last_conv_nth)

lemma granted_up_to_date:
  assumes "handleRequestVote n args = (n', r)" and "rvr_voteGranted r"
  shows "isLogUpToDate n (rv_lastLogIndex args) (rv_lastLogTerm args)"
  using assms by (auto simp: handleRequestVote_def isLogUpToDate_def getLastTerm_def getLastIndex_def Let_def split: if_splits)

lemma runElection_stands:
  assumes "runElection m = (n, el)" and "p \<in> set (my_peers n)"
  shows "state n = Candidate" and "rv_lastLogIndex (el_args el) = getLastIndex (raftLog n)"
    and "rv_lastLogTerm (el_args el) = getLastTerm (raftLog n)"
  using assms by (auto simp: runElection_def finalizeElection_def becomeCandidate_def Let_def split: if_splits)

lemma complete_vote:
  assumes inv: "complete M c g" "cluster_inv M cfg c" and v: "v \<in> M"
    and req: "(u, v, args) \<in> voteRequests c" and h: "handleRequestVote (nodes c v) args = (n, r)"
    and moved: "complete M (set_node v n c) (noted v n g)"
  shows "complete M ((set_node v n c)\<lparr>voteReplies := insert (u, rv_term args, v, r) (voteReplies c)\<rparr>) (noted v n g)"
proof (rule complete_messages[OF moved])
  fix x t w
  let ?g = "noted v n g" and ?t = "rv_term args"
  assume w: "w \<in> voters ((set_node v n c)\<lparr>voteReplies := insert (u, ?t, v, r) (voteReplies c)\<rparr>) x t"
  show "w \<in> voters (set_node v n c) x t \<or> (\<exists>C. (x, t, C) \<in> stood ?g) \<and>
      (\<forall>C Y i. (x, t, C) \<in> stood ?g \<longrightarrow> (\<forall>w. (t, w) \<notin> elected (set_node v n c)) \<longrightarrow> marked ?g w Y i \<longrightarrow> e_term (Y ! i) < t \<longrightarrow>
         holds C Y i \<or> lacked (led ?g) (e_term (Y ! i)) t Y i)"
  proof (cases "w \<in> voters c x t")
    case False
    then have new: "w = v" "x = u" "t = ?t" "rvr_voteGranted r" using w by (auto simp: voters_def)
    obtain C where C: "(u, ?t, C) \<in> stood ?g" "rv_lastLogIndex args = length C" "rv_lastLogTerm args = last_term C"
      using moved req unfolding complete_def asked_def by fastforce
    note g = handleRequestVote_vote(1)[OF h new(4)]
    have own: "lastIncludedIndex (raftLog (nodes c v)) = 0" using inv(1) v by (simp add: complete_def matching_def members_logs_def)
    have same: "entries (raftLog n) = log_of c v" using entries_handleRequestVote[of "nodes c v" args] h by simp
    have "holds C' Y i \<or> lacked (led ?g) (e_term (Y ! i)) t Y i"
      if C': "(x, t, C') \<in> stood ?g" and free: "\<forall>w. (t, w) \<notin> elected (set_node v n c)" and mk: "marked ?g w Y i" "e_term (Y ! i) < t" for C' Y i
    proof -
      have stood: "stood_ok M (set_node v n c) ?g" using moved by (simp add: complete_def)
      have "C' = C" using stood C(1) C' new unfolding stood_ok_def by metis
      have "holds (log_of (set_node v n c) v) Y i \<or> lacked (led ?g) (e_term (Y ! i)) (Suc (currentTerm (nodes (set_node v n c) v))) Y i"
        using moved v mk(1) new(1) unfolding complete_def kept_def by blast
      then show ?thesis
      proof
        assume "lacked (led ?g) (e_term (Y ! i)) (Suc (currentTerm (nodes (set_node v n c) v))) Y i"
        then obtain s Z where s: "(s, Z) \<in> led ?g" "e_term (Y ! i) < s" "s < Suc ?t" "\<not> holds Z Y i"
          using g by (auto simp: lacked_def)
        have "s \<noteq> t" using s(1) free moved unfolding complete_def led_ok_def by blast
        then show ?thesis using s new(3) unfolding lacked_def by fastforce
      next
        assume "holds (log_of (set_node v n c) v) Y i"
        then have X: "holds (log_of c v) Y i" using same by simp
        then have "log_of c v \<noteq> []" by (auto simp: holds_def)
        then have "last_term (log_of c v) < last_term C \<or> last_term (log_of c v) = last_term C \<and> length (log_of c v) \<le> length C"
          using granted_up_to_date[OF h new(4)] getLast_plain[OF own] C(2,3) by (auto simp: isLogUpToDate_def Let_def split: if_splits)
        moreover have "log_of c v \<in> logs ?g" by (simp add: logs_noted same)
        moreover have "C \<in> logs ?g" "\<forall>e\<in>set C. e_term e < t"
          using stood C(1) new(3) unfolding stood_ok_def by blast+
        moreover have "i < length Y" using mk(1) by (simp add: marked_def)
        ultimately show ?thesis using not_behind_holds[OF moved _ _ _ _ X] \<open>C' = C\<close> by blast
      qed
    qed
    then show ?thesis using C(1) new by blast
  qed simp
qed simp_all

text \<open>A step in which member \<open>u\<close> becomes \<open>n\<close>, on the invariants before and after it.\<close>
definition member_step :: "url set \<Rightarrow> (url \<Rightarrow> node_config) \<Rightarrow> cluster \<Rightarrow> ledger \<Rightarrow> cluster \<Rightarrow> url \<Rightarrow> raft_node \<Rightarrow> bool" where
  "member_step M cfg c g c' u n \<longleftrightarrow> complete M c g \<and> cluster_inv M cfg c \<and> cluster_inv M cfg c' \<and> plain M c' \<and> u \<in> M \<and>
     nodes c' = nodes (set_node u n c) \<and> elected c' = elected (set_node u n c) \<and> (\<forall>t. voters c' u t = voters c u t)"

lemma member_stepD:
  assumes "member_step M cfg c g c' u n"
  shows "complete M c g" and "cluster_inv M cfg c" and "u \<in> M"
    and "lastIncludedIndex (raftLog n) = 0" and "lastIncludedTerm (raftLog n) = 0"
    and "(t, v) \<in> elected (set_node u n c) \<Longrightarrow> (t, w) \<in> elected (set_node u n c) \<Longrightarrow> v = w"
    and "state n = Leader \<Longrightarrow> majority_of M (insert u (voters c u (currentTerm n)))"
proof -
  note m = assms[unfolded member_step_def]
  show "complete M c g" "cluster_inv M cfg c" "u \<in> M" using m by simp_all
  show "lastIncludedIndex (raftLog n) = 0" "lastIncludedTerm (raftLog n) = 0" using m by (auto simp: plain_def)
  show "(t, v) \<in> elected (set_node u n c) \<Longrightarrow> (t, w) \<in> elected (set_node u n c) \<Longrightarrow> v = w"
    using m one_leader[of M cfg c' t v w] by simp
  show "state n = Leader \<Longrightarrow> majority_of M (insert u (voters c u (currentTerm n)))"
    using m electedD(3)[of M cfg c' "currentTerm n" u] by (simp add: set_node_def)
qed

lemma member_own:
  assumes "complete M c g" and "cluster_inv M cfg c" and "u \<in> M"
  shows "node_inv (nodes c u)" and "pkind (store (nodes c u)) = FilePersistence" and "log_of c u \<in> logs g"
    and "lastIncludedIndex (raftLog (nodes c u)) = 0"
  using assms by (auto simp: complete_def matching_def members_logs_def cluster_inv_def members_inv_def member_inv_def)

lemma member_stays:
  assumes m: "member_step M cfg c g c' u n" and n: "node_inv n" "log_stays (nodes c u) n" "role_ok (nodes c u) n"
    "currentTerm (nodes c u) \<le> currentTerm n"
  shows "complete M (set_node u n c) (noted u n g)"
  by (rule complete_stays[OF member_stepD(1-3)[OF m] n(3,4,1) member_stepD(4)[OF m] n(2) _ member_stepD(7)[OF m]])
    (erule (1) member_stepD(6)[OF m])

text \<open>Only elections and what awaits an answer have changed besides.\<close>
lemma complete_framed:
  assumes "complete M c1 (noted u n g)" and "nodes c' = nodes c1" and "elected c' = elected c1"
    and "leaderCalls c' = leaderCalls c1" and "voteRequests c' = voteRequests c1" and "voters c' = voters c1"
  shows "\<exists>g'. complete M c' g' \<and> held g \<subseteq> held g'"
  using complete_messages[OF assms(1-3)] assms(4-6) noted_grows(3) by (intro exI[of _ "noted u n g"]) auto

lemma complete_quiet:
  assumes m: "member_step M cfg c g c' u n" and q: "quiet (nodes c u) n" "node_inv n" "log_stays (nodes c u) n"
    and c': "leaderCalls c' = leaderCalls c" "voteRequests c' = voteRequests c" "voteReplies c' = voteReplies c"
  shows "\<exists>g'. complete M c' g' \<and> held g \<subseteq> held g'"
proof -
  have "voters c' = voters c" using c'(3) by (simp add: voters_def fun_eq_iff)
  with member_stays[OF m q(2,3) role_ok_quiet[OF q(1)] term_mono(1)[OF q(1)]] m c'
  show ?thesis by (intro complete_framed[of M "set_node u n c" u n]) (auto simp: member_step_def)
qed

lemma complete_timeout:
  assumes m: "member_step M cfg c g c' u n" and e: "onElectionTimeout ((nodes c u)\<lparr>timers := tm\<rparr>) = Some (n, el)"
    and c': "leaderCalls c' = leaderCalls c" "voteReplies c' = voteReplies c"
      "voteRequests c' = voteRequests c \<union> (\<lambda>p. (u, p, el_args el)) ` set (my_peers n)"
  shows "complete M c' (noted u n g)"
proof -
  obtain b where b: "runElection b = (n, el)" "currentTerm b = currentTerm (nodes c u)" "state b = state (nodes c u)"
    "entries (raftLog b) = log_of c u" "node_inv b"
    using e member_own(1)[OF member_stepD(1-3)[OF m]] by (auto simp: onElectionTimeout_def split: if_splits)
  have "node_inv n" "entries (raftLog n) = log_of c u" "role_ok (nodes c u) n" "currentTerm (nodes c u) \<le> currentTerm n"
    using node_inv_runElection[OF b(5)] entries_runElection[of b] role_ok_runElection[OF b(1)] runElection_vote(2)[OF b(1)] b
    by (simp_all add: role_ok_def)
  then have moved: "complete M (set_node u n c) (noted u n g)"
    by (intro member_stays[OF m]) (simp_all add: log_stays_same)
  have "\<exists>C. (u, rv_term (el_args el), C) \<in> stood (noted u n g) \<and> rv_lastLogIndex (el_args el) = length C \<and>
      rv_lastLogTerm (el_args el) = last_term C" if "p \<in> set (my_peers n)" for p
    using runElection_stands[OF b(1) that] runElection_vote(8)[OF b(1)] member_stepD(4,5)[OF m]
    by (auto simp: led_noted getLast_plain)
  then show ?thesis
    using m c' by (intro complete_messages[OF moved]) (auto simp: member_step_def voters_def)
qed

lemma complete_replicate:
  assumes m: "member_step M cfg c g c' u n" and d: "driveReplication (nodes c u) v = (n, r)"
    and c': "leaderCalls c' = leaderCalls c \<union> (\<lambda>call. (u, v, call)) ` wire r" "voteReplies c' = voteReplies c"
      "voteRequests c' = voteRequests c"
  shows "complete M c' (noted u n g)"
proof -
  note own = member_own[OF member_stepD(1-3)[OF m]]
  have n: "entries (raftLog n) = log_of c u" "state n = state (nodes c u)" "currentTerm n = currentTerm (nodes c u)"
    using d by (auto simp: driveReplication_def Let_def split: if_splits)
  have "node_inv n" using node_inv_driveReplication[OF own(1), of v] d by simp
  then have moved: "complete M (set_node u n c) (noted u n g)"
    using n by (intro member_stays[OF m]) (simp_all add: log_stays_same role_ok_def)
  have "sent_ok {Z. (call_term call, Z) \<in> led (noted u n g)} call" if call: "call \<in> wire r" for call
  proof -
    have r: "r = replicateOnce (nodes c u) v" using d call by (auto simp: driveReplication_def Let_def split: if_splits)
    have lead: "state (nodes c u) = Leader" "call_term call = currentTerm (nodes c u)"
      using call unfolding r by (auto simp: replicateOnce_def sendInstallSnapshot_def Let_def split: if_splits option.splits)
    then have "log_of c u \<in> {Z. (call_term call, Z) \<in> led (noted u n g)}" using n by (simp add: led_noted)
    from sent_replication[OF own(1,4,2) this d call] show ?thesis .
  qed
  then show ?thesis
    using m c' by (intro complete_messages[OF moved]) (auto simp: member_step_def voters_def simp del: sent_ok.simps)
qed

lemma complete_step:
  assumes inv: "complete M c g" and ok: "members_ok M cfg" and cinv: "cluster_inv M cfg c"
    and step: "cluster_step M c c'" and plain: "plain M c'"
  shows "\<exists>g'. complete M c' g' \<and> held g \<subseteq> held g'"
proof -
  have cinv': "cluster_inv M cfg c'" using cluster_inv_step[OF ok cinv step] .
  note own = member_own[OF inv cinv]
  have ms: "member_step M cfg c g c' u n"
    if "u \<in> M" "nodes c' = nodes (set_node u n c)" "elected c' = elected (set_node u n c)" "\<And>t. voters c' u t = voters c u t" for u n
    unfolding member_step_def using that inv cinv cinv' plain by blast
  have quiet: ?thesis if u: "u \<in> M" and q: "quiet (nodes c u) n" "node_inv n" "log_stays (nodes c u) n"
      and c': "nodes c' = nodes (set_node u n c)" "elected c' = elected (set_node u n c)"
        "leaderCalls c' = leaderCalls c" "voteRequests c' = voteRequests c" "voteReplies c' = voteReplies c" for u n
    by (rule complete_quiet[OF ms[OF u c'(1,2)] q c'(3-5)]) (simp add: voters_def c'(5))
  from step show ?thesis
  proof cases
    case (timeout u n el)
    then have "member_step M cfg c g c' u n" by (intro ms) (auto simp: voters_def)
    then have "complete M c' (noted u n g)" by (rule complete_timeout[OF _ timeout(3)]) (simp_all add: timeout(1))
    then show ?thesis using noted_grows(3) by blast
  next
    case (vote_request v u args n r)
    have ne: "u \<noteq> v" using cinv vote_request(3) by (auto simp: cluster_inv_def votes_inv_def)
    have "currentTerm (nodes c v) \<le> currentTerm n"
      using handleRequestVote_vote[OF vote_request(4)] term_mono(1) by (cases "rvr_voteGranted r") auto
    moreover have "member_step M cfg c g c' v n" using vote_request ne by (intro ms) (auto simp: voters_def)
    ultimately have "complete M (set_node v n c) (noted v n g)"
      using vote_request(4) own(1)[OF vote_request(2)] node_inv_handleRequestVote[of "nodes c v" args]
        entries_handleRequestVote[of "nodes c v" args] role_ok_handleRequestVote[of "nodes c v" args n r]
      by (intro member_stays) (auto simp: log_stays_same)
    then show ?thesis
      using complete_vote[OF inv cinv vote_request(2-4)] vote_request(1) noted_grows(3) by blast
  next
    case (vote_reply u t el v reply n el')
    have "currentTerm (nodes c u) \<le> currentTerm n"
      using vote_settled_vote(1)[OF vote_reply(6)] term_mono(1) by (auto simp: wins_def)
    moreover have "member_step M cfg c g c' u n" using vote_reply by (intro ms) (auto simp: voters_def)
    ultimately have "complete M (set_node u n c) (noted u n g)"
      using vote_reply(6) own(1)[OF vote_reply(2)] node_inv_vote_settled[of "nodes c u" el reply]
        entries_vote_settled[of "nodes c u" el reply] role_ok_vote_settled[of "nodes c u" el reply n el']
      by (intro member_stays) (auto simp: log_stays_same)
    then show ?thesis by (rule complete_framed) (simp_all add: vote_reply(1) voters_def fun_eq_iff)
  next
    case (replicate u v n r)
    then have "member_step M cfg c g c' u n" by (intro ms) (auto simp: voters_def)
    then have "complete M c' (noted u n g)" by (rule complete_replicate[OF _ replicate(4)]) (simp_all add: replicate(1))
    then show ?thesis using noted_grows(3) by blast
  next
    case (confirm u args)
    have "complete M c' g"
      using confirm(1) by (intro complete_messages[OF inv]) (auto simp: voters_def)
    then show ?thesis by blast
  next
    case (leader_call v u call)
    define n where "n = handle_call (nodes c v) call"
    have c': "c' = set_node v n c" using leader_call(1) by (simp add: n_def)
    have m: "member_step M cfg c g c' v n" using c' leader_call(2) by (intro ms) auto
    have "complete M (set_node v n c) (noted v n g)"
      by (rule complete_leader_call[OF inv cinv leader_call(2,3) n_def])
        (use m member_stepD[OF m] in auto)
    then show ?thesis using c' noted_grows(3) by blast
  next
    case (client_write u stroke n i)
    have m: "member_step M cfg c g c' u n" using client_write by (intro ms) auto
    have "complete M (set_node u n c) (noted u n g)"
      by (rule complete_write[OF inv cinv client_write(2,3)]) (use member_stepD[OF m] in auto)
    then show ?thesis using client_write(1) noted_grows(3) by blast
  next
    case (replication_answer u v r outcome)
    then show ?thesis
      using quiet[of u "replication_settled (nodes c u) v r outcome"] own(1)[of u] quiet_replication_settled
      by (simp add: node_inv_replication_settled log_stays_same entries_ops)
  next
    case (heartbeats_done u)
    have "quiet (nodes c u) (sendHeartbeats_end (nodes c u))" "log_stays (nodes c u) (sendHeartbeats_end (nodes c u))"
      "node_inv (sendHeartbeats_end (nodes c u))"
      using heartbeats_done(2) own(1) quiet_updateCommitIndex log_stays_updateCommitIndex node_inv_updateCommitIndex
      by (simp_all add: sendHeartbeats_end_def log_stays_same)
    then show ?thesis using heartbeats_done quiet[of u "sendHeartbeats_end (nodes c u)"] by simp
  next
    case (write_round u i latency n result)
    have "log_stays (nodes c u) n"
      using write_round(3) log_stays_updateCommitIndex[OF own(1)[OF write_round(2)]]
      by (auto simp: client_write_check_def log_stays_def Let_def split: if_splits)
    then show ?thesis
      using quiet[of u n] write_round own(1)[of u] node_inv_client_write_check[of "nodes c u" i latency]
        quiet_client_write_check[OF write_round(3)] by simp
  next
    case (read_answers u args results)
    then show ?thesis
      using quiet[of u "fst (confirmLeadership_end (nodes c u) args results)"] own(1)[of u] quiet_confirmLeadership_end
      by (simp add: log_stays_same entries_ops) (simp add: confirmLeadership_end_def split_beta node_inv_confirm_loop)
  next
    case (sync_request u sargs)
    then show ?thesis
      using quiet[of u "fst (handleSyncLog (nodes c u) sargs)"] own(1)[of u] quiet_handleSyncLog
      by (simp add: log_stays_same entries_ops node_inv_handleSyncLog)
  next
    case (sync_answer u sresult)
    then show ?thesis using plain by (simp add: plain_def)
  next
    case (restart u tm m)
    define n where "n = new_RaftNode (config (nodes c u)) tm m (store (nodes c u))"
    have "vote_saved (nodes c u)" using cinv restart(2) by (simp add: cluster_inv_def members_inv_def member_inv_def)
    then have "quiet (nodes c u) n" "node_inv n" "log_stays (nodes c u) n"
      using quiet_restart own(1,2)[OF restart(2)] reopened(1)[OF own(1,2)[OF restart(2)] n_def] log_stays_restart
      unfolding n_def by blast+
    then show ?thesis using restart quiet[of u n] by (simp add: n_def)
  qed
qed

section \<open>Runs and what was stored in them\<close>

text \<open>The states of a plain run, the latest first.\<close>
inductive plain_tale :: "url set \<Rightarrow> (url \<Rightarrow> node_config) \<Rightarrow> cluster list \<Rightarrow> bool" for M cfg where
  init: "cluster_init M cfg c \<Longrightarrow> plain_tale M cfg [c]"
| step: "plain_tale M cfg (c # cs) \<Longrightarrow> cluster_step M c c' \<Longrightarrow> plain M c' \<Longrightarrow> plain_tale M cfg (c' # c # cs)"

text \<open>Some time in the run \<open>v\<close> had the entry \<open>e\<close> at index \<open>i\<close> while in the term of \<open>e\<close>.\<close>
definition stored_in_term :: "cluster list \<Rightarrow> url \<Rightarrow> nat \<Rightarrow> log_entry \<Rightarrow> bool" where
  "stored_in_term cs v i e \<longleftrightarrow>
     list_ex (\<lambda>c. currentTerm (nodes c v) = e_term e \<and> getEntry (raftLog (nodes c v)) i = Some e) cs"

lemma plain_tale_run: "plain_tale M cfg cs \<Longrightarrow> \<exists>c cs'. cs = c # cs' \<and> plain_run M cfg c"
  by (induction rule: plain_tale.induct) (auto intro: plain_run.intros)

lemma complete_init:
  assumes "cluster_init M cfg c"
  shows "complete M c \<lparr>logs = {[]}, led = {}, held = (\<lambda>u. (u, currentTerm (nodes c u), [])) ` M, stood = {}\<rparr>"
  using assms init_node[OF assms] matching_init[OF assms]
  by (auto simp: complete_defs cluster_init_def voters_def marked_def)

text \<open>The ledger has what the members were in these states.\<close>
definition records :: "url set \<Rightarrow> cluster list \<Rightarrow> ledger \<Rightarrow> bool" where
  "records M cs g \<longleftrightarrow> (\<forall>c\<in>set cs. \<forall>v\<in>M.
     lastIncludedIndex (raftLog (nodes c v)) = 0 \<and> (v, currentTerm (nodes c v), log_of c v) \<in> held g)"

lemma tale_complete:
  assumes ok: "members_ok M cfg"
  shows "plain_tale M cfg cs \<Longrightarrow> \<exists>g. complete M (hd cs) g \<and> records M cs g"
proof (induction rule: plain_tale.induct)
  case (init c)
  show ?case
    using complete_init[OF init] init_node[OF init] by (intro exI conjI) (auto simp: records_def)
next
  case (step c cs c')
  then obtain g where g: "complete M c g" "records M (c # cs) g" by auto
  obtain d ds where d: "c # cs = d # ds" "plain_run M cfg d" using plain_tale_run[OF step(1)] by blast
  have "cluster_inv M cfg c"
    using cluster_inv_reachable[OF ok plain_run_reachable[OF d(2)]] d(1) by simp
  from complete_step[OF g(1) ok this step(2,3)]
  obtain g' where g': "complete M c' g'" "held g \<subseteq> held g'" by blast
  have "(v, currentTerm (nodes c' v), log_of c' v) \<in> held g'" if "v \<in> M" for v
    using g'(1) that by (simp add: complete_def held_ok_def)
  then have "records M (c' # c # cs) g'"
    using g'(2) g(2) step(3) by (auto simp: records_def plain_def)
  then show ?case using g'(1) by auto
qed

text \<open>Where \<open>e\<close> was stored, all that is below it was stored with it.\<close>
lemma stored_marked:
  assumes inv: "complete M c g" "records M cs g" and v: "v \<in> M" and s: "stored_in_term cs v i e"
  obtains X k where "i = Suc k" and "marked g v X k" and "X ! k = e" and "X \<in> logs g"
proof -
  obtain d where d: "d \<in> set cs" "currentTerm (nodes d v) = e_term e" "getEntry (raftLog (nodes d v)) i = Some e"
    using s by (auto simp: stored_in_term_def list_ex_iff)
  then have t: "lastIncludedIndex (raftLog (nodes d v)) = 0" "(v, currentTerm (nodes d v), log_of d v) \<in> held g"
    using inv(2) v unfolding records_def by blast+
  then obtain k where k: "i = Suc k" "k < length (log_of d v)" "log_of d v ! k = e"
    using d(3) by (cases i) (auto simp: getEntry_plain js_at_Some_iff)
  moreover have "marked g v (log_of d v) k" using k t d(2) by (simp add: marked_def)
  moreover have "log_of d v \<in> logs g" using t inv(1) unfolding complete_def held_ok_def by blast
  ultimately show ?thesis using that by blast
qed

lemma same_term_holds:
  assumes "complete M c g" and "X \<in> logs g" "Y \<in> logs g" and "k < length X" "k < length Y" and "e_term (X ! k) = e_term (Y ! k)"
  shows "holds X Y k"
  using assms unfolding complete_def matching_def histories_def matches_def holds_def by blast

lemma majority_member:
  assumes "majority_of M Q"
  obtains v where "v \<in> Q" and "v \<in> M"
  using cluster_quorums.quorum_intersect[OF assms assms] assms by (auto simp: majority_of_def)

text \<open>What a majority has stored was in the log of the leader of its term, and is in those of all later ones.\<close>
lemma stored_led:
  assumes inv: "complete M c g" "records M cs g" and Q: "majority_of M Q" "\<And>v. v \<in> Q \<Longrightarrow> stored_in_term cs v i e"
  obtains k where "i = Suc k" and "\<exists>Z. (e_term e, Z) \<in> led g \<and> k < length Z \<and> Z ! k = e"
    and "\<And>t Z. (t, Z) \<in> led g \<Longrightarrow> e_term e < t \<Longrightarrow> k < length Z \<and> Z ! k = e"
proof -
  obtain v where v: "v \<in> Q" "v \<in> M" using majority_member[OF Q(1)] .
  obtain Y k where Y: "i = Suc k" "marked g v Y k" "Y ! k = e" "Y \<in> logs g"
    using stored_marked[OF inv v(2) Q(2)[OF v(1)]] .
  have k: "k < length Y" using Y(2) by (simp add: marked_def)
  obtain Z0 where Z0: "(e_term e, Z0) \<in> led g" "holds Z0 Y k" using marked_led[OF inv(1) Y(4) k] Y(3) by metis
  have "\<exists>X. marked g w X k \<and> X ! k = Y ! k \<and> holds X Y k" if w: "w \<in> Q" for w
  proof -
    have "w \<in> M" using w Q(1) by (auto simp: majority_of_def)
    then obtain X j where X: "i = Suc j" "marked g w X j" "X ! j = e" "X \<in> logs g"
      using stored_marked[OF inv _ Q(2)[OF w]] by blast
    then have "j = k" using Y(1) by simp
    then show ?thesis
      using X Y k same_term_holds[OF inv(1) X(4) Y(4)] by (auto simp: marked_def)
  qed
  then have all: "holds Z Y k" if "(t, Z) \<in> led g" "e_term e < t" for t Z
    using complete_leaders[OF inv(1) Q(1) _ that(1)] that(2) Y(3) by blast
  show ?thesis
  proof (rule that[OF Y(1)])
    show "\<exists>Z. (e_term e, Z) \<in> led g \<and> k < length Z \<and> Z ! k = e"
      using Z0 holds_nth[OF Z0(2) k] Y(3) by (auto simp: holds_def)
    show "k < length Z \<and> Z ! k = e" if "(t, Z) \<in> led g" "e_term e < t" for t Z
      using all[OF that] Y(3) holds_nth[of Z Y k] k by (auto simp: holds_def)
  qed
qed

text \<open>C5: Leader completeness. In every plain run, whatever is lost, delayed, repeated or restarted: if each
  member of a majority has at some time stored the entry \<open>e\<close> at index \<open>i\<close> in the term \<open>e\<close> was written in,
  every leader of a later term has \<open>e\<close> at index \<open>i\<close>.\<close>
theorem leader_completeness:
  assumes "members_ok M cfg" and "plain_tale M cfg (c # cs)" and "majority_of M Q"
    and "\<And>v. v \<in> Q \<Longrightarrow> stored_in_term (c # cs) v i e"
    and "u \<in> M" and "state (nodes c u) = Leader" and "e_term e < currentTerm (nodes c u)"
  shows "getEntry (raftLog (nodes c u)) i = Some e"
proof -
  obtain g where g: "complete M c g" "records M (c # cs) g" using tale_complete[OF assms(1,2)] by auto
  have "(currentTerm (nodes c u), log_of c u) \<in> led g"
    using g(1) assms(5,6) unfolding complete_def leaders_lead_def by blast
  then obtain k where "i = Suc k" "k < length (log_of c u)" "log_of c u ! k = e"
    using stored_led[OF g assms(3,4)] assms(7) by metis
  moreover have "lastIncludedIndex (raftLog (nodes c u)) = 0" using g(2) assms(5) by (simp add: records_def)
  ultimately show ?thesis by (simp add: getEntry_plain js_at_Some_iff)
qed

text \<open>C6: Agreement on what majorities store. In every plain run, two entries that majorities have stored at one
  index, each in the term it was written in, are the same entry, with its stroke.\<close>
theorem stored_entries_agree:
  assumes "members_ok M cfg" and "plain_tale M cfg cs"
    and "majority_of M Q" and "\<And>v. v \<in> Q \<Longrightarrow> stored_in_term cs v i e"
    and "majority_of M Q'" and "\<And>v. v \<in> Q' \<Longrightarrow> stored_in_term cs v i e'"
  shows "e = e'"
proof -
  obtain g where g: "complete M (hd cs) g" "records M cs g" using tale_complete[OF assms(1,2)] by blast
  obtain k Z where e: "i = Suc k" "(e_term e, Z) \<in> led g" "k < length Z" "Z ! k = e"
    and e_later: "\<And>t Z. (t, Z) \<in> led g \<Longrightarrow> e_term e < t \<Longrightarrow> k < length Z \<and> Z ! k = e"
    using stored_led[OF g assms(3,4)] by metis
  obtain Z' where e': "(e_term e', Z') \<in> led g" "k < length Z'" "Z' ! k = e'"
    and e'_later: "\<And>t Z. (t, Z) \<in> led g \<Longrightarrow> e_term e' < t \<Longrightarrow> k < length Z \<and> Z ! k = e'"
    using stored_led[OF g assms(5,6)] e(1) by (metis Suc_inject)
  consider (before) "e_term e < e_term e'" | (after) "e_term e' < e_term e" | (same) "e_term e = e_term e'" by linarith
  then show ?thesis
  proof cases
    case same
    then have "prefix Z Z' \<or> prefix Z' Z" using g(1) e(2) e'(1) unfolding complete_def led_ok_def by metis
    then show ?thesis using e(3,4) e'(2,3) by (auto simp: prefix_def nth_append)
  next
    case before
    then show ?thesis using e_later[OF e'(1)] e'(3) by simp
  next
    case after
    then show ?thesis using e'_later[OF e(2)] e(4) by simp
  qed
qed

section \<open>A run with two leaders\<close>

lemma plain_run_tale: "plain_run M cfg c \<Longrightarrow> \<exists>cs. plain_tale M cfg (c # cs)"
  by (induction rule: plain_run.induct) (auto intro: plain_tale.intros)

lemma tale_goes_on:
  assumes "plain_tale M cfg (c # cs)" and "c' = c \<or> cluster_step M c c'" and "plain M c'"
  obtains cs' where "plain_tale M cfg (c' # cs')" and "set (c # cs) \<subseteq> set (c' # cs')"
proof (cases "c' = c")
  case True
  then show ?thesis using that[of cs] assms(1) by simp
next
  case False
  then show ?thesis using that[of "c # cs"] plain_tale.step[OF assms(1) _ assms(3)] assms(2) by auto
qed

text \<open>After \<open>plain_received\<close>, in which \<open>a\<close> and \<open>b\<close> store two strokes, \<open>b\<close> is elected by \<open>c\<close>.\<close>
definition later_candidate :: cluster where
  "later_candidate = do_timeout ''b'' plain_received"

definition later_args :: request_vote_args where
  "later_args = el_args (the (elections later_candidate ''b'' 2))"

definition later_asked :: cluster where
  "later_asked = do_vote_request ''b'' ''c'' later_args later_candidate"

definition later_elected :: cluster where
  "later_elected = do_vote_reply ''b'' 2 ''c'' (snd (handleRequestVote (nodes later_candidate ''c'') later_args)) later_asked"

definition second_entry :: log_entry where
  "second_entry = \<lparr>e_index = 2, e_term = 1, e_stroke = stroke_of ''s2''\<rparr>"

lemma later_steps:
  "later_candidate = plain_received \<or> cluster_step three plain_received later_candidate"
  "later_asked = later_candidate \<or> cluster_step three later_candidate later_asked"
  "later_elected = later_asked \<or> cluster_step three later_asked later_elected"
  using one_step[OF three_members(2,3)] by (simp_all add: later_candidate_def later_asked_def later_elected_def)

lemma later_stages: "plain three later_candidate" "plain three later_asked" "plain three later_elected"
  by code_simp+

lemma later_leader: "state (nodes later_elected ''b'') = Leader \<and> currentTerm (nodes later_elected ''b'') = 2"
  by code_simp

lemma received_stored:
  "stored_in_term [plain_received] ''a'' 2 second_entry \<and> stored_in_term [plain_received] ''b'' 2 second_entry"
  by code_simp

lemma three_majority: "majority_of three {''a'', ''b''}"
  by (simp add: majority_of_def three_def majority_def)

lemma later_tale:
  obtains cs where "plain_tale three three_cfg (later_elected # cs)"
    and "list_all (\<lambda>v. stored_in_term (later_elected # cs) v 2 second_entry) [''a'', ''b'']"
proof -
  obtain cs0 where "plain_tale three three_cfg (plain_received # cs0)" using plain_run_tale[OF plain_run_received] by blast
  from tale_goes_on[OF this later_steps(1) later_stages(1)] obtain cs1
    where 1: "plain_tale three three_cfg (later_candidate # cs1)" "set (plain_received # cs0) \<subseteq> set (later_candidate # cs1)" .
  from tale_goes_on[OF 1(1) later_steps(2) later_stages(2)] obtain cs2
    where 2: "plain_tale three three_cfg (later_asked # cs2)" "set (later_candidate # cs1) \<subseteq> set (later_asked # cs2)" .
  from tale_goes_on[OF 2(1) later_steps(3) later_stages(3)] obtain cs3
    where 3: "plain_tale three three_cfg (later_elected # cs3)" "set (later_asked # cs2) \<subseteq> set (later_elected # cs3)" .
  have there: "plain_received \<in> set (later_elected # cs3)"
    by (rule subsetD[OF subset_trans[OF subset_trans[OF 1(2) 2(2)] 3(2)]]) simp
  have "stored_in_term (later_elected # cs3) v 2 second_entry" if "stored_in_term [plain_received] v 2 second_entry" for v
    using that there unfolding stored_in_term_def list_ex_iff by auto
  then show ?thesis using that[OF 3(1)] received_stored by simp
qed

theorem leader_completeness_witness:
  "state (nodes later_elected ''b'') = Leader \<and> getEntry (raftLog (nodes later_elected ''b'')) 2 = Some second_entry"
proof -
  obtain cs where cs: "plain_tale three three_cfg (later_elected # cs)"
    "list_all (\<lambda>v. stored_in_term (later_elected # cs) v 2 second_entry) [''a'', ''b'']"
    using later_tale .
  have "e_term second_entry < currentTerm (nodes later_elected ''b'')" using later_leader by (simp add: second_entry_def)
  from leader_completeness[OF three_ok cs(1) three_majority _ three_members(2) conjunct1[OF later_leader] this, of 2]
  show ?thesis using cs(2) later_leader by auto
qed

theorem stored_entries_agree_witness:
  "\<exists>cs. plain_tale three three_cfg cs \<and> {e. list_all (\<lambda>v. stored_in_term cs v 2 e) [''a'', ''b'']} = {second_entry}"
proof -
  obtain cs where cs: "plain_tale three three_cfg (later_elected # cs)"
    "list_all (\<lambda>v. stored_in_term (later_elected # cs) v 2 second_entry) [''a'', ''b'']"
    using later_tale .
  have "e = second_entry" if "list_all (\<lambda>v. stored_in_term (later_elected # cs) v 2 e) [''a'', ''b'']" for e
    using that cs(2) by (intro stored_entries_agree[OF three_ok cs(1) three_majority _ three_majority]) auto
  with cs show ?thesis by (intro exI[of _ "later_elected # cs"]) auto
qed

end
