(* ===== verification/Stale_Answers.thy ===== *)
theory Stale_Answers
  imports Cluster_Failures
begin

text \<open>
  A run of five replicas in which an answer to an AppendEntries arrives two terms after it was
  asked for. \<open>replicateOnce\<close> looks at the term of the answer only to step down, so what a peer held
  in an earlier term is counted for the entries of the present one.
\<close>

section \<open>A cluster of five\<close>

definition five_names :: "url list" where
  "five_names = [''a'', ''b'', ''c'', ''d'', ''e'']"

definition five_cfg :: "url \<Rightarrow> node_config" where
  "five_cfg u = \<lparr>replicaId = ''replica-'' @ u, peers = filter (\<lambda>p. p \<noteq> u) five_names,
     selfUrl = u, snapshotThreshold = snapshotThresholdEntries, batchCap = appendEntriesBatchCap\<rparr>"

definition five_node :: "url \<Rightarrow> raft_node" where
  "five_node u = new_RaftNode (five_cfg u) (new_timers None (\<lambda>i. 0)) new_metrics
     \<lparr>pkind = FilePersistence, disk = empty_disk, calls = []\<rparr>"

definition five_init :: cluster where
  "five_init = \<lparr>nodes = five_node,
     elections = (\<lambda>u t. None), awaited = {}, voteRequests = {}, voteReplies = {}, leaderCalls = {}, elected = {}, caughtUp = False\<rparr>"

lemma five_ok: "members_ok (set five_names) five_cfg"
  by (auto simp: members_ok_def five_names_def five_cfg_def inj_on_def)

lemma five_members [simp]:
  "''a'' \<in> set five_names" "''b'' \<in> set five_names" "''c'' \<in> set five_names" "''d'' \<in> set five_names" "''e'' \<in> set five_names"
  by (simp_all add: five_names_def)

lemma five_reachable: "cluster_reachable (set five_names) five_cfg five_init"
proof (rule cluster_reachable.init)
  let ?p = "\<lparr>pkind = FilePersistence, disk = empty_disk, calls = []\<rparr>"
  have "pkind ?p = FilePersistence" "disk ?p = empty_disk" by simp_all
  then have "\<exists>tm m p. pkind p = FilePersistence \<and> disk p = empty_disk \<and>
      nodes five_init u = new_RaftNode (five_cfg u) tm m p" for u
    unfolding five_init_def five_node_def cluster.simps by blast
  then show "cluster_init (set five_names) five_cfg five_init"
    by (simp add: cluster_init_def) (simp add: five_init_def)
qed

section \<open>The nodes of a reachable cluster\<close>

text \<open>
  What happens to the nodes when several steps of the cluster follow each other at once. The run is
  built from these, so that only nodes are evaluated.
\<close>
definition nodes_reachable :: "url set \<Rightarrow> (url \<Rightarrow> node_config) \<Rightarrow> (url \<Rightarrow> raft_node) \<Rightarrow> bool" where
  "nodes_reachable M cfg N \<longleftrightarrow> (\<exists>c. cluster_reachable M cfg c \<and> nodes c = N)"

text \<open>The voters \<open>vs\<close> are asked one after the other.\<close>
fun ask_votes :: "url \<Rightarrow> url list \<Rightarrow> election \<Rightarrow> (url \<Rightarrow> raft_node) \<Rightarrow> (url \<Rightarrow> raft_node)" where
  "ask_votes u [] el N = N"
| "ask_votes u (v # vs) el N =
     (let (m, r) = handleRequestVote (N v) (el_args el);
          (n, el') = vote_settled (N u) el (Some r)
      in ask_votes u vs el' (N(v := m, u := n)))"

definition elect :: "url \<Rightarrow> url list \<Rightarrow> (url \<Rightarrow> raft_node) \<Rightarrow> (url \<Rightarrow> raft_node)" where
  "elect u vs N =
     (case onElectionTimeout ((N u)\<lparr>timers := fireElectionTimer (timers (N u))\<rparr>) of
        None \<Rightarrow> N
      | Some (n, el) \<Rightarrow> ask_votes u vs el (N(u := n)))"

definition begin_write :: "url \<Rightarrow> stroke \<Rightarrow> (url \<Rightarrow> raft_node) \<Rightarrow> (url \<Rightarrow> raft_node)" where
  "begin_write u stroke N =
     (case client_write_begin (N u) stroke of Inl r \<Rightarrow> N | Inr (n, i) \<Rightarrow> N(u := n))"

text \<open>\<open>u\<close> sends to \<open>v\<close>, which handles the message; its answer is the second component.\<close>
definition deliver_to :: "url \<Rightarrow> url \<Rightarrow> (url \<Rightarrow> raft_node) \<Rightarrow> (url \<Rightarrow> raft_node) \<times> replication \<times> rpc_outcome" where
  "deliver_to u v N =
     (let (n, r) = driveReplication (N u) v in
      case r of
        SendAppend i args \<Rightarrow>
          (let (m, result) = handleAppendEntries (N v) args in (N(u := n, v := m), r, AppendResult result))
      | _ \<Rightarrow> (N(u := n), r, RpcFailed))"

definition take_answer :: "url \<Rightarrow> url \<Rightarrow> replication \<Rightarrow> rpc_outcome \<Rightarrow> (url \<Rightarrow> raft_node) \<Rightarrow> (url \<Rightarrow> raft_node)" where
  "take_answer u v r outcome N = N(u := replication_settled (N u) v r outcome)"

definition exchange :: "url \<Rightarrow> url \<Rightarrow> (url \<Rightarrow> raft_node) \<Rightarrow> (url \<Rightarrow> raft_node)" where
  "exchange u v N = (let (N', r, outcome) = deliver_to u v N in take_answer u v r outcome N')"

definition end_round :: "url \<Rightarrow> nat \<Rightarrow> (url \<Rightarrow> raft_node) \<Rightarrow> (url \<Rightarrow> raft_node)" where
  "end_round u i N = (case client_write_check (N u) i 0 of None \<Rightarrow> N | Some (n, r) \<Rightarrow> N(u := n))"

lemma ask_votes_reachable:
  assumes "cluster_reachable M cfg c" and "u \<in> M" and "elections c u t = Some el" and "rv_term (el_args el) = t"
    and "\<forall>v\<in>set vs. v \<in> M \<and> v \<noteq> u \<and> (u, v, el_args el) \<in> voteRequests c \<and> (u, t, v) \<in> awaited c" and "distinct vs"
  shows "nodes_reachable M cfg (ask_votes u vs el (nodes c))"
  using assms
proof (induction vs arbitrary: c el)
  case Nil
  then show ?case by (auto simp: nodes_reachable_def)
next
  case (Cons v vs)
  obtain m r where m: "handleRequestVote (nodes c v) (el_args el) = (m, r)" by fastforce
  obtain n el' where n: "vote_settled (nodes c u) el (Some r) = (n, el')" by fastforce
  define c1 where "c1 = (set_node v m c)\<lparr>voteReplies := insert (u, rv_term (el_args el), v, r) (voteReplies c)\<rparr>"
  define c2 where "c2 = (set_node u n c1)
    \<lparr>elections := (elections c1)(u := (elections c1 u)(t := Some el')), awaited := awaited c1 - {(u, t, v)}\<rparr>"
  have v: "v \<in> M" "v \<noteq> u" "(u, v, el_args el) \<in> voteRequests c" "(u, t, v) \<in> awaited c" using Cons.prems(5) by simp_all
  have "cluster_reachable M cfg c1"
    unfolding c1_def by (rule cluster_reachable.step[OF Cons.prems(1) cluster_step.vote_request[OF v(1,3) m]])
  moreover have "cluster_step M c1 c2"
    unfolding c2_def by (rule cluster_step.vote_reply[where el = el and reply = "Some r"])
      (use Cons.prems(2-4) v n in \<open>simp_all add: c1_def\<close>)
  ultimately have reach: "cluster_reachable M cfg c2" by (rule cluster_reachable.step)
  have args: "el_args el' = el_args el" using vote_settled_vote(2)[OF n] .
  have "nodes_reachable M cfg (ask_votes u vs el' (nodes c2))"
  proof (rule Cons.IH[OF reach Cons.prems(2)])
    show "\<forall>w\<in>set vs. w \<in> M \<and> w \<noteq> u \<and> (u, w, el_args el') \<in> voteRequests c2 \<and> (u, t, w) \<in> awaited c2"
      using Cons.prems(5,6) by (auto simp: c2_def c1_def args)
  qed (use Cons.prems args in \<open>simp_all add: c2_def\<close>)
  moreover have "nodes c2 = (nodes c)(v := m, u := n)" by (simp add: c2_def c1_def)
  ultimately show ?case using m n by simp
qed

lemma elect_reachable:
  assumes ok: "members_ok M cfg" and "nodes_reachable M cfg N" and u: "u \<in> M" and vs: "set vs \<subseteq> M - {u}" "distinct vs"
  shows "nodes_reachable M cfg (elect u vs N)"
proof -
  obtain c where c: "cluster_reachable M cfg c" "nodes c = N" using assms(2) by (auto simp: nodes_reachable_def)
  show ?thesis
  proof (cases "onElectionTimeout ((N u)\<lparr>timers := fireElectionTimer (timers (N u))\<rparr>)")
    case None
    then show ?thesis using assms(2) by (simp add: elect_def)
  next
    case (Some x)
    obtain n el where x: "x = (n, el)" by (cases x)
    note timeout = cluster_step.timeout[OF u Some[unfolded x, folded c(2)]]
    have run: "runElection ((N u)\<lparr>timers := fireElectionTimer (timers (N u))\<rparr>) = (n, el)"
      using Some x by (auto simp: onElectionTimeout_def split: if_splits)
    have el: "rv_term (el_args el) = currentTerm n"
      using runElection_vote(8)[OF run] by simp
    have "config n = cfg u"
      using cluster_inv_reachable[OF ok c(1)] u runElection_vote(1)[OF run] c(2)
      by (auto simp: cluster_inv_def members_inv_def member_inv_def)
    then have peers: "set (my_peers n) = M - {u}" using ok u by (simp add: members_ok_def)
    from ask_votes_reachable[OF cluster_reachable.step[OF c(1) timeout] u, of "currentTerm n" el vs] vs el peers
    show ?thesis using Some x c(2) by (fastforce simp: elect_def)
  qed
qed

lemma begin_write_reachable:
  "nodes_reachable M cfg N \<Longrightarrow> u \<in> M \<Longrightarrow> nodes_reachable M cfg (begin_write u stroke N)"
  using do_write_step[of M cfg _ u stroke]
  by (fastforce simp: nodes_reachable_def begin_write_def do_write_def split: sum.split)

lemma take_answer_reachable:
  "nodes_reachable M cfg N \<Longrightarrow> u \<in> M \<Longrightarrow> nodes_reachable M cfg (take_answer u v r outcome N)"
  using do_answer_step[of M cfg _ u v r outcome]
  by (fastforce simp: nodes_reachable_def take_answer_def do_answer_def)

lemma end_round_reachable:
  "nodes_reachable M cfg N \<Longrightarrow> u \<in> M \<Longrightarrow> nodes_reachable M cfg (end_round u i N)"
  using do_check_step[of M cfg _ u i]
  by (fastforce simp: nodes_reachable_def end_round_def do_check_def split: option.split)

lemma deliver_to_reachable:
  assumes ok: "members_ok M cfg" and "nodes_reachable M cfg N" and u: "u \<in> M" and v: "v \<in> M" "v \<noteq> u"
  shows "nodes_reachable M cfg (fst (deliver_to u v N))"
proof -
  obtain c where c: "cluster_reachable M cfg c" "nodes c = N" using assms(2) by (auto simp: nodes_reachable_def)
  obtain n r where d: "driveReplication (N u) v = (n, r)" by fastforce
  have "config (N u) = cfg u"
    using cluster_inv_reachable[OF ok c(1)] u c(2) by (auto simp: cluster_inv_def members_inv_def member_inv_def)
  then have peer: "v \<in> set (my_peers (nodes c u))" using ok u v c(2) by (simp add: members_ok_def)
  define c1 where "c1 = (set_node u n c)\<lparr>leaderCalls := leaderCalls c \<union> (\<lambda>call. (u, v, call)) ` wire r\<rparr>"
  have c1: "cluster_reachable M cfg c1" "nodes c1 = N(u := n)"
    unfolding c1_def using cluster_reachable.step[OF c(1) cluster_step.replicate[OF u peer d[folded c(2)]]] c(2) by simp_all
  show ?thesis
  proof (cases r)
    case (SendAppend i args)
    have "cluster_reachable M cfg (set_node v (handle_call (nodes c1 v) (CallAppend args)) c1)"
      by (rule cluster_reachable.step[OF c1(1) cluster_step.leader_call[OF v(1), of u]]) (simp add: c1_def SendAppend)
    moreover have "nodes (set_node v (handle_call (nodes c1 v) (CallAppend args)) c1) = fst (deliver_to u v N)"
      using v SendAppend d c1(2) by (simp add: deliver_to_def split_beta)
    ultimately show ?thesis unfolding nodes_reachable_def by metis
  qed (use c1 d in \<open>auto simp: deliver_to_def nodes_reachable_def\<close>)
qed

lemma exchange_reachable:
  assumes "members_ok M cfg" and "nodes_reachable M cfg N" and "u \<in> M" and "v \<in> M" and "v \<noteq> u"
  shows "nodes_reachable M cfg (exchange u v N)"
  using take_answer_reachable[OF deliver_to_reachable[OF assms] assms(3)] by (simp add: exchange_def split_beta)

lemmas nodes_steps = elect_reachable begin_write_reachable exchange_reachable end_round_reachable take_answer_reachable

section \<open>The run\<close>

text \<open>\<open>a\<close> is elected by \<open>c\<close> and \<open>d\<close>, takes two strokes and sends them to \<open>b\<close>, which stores them.\<close>
definition run_first :: "url \<Rightarrow> raft_node" where
  "run_first = begin_write ''a'' (stroke_of ''x2'') (begin_write ''a'' (stroke_of ''x1'') (elect ''a'' [''c'', ''d''] five_node))"

text \<open>\<open>c\<close> is elected by \<open>d\<close> and \<open>e\<close> and overwrites what \<open>a\<close> has.\<close>
definition overwrite :: "(url \<Rightarrow> raft_node) \<Rightarrow> (url \<Rightarrow> raft_node)" where
  "overwrite N = exchange ''c'' ''a'' (begin_write ''c'' (stroke_of ''y1'') (elect ''c'' [''d'', ''e''] N))"

text \<open>\<open>a\<close> is elected again, by \<open>d\<close> and \<open>e\<close>, takes another stroke and replicates it to \<open>d\<close>, in two calls.\<close>
definition lead_again :: "(url \<Rightarrow> raft_node) \<Rightarrow> (url \<Rightarrow> raft_node)" where
  "lead_again N = exchange ''a'' ''d'' (exchange ''a'' ''d'' (begin_write ''a'' (stroke_of ''z2'') (elect ''a'' [''d'', ''e'', ''c''] N)))"

text \<open>Only now the answer of \<open>b\<close> from the first term arrives.\<close>
definition run_late :: "url \<Rightarrow> raft_node" where
  "run_late = (case deliver_to ''a'' ''b'' run_first of
     (N, r, outcome) \<Rightarrow> take_answer ''a'' ''b'' r outcome (lead_again (overwrite N)))"

text \<open>\<open>a\<close> ends the round of its write; then \<open>c\<close> is elected by \<open>b\<close> and \<open>e\<close>, takes a stroke and
  replicates it to \<open>e\<close>, in two calls, and to \<open>d\<close>.\<close>
definition run_disagree :: "url \<Rightarrow> raft_node" where
  "run_disagree = end_round ''c'' 2 (exchange ''c'' ''d'' (exchange ''c'' ''e'' (exchange ''c'' ''e''
     (begin_write ''c'' (stroke_of ''w2'') (elect ''c'' [''b'', ''e''] (end_round ''a'' 2 run_late))))))"

lemma reachable_five: "nodes_reachable (set five_names) five_cfg five_node"
  using five_reachable by (auto simp: nodes_reachable_def five_init_def)

lemma reachable_disagree:
  "nodes_reachable (set five_names) five_cfg run_late" "nodes_reachable (set five_names) five_cfg run_disagree"
proof -
  have "nodes_reachable (set five_names) five_cfg (fst (deliver_to ''a'' ''b'' run_first))"
    unfolding run_first_def
    by (intro deliver_to_reachable nodes_steps five_ok reachable_five) (simp_all add: five_names_def)
  then show "nodes_reachable (set five_names) five_cfg run_late"
    unfolding run_late_def lead_again_def overwrite_def split_beta
    by (intro nodes_steps five_ok) (simp_all add: five_names_def)
  then show "nodes_reachable (set five_names) five_cfg run_disagree"
    unfolding run_disagree_def by (intro nodes_steps five_ok) (simp_all add: five_names_def)
qed

section \<open>What it shows\<close>

definition glance :: "raft_node \<Rightarrow> node_state \<times> nat \<times> nat \<times> (nat \<times> nat \<times> string) list" where
  "glance n = (state n, currentTerm n, commitIndex n,
     map (\<lambda>e. (e_index e, e_term e, strokeId (e_stroke e))) (entries (raftLog n)))"

lemma late_glance:
  "map (\<lambda>u. glance (run_late u)) five_names =
     [(Leader, 3, 0, [(1, 2, ''y1''), (2, 3, ''z2'')]), (Follower, 1, 0, [(1, 1, ''x1''), (2, 1, ''x2'')]),
      (Follower, 3, 0, [(1, 2, ''y1'')]), (Follower, 3, 0, [(1, 2, ''y1''), (2, 3, ''z2'')]), (Follower, 3, 0, [])] \<and>
   map_option (cw_success \<circ> snd) (client_write_check (run_late ''a'') 2 0) = Some True"
  by code_simp

lemma disagree_glance:
  "map (\<lambda>u. glance (run_disagree u)) [''a'', ''c''] =
     [(Leader, 3, 2, [(1, 2, ''y1''), (2, 3, ''z2'')]), (Leader, 4, 2, [(1, 2, ''y1''), (2, 4, ''w2'')])]"
  by code_simp

lemma disagree_boards:
  "getStrokes (boards (run_disagree ''a'')) ''board'' = [stroke_of ''y1'', stroke_of ''z2''] \<and>
   getStrokes (boards (run_disagree ''c'')) ''board'' = [stroke_of ''y1'', stroke_of ''w2'']"
  by code_simp

definition stores_stroke :: "raft_node \<Rightarrow> string \<Rightarrow> bool" where
  "stores_stroke n sid \<longleftrightarrow> list_ex (\<lambda>e. strokeId (e_stroke e) = sid) (entries (raftLog n))"

lemma stores_stroke_glance: "stores_stroke n sid = list_ex (\<lambda>(i, t, s). s = sid) (snd (snd (snd (glance n))))"
  by (simp add: stores_stroke_def glance_def list_ex_iff)

text \<open>C35: An answer of an earlier term makes a leader commit what no majority has. In a run of five
  replicas, without any heartbeat or catch-up call, a leader of term 3 gets the answer to an AppendEntries that it
  sent as the leader of term 1, counts it for its present entries, and acknowledges a stroke that only
  two of the five store; a later leader then commits another stroke at that index, and the boards differ.\<close>
theorem stale_answer_breaks_agreement:
  "nodes_reachable (set five_names) five_cfg run_late \<and>
   map_option (cw_success \<circ> snd) (client_write_check (run_late ''a'') 2 0) = Some True \<and>
   filter (\<lambda>u. stores_stroke (run_late u) ''z2'') five_names = [''a'', ''d''] \<and>
   nodes_reachable (set five_names) five_cfg run_disagree \<and>
   commitIndex (run_disagree ''a'') = 2 \<and> commitIndex (run_disagree ''c'') = 2 \<and>
   getStrokes (boards (run_disagree ''a'')) ''board'' = [stroke_of ''y1'', stroke_of ''z2''] \<and>
   getStrokes (boards (run_disagree ''c'')) ''board'' = [stroke_of ''y1'', stroke_of ''w2'']"
proof -
  have "commitIndex (run_disagree ''a'') = 2" "commitIndex (run_disagree ''c'') = 2"
    using disagree_glance by (simp_all add: glance_def)
  moreover have "filter (\<lambda>u. stores_stroke (run_late u) ''z2'') five_names = [''a'', ''d'']"
    using late_glance by (simp add: five_names_def stores_stroke_glance)
  ultimately show ?thesis
    using reachable_disagree late_glance disagree_boards by blast
qed

end
