(* ===== verification/Security.thy ===== *)
theory Security
  imports Replica_Types
begin

text \<open>
  What the gateway checks before it believes a client, \<open>gateway/src/security.ts\<close>: the comparison of
  bearer tokens and the validation of strokes, with the values \<open>JSON.parse\<close> can return and the
  bounds of \<open>gateway/src/config.ts\<close>. The lemmas show what a validated stroke is: a stroke of the
  connection's board and user whose fields, but for the width and points of an undo or redo, have the
  types and bounds of the interface.

  Strings are lists of UTF-16 code units below 256; on those \<open>length\<close> and \<open>===\<close> are the length and
  equality of the lists, and the UTF-8 bytes of a \<open>Buffer\<close> are \<open>utf8\<close>.
\<close>

section \<open>Looking at parsed JSON\<close>

text \<open>\<open>typeof v === 'object'\<close>, and \<open>v\<close> is not \<open>null\<close>.\<close>
fun is_object :: "json option \<Rightarrow> bool" where
  "is_object (Some (JObj _)) = True"
| "is_object (Some (JArr _)) = True"
| "is_object _ = False"

text \<open>\<open>typeof v === 'number' && Number.isFinite(v)\<close>\<close>
fun finite_number :: "json option \<Rightarrow> bool" where
  "finite_number (Some (JNum (Finite _ _))) = True"
| "finite_number _ = False"

text \<open>\<open>n <= 0\<close> and \<open>n > b\<close> for a finite number.\<close>
fun number_le_zero :: "number \<Rightarrow> bool" where
  "number_le_zero (Finite m k) = (m \<le> 0)"
| "number_le_zero (Infinite pos) = (\<not> pos)"

fun number_gt :: "number \<Rightarrow> int \<Rightarrow> bool" where
  "number_gt (Finite m k) b = (b * 2 ^ k < m)"
| "number_gt (Infinite pos) b = pos"

section \<open>Bounds\<close>

definition maxStrokePoints :: nat where "maxStrokePoints = 2000"
definition strokeRateLimitPerSec :: nat where "strokeRateLimitPerSec = 60"
definition rateLimitWindowMs :: int where "rateLimitWindowMs = 1000"

lemmas gateway_security = maxStrokePoints_def strokeRateLimitPerSec_def rateLimitWindowMs_def

section \<open>Tokens\<close>

definition utf8 :: "string \<Rightarrow> nat list" where
  "utf8 s = concat (map (\<lambda>c. let n = of_char c :: nat in if n < 128 then [n] else [192 + n div 64, 128 + n mod 64]) s)"

text \<open>\<open>timingSafeEqual(a, b)\<close> throws a \<open>RangeError\<close> for buffers of different lengths.\<close>
datatype range_error = InputBuffersMustHaveSameLength

definition timingSafeEqual :: "nat list \<Rightarrow> nat list \<Rightarrow> range_error + bool" where
  "timingSafeEqual a b = (if length a \<noteq> length b then Inl InputBuffersMustHaveSameLength else Inr (a = b))"

definition tokensMatch :: "string option \<Rightarrow> string option \<Rightarrow> range_error + bool" where
  "tokensMatch provided expected =
     (case expected of
        None \<Rightarrow> Inr True
      | Some e \<Rightarrow>
          if \<not> js_truthy provided \<or> length (the provided) \<noteq> length e then Inr False
          else timingSafeEqual (utf8 (the provided)) (utf8 e))"

section \<open>Strokes\<close>

definition is_hex :: "char \<Rightarrow> bool" where
  "is_hex c \<longleftrightarrow> is_digit c \<or> c \<in> set ''abcdefABCDEF''"

text \<open>\<open>/^#[0-9a-fA-F]{6}$/\<close>\<close>
definition HEX_COLOR :: "string \<Rightarrow> bool" where
  "HEX_COLOR s \<longleftrightarrow> length s = 7 \<and> hd s = CHR ''#'' \<and> list_all is_hex (tl s)"

definition STROKE_ACTIONS :: "string list" where
  "STROKE_ACTIONS = [''stroke'', ''undo_stroke'', ''redo_stroke'']"

fun valid_point :: "json \<Rightarrow> bool" where
  "valid_point (JArr point) = (length point = 2 \<and> list_all (\<lambda>n. finite_number (Some n)) point)"
| "valid_point _ = False"

fun is_string :: "json option \<Rightarrow> bool" where
  "is_string (Some (JStr _)) = True"
| "is_string _ = False"

definition validateStroke :: "json option \<Rightarrow> string \<Rightarrow> string \<Rightarrow> string + unit" where
  "validateStroke stroke conn_boardId conn_userId =
     (if \<not> is_object stroke then Inl ''Stroke must be an object''
      else let s = (\<lambda>k. js_prop k (the stroke)) in
      if \<not> (case s ''id'' of Some (JStr i) \<Rightarrow> 0 < length i \<and> length i \<le> 200 | _ \<Rightarrow> False)
      then Inl ''Invalid stroke id''
      else if s ''boardId'' \<noteq> Some (JStr conn_boardId) \<or> s ''userId'' \<noteq> Some (JStr conn_userId)
      then Inl ''Stroke boardId/userId must match connection''
      else if s ''action'' \<noteq> None \<and> s ''action'' \<notin> (Some \<circ> JStr) ` set STROKE_ACTIONS
      then Inl ''Invalid stroke action''
      else if s ''targetStrokeId'' \<noteq> None \<and> \<not> is_string (s ''targetStrokeId'')
      then Inl ''Invalid targetStrokeId''
      else
        let isUndoRedo = (s ''action'' = Some (JStr ''undo_stroke'') \<or> s ''action'' = Some (JStr ''redo_stroke'')) in
        if isUndoRedo \<and> \<not> is_string (s ''targetStrokeId'')
        then Inl ''undo_stroke/redo_stroke requires targetStrokeId''
        else if \<not> (case s ''color'' of Some (JStr c) \<Rightarrow> HEX_COLOR c | _ \<Rightarrow> False)
        then Inl ''Invalid stroke color''
        else if \<not> finite_number (s ''timestamp'') then Inl ''Invalid stroke timestamp''
        else if isUndoRedo then Inr ()
        else if \<not> (case s ''width'' of
                     Some (JNum w) \<Rightarrow> finite_number (s ''width'') \<and> \<not> number_le_zero w \<and> \<not> number_gt w 100
                   | _ \<Rightarrow> False)
        then Inl ''Invalid stroke width''
        else (case s ''points'' of
                Some (JArr ps) \<Rightarrow>
                  if length ps = 0 \<or> maxStrokePoints < length ps then Inl ''Invalid stroke points''
                  else if list_all valid_point ps then Inr ()
                  else Inl ''Invalid stroke point''
              | _ \<Rightarrow> Inl ''Invalid stroke points''))"

section \<open>The stroke behind the value\<close>

text \<open>
  The value that is passed on after validation, read as the record \<open>Stroke\<close> it is cast to. The fields that
  are validated are read as what they then are; width and points, which are not validated in an undo
  or redo, are kept as they came.
\<close>
fun the_string :: "json option \<Rightarrow> string" where
  "the_string (Some (JStr s)) = s"
| "the_string _ = []"

fun the_number :: "json option \<Rightarrow> number" where
  "the_number (Some (JNum n)) = n"
| "the_number _ = whole 0"

definition the_action :: "json option \<Rightarrow> action option" where
  "the_action a =
     (if a = Some (JStr ''stroke'') then Some ActStroke
      else if a = Some (JStr ''undo_stroke'') then Some ActUndo
      else if a = Some (JStr ''redo_stroke'') then Some ActRedo
      else None)"

definition stroke_of :: "json \<Rightarrow> stroke" where
  "stroke_of v =
     \<lparr>strokeId = the_string (js_prop ''id'' v), boardId = the_string (js_prop ''boardId'' v),
      userId = the_string (js_prop ''userId'' v), color = the_string (js_prop ''color'' v),
      width = js_prop ''width'' v, points = js_prop ''points'' v,
      timestamp = the_number (js_prop ''timestamp'' v), action = the_action (js_prop ''action'' v),
      targetStrokeId = map_option (\<lambda>t. the_string (Some t)) (js_prop ''targetStrokeId'' v)\<rparr>"

section \<open>What the checks mean\<close>

lemma is_string_iff [simp]: "is_string v \<longleftrightarrow> (\<exists>t. v = Some (JStr t))"
  by (cases v rule: is_string.cases) auto

lemma finite_number_iff [simp]: "finite_number v \<longleftrightarrow> (\<exists>m k. v = Some (JNum (Finite m k)))"
  by (cases v rule: finite_number.cases) auto

lemma utf8_Cons:
  "utf8 (c # cs) = (if (of_char c :: nat) < 128 then [of_char c]
     else [192 + of_char c div 64, 128 + of_char c mod 64]) @ utf8 cs"
  by (simp add: utf8_def Let_def)

lemma utf8_Nil: "utf8 [] = []"
  by (simp add: utf8_def)

lemma utf8_inject [simp]: "utf8 a = utf8 b \<longleftrightarrow> a = b"
proof
  assume "utf8 a = utf8 b"
  then show "a = b"
  proof (induction a arbitrary: b)
    case Nil
    then show ?case by (cases b) (auto simp: utf8_Cons utf8_Nil split: if_splits)
  next
    case (Cons x xs)
    from Cons.prems obtain y ys where b: "b = y # ys"
      by (cases b) (auto simp: utf8_Cons utf8_Nil split: if_splits)
    let ?n = "of_char x :: nat" and ?m = "of_char y :: nat"
    have eq: "utf8 (x # xs) = utf8 (y # ys)" using Cons.prems b by simp
    have "?n = ?m \<and> utf8 xs = utf8 ys"
    proof (cases "?n < 128"; cases "?m < 128")
      assume "\<not> ?n < 128" "\<not> ?m < 128"
      then have d: "?n div 64 = ?m div 64" "?n mod 64 = ?m mod 64" "utf8 xs = utf8 ys"
        using eq by (auto simp: utf8_Cons)
      have "?n = 64 * (?n div 64) + ?n mod 64" by simp
      also have "\<dots> = ?m" using d by simp
      finally show ?thesis using d by simp
    qed (use eq in \<open>auto simp: utf8_Cons\<close>)
    with Cons.IH b show ?case by simp
  qed
qed simp

lemma tokensMatch_open [simp]: "tokensMatch provided None = Inr True"
  by (simp add: tokensMatch_def)

lemma tokensMatch_missing: "\<not> js_truthy provided \<Longrightarrow> tokensMatch provided (Some e) = Inr False"
  by (simp add: tokensMatch_def)

lemma tokensMatch_token:
  assumes "p \<noteq> []"
  shows "tokensMatch (Some p) (Some e) =
    (if length p = length e \<and> length (utf8 p) \<noteq> length (utf8 e) then Inl InputBuffersMustHaveSameLength
     else Inr (p = e))"
  using assms by (auto simp: tokensMatch_def timingSafeEqual_def)

lemma tokensMatch_True:
  "tokensMatch p e = Inr True \<longleftrightarrow> e = None \<or> p = e \<and> p \<noteq> Some []"
proof (cases e)
  case (Some t)
  then show ?thesis
    by (cases "js_truthy p") (auto simp: tokensMatch_missing tokensMatch_token elim!: js_truthyE split: if_splits)
qed simp

lemma tokensMatch_throws:
  "(\<exists>err. tokensMatch p e = Inl err) \<longleftrightarrow>
     (\<exists>q t. p = Some q \<and> e = Some t \<and> q \<noteq> [] \<and> length q = length t \<and> length (utf8 q) \<noteq> length (utf8 t))"
proof (cases e)
  case (Some t)
  then show ?thesis
    by (cases "js_truthy p") (auto simp: tokensMatch_missing tokensMatch_token elim!: js_truthyE split: if_splits)
qed simp

text \<open>A stroke as the interface and the bounds of the gateway have it.\<close>
definition well_formed_stroke :: "stroke \<Rightarrow> bool" where
  "well_formed_stroke s \<longleftrightarrow>
     0 < length (strokeId s) \<and> length (strokeId s) \<le> 200 \<and> HEX_COLOR (color s) \<and>
     (\<exists>m k. timestamp s = Finite m k) \<and>
     (if action_of s = ActStroke
      then (\<exists>m k. width s = Some (JNum (Finite m k)) \<and> 0 < m \<and> m \<le> 100 * 2 ^ k) \<and>
           (\<exists>ps. points s = Some (JArr ps) \<and> 0 < length ps \<and> length ps \<le> maxStrokePoints \<and> list_all valid_point ps)
      else targetStrokeId s \<noteq> None)"

text \<open>The value a client's \<open>JSON.stringify\<close> gives for a stroke: optional fields are left out.\<close>
fun json_of_action :: "action \<Rightarrow> json" where
  "json_of_action ActStroke = JStr ''stroke''"
| "json_of_action ActUndo = JStr ''undo_stroke''"
| "json_of_action ActRedo = JStr ''redo_stroke''"

definition json_of_stroke :: "stroke \<Rightarrow> json" where
  "json_of_stroke s = JObj
     ([(''id'', JStr (strokeId s)), (''boardId'', JStr (boardId s)), (''userId'', JStr (userId s)),
       (''color'', JStr (color s)), (''timestamp'', JNum (timestamp s))]
      @ (case width s of None \<Rightarrow> [] | Some w \<Rightarrow> [(''width'', w)])
      @ (case points s of None \<Rightarrow> [] | Some ps \<Rightarrow> [(''points'', ps)])
      @ (case action s of None \<Rightarrow> [] | Some a \<Rightarrow> [(''action'', json_of_action a)])
      @ (case targetStrokeId s of None \<Rightarrow> [] | Some t \<Rightarrow> [(''targetStrokeId'', JStr t)]))"

lemma json_of_stroke_props [simp]:
  "js_prop ''id'' (json_of_stroke s) = Some (JStr (strokeId s))"
  "js_prop ''boardId'' (json_of_stroke s) = Some (JStr (boardId s))"
  "js_prop ''userId'' (json_of_stroke s) = Some (JStr (userId s))"
  "js_prop ''color'' (json_of_stroke s) = Some (JStr (color s))"
  "js_prop ''width'' (json_of_stroke s) = width s"
  "js_prop ''points'' (json_of_stroke s) = points s"
  "js_prop ''timestamp'' (json_of_stroke s) = Some (JNum (timestamp s))"
  "js_prop ''action'' (json_of_stroke s) = map_option json_of_action (action s)"
  "js_prop ''targetStrokeId'' (json_of_stroke s) = map_option JStr (targetStrokeId s)"
  by (simp_all add: json_of_stroke_def split: option.split)

lemma is_object_json_of_stroke [simp]: "is_object (Some (json_of_stroke s))"
  by (simp add: json_of_stroke_def)

lemma the_action_json_of [simp]: "the_action (map_option json_of_action a) = a"
proof (cases a)
  case (Some x)
  then show ?thesis by (cases x) (simp_all add: the_action_def)
qed (simp add: the_action_def)

lemma stroke_of_json_of_stroke [simp]: "stroke_of (json_of_stroke s) = s"
  by (simp add: stroke_of_def option.map_comp o_def split_beta map_idI option.map_ident)

lemma valid_points_json_of:
  "list_all valid_point (map (\<lambda>(x, y). JArr [JNum x, JNum y]) ps) \<longleftrightarrow>
     list_all (\<lambda>(x, y). (\<exists>m k. x = Finite m k) \<and> (\<exists>m k. y = Finite m k)) ps"
  by (induction ps) auto

lemma action_strings:
  "json_of_action a \<in> JStr ` set STROKE_ACTIONS"
  "json_of_action a = JStr ''undo_stroke'' \<longleftrightarrow> a = ActUndo"
  "json_of_action a = JStr ''redo_stroke'' \<longleftrightarrow> a = ActRedo"
  by (cases a; simp add: STROKE_ACTIONS_def)+

text \<open>Of the strokes clients send, exactly the well-formed ones of the connection pass.\<close>
lemma valid_width:
  "(case v of Some (JNum w) \<Rightarrow> finite_number v \<and> \<not> number_le_zero w \<and> \<not> number_gt w 100 | _ \<Rightarrow> False)
     \<longleftrightarrow> (\<exists>m k. v = Some (JNum (Finite m k)) \<and> 0 < m \<and> m \<le> 100 * 2 ^ k)"
proof (cases "\<exists>w. v = Some (JNum w)")
  case True
  then obtain w where "v = Some (JNum w)" by blast
  then show ?thesis by (cases w) auto
qed (auto split: option.split json.split)

lemma valid_points:
  "(case v of
      Some (JArr ps) \<Rightarrow> if length ps = 0 \<or> maxStrokePoints < length ps then Inl ''Invalid stroke points''
        else if list_all valid_point ps then Inr () else Inl ''Invalid stroke point''
    | _ \<Rightarrow> Inl ''Invalid stroke points'') = Inr ()
     \<longleftrightarrow> (\<exists>ps. v = Some (JArr ps) \<and> 0 < length ps \<and> length ps \<le> maxStrokePoints \<and> list_all valid_point ps)"
  by (auto split: option.split json.split)

lemma validateStroke_json_of:
  "validateStroke (Some (json_of_stroke s)) b u = Inr () \<longleftrightarrow>
     well_formed_stroke s \<and> boardId s = b \<and> userId s = u"
proof (cases "action s")
  case None
  then show ?thesis
    unfolding validateStroke_def well_formed_stroke_def Let_def option.sel json_of_stroke_props valid_width
    by (auto simp: valid_points split: if_splits)
next
  case (Some a)
  then show ?thesis
    unfolding validateStroke_def well_formed_stroke_def Let_def option.sel json_of_stroke_props valid_width
    by (cases a) (auto simp: valid_points STROKE_ACTIONS_def split: if_splits)
qed

text \<open>Whatever passes is read as a well-formed stroke of the connection.\<close>
lemma validateStroke_sound:
  assumes v: "validateStroke v b u = Inr ()"
  obtains x where "v = Some x" "well_formed_stroke (stroke_of x)" "boardId (stroke_of x) = b" "userId (stroke_of x) = u"
proof -
  obtain x where x: "v = Some x"
    using v by (cases v) (auto simp: validateStroke_def)
  let ?p = "\<lambda>k. js_prop k x"
  note v' = v[unfolded validateStroke_def Let_def x option.sel]
  obtain i where i: "?p ''id'' = Some (JStr i)" "0 < length i" "length i \<le> 200"
    using v' by (auto split: if_splits option.splits json.splits)
  have ids: "?p ''boardId'' = Some (JStr b)" "?p ''userId'' = Some (JStr u)"
    using v' by (auto split: if_splits)
  have act: "?p ''action'' = None \<or> ?p ''action'' \<in> (Some \<circ> JStr) ` set STROKE_ACTIONS"
    using v' by (auto split: if_splits)
  obtain c where c: "?p ''color'' = Some (JStr c)" "HEX_COLOR c"
    using v' by (auto split: if_splits option.splits json.splits)
  obtain tm tk where t: "?p ''timestamp'' = Some (JNum (Finite tm tk))"
    using v' by (auto split: if_splits)
  show ?thesis
  proof
    show "v = Some x" by fact
    show "boardId (stroke_of x) = b" "userId (stroke_of x) = u"
      by (simp_all add: stroke_of_def ids)
    show "well_formed_stroke (stroke_of x)"
    proof (cases "?p ''action'' = Some (JStr ''undo_stroke'') \<or> ?p ''action'' = Some (JStr ''redo_stroke'')")
      case True
      then have "is_string (?p ''targetStrokeId'')"
        using v' by (auto split: if_splits)
      with True i c t show ?thesis
        by (auto simp: well_formed_stroke_def stroke_of_def the_action_def)
    next
      case False
      then have a: "action_of (stroke_of x) = ActStroke"
        by (auto simp: stroke_of_def the_action_def)
      obtain m k ps where "?p ''width'' = Some (JNum (Finite m k))" "0 < m" "m \<le> 100 * 2 ^ k"
        "?p ''points'' = Some (JArr ps)" "0 < length ps" "length ps \<le> maxStrokePoints" "list_all valid_point ps"
        using v' False unfolding valid_width by (auto simp: valid_points split: if_splits)
      with i c t a show ?thesis
        by (auto simp: well_formed_stroke_def stroke_of_def)
    qed
  qed
qed

end
