(* ===== verification/Board_Manager.thy ===== *)
theory Board_Manager
  imports Boards
begin

text \<open>
  The gateway's in-memory rooms, \<open>gateway/src/boardManager.ts\<close>: the boards with their events, undone
  strokes and visible strokes, and the sockets of the users on them; with the server's messages
  (\<open>gateway/src/types.ts\<close>) and the client that answers from these rooms when no replicas are configured
  (\<open>LocalRaftClient\<close> of \<open>gateway/src/raftClient.ts\<close>). A stroke is the replica's record: the two
  interfaces have the same fields. Sockets are numbers; which of them are open is the argument
  \<open>is_open\<close>, and what is sent is returned as a list. JavaScript maps and sets that are iterated
  are lists in insertion order.
\<close>

section \<open>State and operations\<close>

type_synonym socket = nat

datatype server_message =
    JoinAck string "stroke list"
  | StrokeBroadcast stroke
  | UserJoined string
  | UserLeft string
  | ErrorMessage string "string option" "string option" "bool option"

record board =
  b_boardId :: string
  b_strokes :: "stroke list"
  b_events :: "stroke list"
  b_undone :: "string set"
  b_users :: "(string \<times> socket list) list"

type_synonym board_manager = "(string \<times> board) list"

definition fresh_board :: "string \<Rightarrow> board" where
  "fresh_board bid = \<lparr>b_boardId = bid, b_strokes = [], b_events = [], b_undone = {}, b_users = []\<rparr>"

definition getOrCreateBoard :: "board_manager \<Rightarrow> string \<Rightarrow> board_manager \<times> board" where
  "getOrCreateBoard m bid =
     (case map_of m bid of
        Some board \<Rightarrow> (m, board)
      | None \<Rightarrow> (AList.update bid (fresh_board bid) m, fresh_board bid))"

definition getBoard :: "board_manager \<Rightarrow> string \<Rightarrow> board option" where
  "getBoard m bid = map_of m bid"

text \<open>\<open>set.add(ws)\<close>\<close>
definition add_socket :: "socket \<Rightarrow> socket list \<Rightarrow> socket list" where
  "add_socket ws sockets = (if ws \<in> set sockets then sockets else sockets @ [ws])"

definition joinBoard :: "board_manager \<Rightarrow> string \<Rightarrow> string \<Rightarrow> socket \<Rightarrow> board_manager \<times> stroke list" where
  "joinBoard m bid uid ws =
     (let (m1, board) = getOrCreateBoard m bid;
          sockets = nullish (map_of (b_users board) uid) [];
          board1 = board\<lparr>b_users := AList.update uid (add_socket ws sockets) (b_users board)\<rparr>
      in (AList.update bid board1 m1, b_strokes board1))"

definition hasUser :: "board_manager \<Rightarrow> string \<Rightarrow> string \<Rightarrow> bool" where
  "hasUser m bid uid =
     (case map_of m bid of None \<Rightarrow> False | Some board \<Rightarrow> map_of (b_users board) uid \<noteq> None)"

definition leaveBoard :: "board_manager \<Rightarrow> string \<Rightarrow> string \<Rightarrow> socket \<Rightarrow> board_manager \<times> bool" where
  "leaveBoard m bid uid ws =
     (case map_of m bid of
        None \<Rightarrow> (m, False)
      | Some board \<Rightarrow>
          (case map_of (b_users board) uid of
             None \<Rightarrow> (m, False)
           | Some sockets \<Rightarrow>
               let sockets1 = removeAll ws sockets in
               if length sockets1 = 0
               then (AList.update bid (board\<lparr>b_users := AList.delete uid (b_users board)\<rparr>) m, True)
               else (AList.update bid (board\<lparr>b_users := AList.update uid sockets1 (b_users board)\<rparr>) m, False)))"

text \<open>What \<open>addStroke\<close> does to the board object it has looked up.\<close>
definition board_add :: "board \<Rightarrow> stroke \<Rightarrow> board" where
  "board_add board stroke =
     (let act = action_of stroke;
          target = the (targetStrokeId stroke);
          board1 = board\<lparr>b_events := b_events board @ [stroke]\<rparr>
      in if act = ActUndo \<and> js_truthy (targetStrokeId stroke) then
           board1\<lparr>b_undone := insert target (b_undone board1),
                  b_strokes := filter (\<lambda>entry. strokeId entry \<noteq> target) (b_strokes board1)\<rparr>
         else if act = ActRedo \<and> js_truthy (targetStrokeId stroke) then
           let board2 = board1\<lparr>b_undone := b_undone board1 - {target}\<rparr>;
               alreadyVisible = list_ex (\<lambda>entry. strokeId entry = target) (b_strokes board2)
           in if alreadyVisible then board2
              else (case List.find (\<lambda>event. action_of event = ActStroke \<and> strokeId event = target) (b_events board2) of
                      Some tgt \<Rightarrow> board2\<lparr>b_strokes := b_strokes board2 @ [tgt]\<rparr>
                    | None \<Rightarrow> board2)
         else if strokeId stroke \<notin> b_undone board1 then board1\<lparr>b_strokes := b_strokes board1 @ [stroke]\<rparr>
         else board1)"

definition addStroke :: "board_manager \<Rightarrow> string \<Rightarrow> stroke \<Rightarrow> board_manager" where
  "addStroke m bid stroke =
     (let (m1, board) = getOrCreateBoard m bid in AList.update bid (board_add board stroke) m1)"

definition bm_getStrokes :: "board_manager \<Rightarrow> string \<Rightarrow> stroke list" where
  "bm_getStrokes m bid = nullish (map_option b_strokes (map_of m bid)) []"

definition broadcast ::
    "board_manager \<Rightarrow> (socket \<Rightarrow> bool) \<Rightarrow> string \<Rightarrow> server_message \<Rightarrow> socket option \<Rightarrow> (socket \<times> server_message) list" where
  "broadcast m is_open bid message excludeWs =
     (case map_of m bid of
        None \<Rightarrow> []
      | Some board \<Rightarrow>
          map (\<lambda>ws. (ws, message))
            (filter (\<lambda>ws. Some ws \<noteq> excludeWs \<and> is_open ws) (concat (map snd (b_users board)))))"

definition sendTo :: "(socket \<Rightarrow> bool) \<Rightarrow> socket \<Rightarrow> server_message \<Rightarrow> (socket \<times> server_message) list" where
  "sendTo is_open ws message = (if is_open ws then [(ws, message)] else [])"

lemma sendTo_messages: "(w, m) \<in> set (sendTo is_open ws msg) \<Longrightarrow> w = ws \<and> m = msg"
  by (auto simp: sendTo_def split: if_splits)

lemma broadcast_messages: "(w, m) \<in> set (broadcast b is_open bid msg ex) \<Longrightarrow> m = msg"
  by (auto simp: broadcast_def split: option.splits)

definition getBoardCount :: "board_manager \<Rightarrow> nat" where
  "getBoardCount m = length m"

definition getUserCount :: "board_manager \<Rightarrow> string \<Rightarrow> nat" where
  "getUserCount m bid = nullish (map_option (length \<circ> b_users) (map_of m bid)) 0"

section \<open>The local client\<close>

definition local_submitStroke :: "board_manager \<Rightarrow> stroke \<Rightarrow> board_manager \<times> bool" where
  "local_submitStroke m stroke = (addStroke m (boardId stroke) stroke, True)"

definition local_getStrokes :: "board_manager \<Rightarrow> string \<Rightarrow> stroke list" where
  "local_getStrokes m bid = bm_getStrokes m bid"

section \<open>The rooms implement the board machine\<close>

definition view_of_board :: "board \<Rightarrow> board_view" where
  "view_of_board bd = \<lparr>bv_events = b_events bd, bv_undone = b_undone bd, bv_visible = b_strokes bd\<rparr>"

definition manager_view :: "board_manager \<Rightarrow> string \<Rightarrow> board_view" where
  "manager_view m bid = (case map_of m bid of None \<Rightarrow> empty_view | Some bd \<Rightarrow> view_of_board bd)"

lemma view_of_fresh [simp]: "view_of_board (fresh_board b) = empty_view"
  by (simp add: view_of_board_def fresh_board_def empty_view_def)

lemma view_of_board_add: "view_of_board (board_add bd e) = view_step (view_of_board bd) e"
proof -
  have dr: "(\<lambda>e. action_of e = ActStroke \<and> strokeId e = t) = draws t" for t
    by (simp add: fun_eq_iff draws_def)
  show ?thesis
    by (simp add: board_add_def view_of_board_def view_step_def Let_def request_of_cases_unfold dr
        list_ex_iff split: option.split)
qed

lemma map_of_addStroke:
  "map_of (addStroke m bid e) =
     (map_of m)(bid \<mapsto> board_add (case map_of m bid of None \<Rightarrow> fresh_board bid | Some bd \<Rightarrow> bd) e)"
  by (simp add: addStroke_def getOrCreateBoard_def update_conv' split: option.split)

lemma manager_view_addStroke:
  "manager_view (addStroke m (boardId e) e) b =
     (if b = boardId e then view_step (manager_view m b) e else manager_view m b)"
  by (simp add: manager_view_def map_of_addStroke view_of_board_add split: option.split)

interpretation gateway_boards: board_machine "\<lambda>m e. addStroke m (boardId e) e" manager_view "\<lambda>m. True"
  by unfold_locales (simp_all add: manager_view_addStroke)

lemma bm_getStrokes_view: "bm_getStrokes m bid = bv_visible (manager_view m bid)"
  by (simp add: bm_getStrokes_def manager_view_def view_of_board_def empty_view_def split: option.split)

section \<open>Who is in which room\<close>

text \<open>
  A service that tracks who is where: joining adds one membership, leaving takes one away. What
  a history of joins and leaves comes to is proved once for every implementation.
\<close>
locale membership =
  fixes members :: "'s \<Rightarrow> 'm set"
    and join :: "'s \<Rightarrow> 'm \<Rightarrow> 's"
    and leave :: "'s \<Rightarrow> 'm \<Rightarrow> 's"
  assumes members_join: "members (join s x) = insert x (members s)"
    and members_leave: "members (leave s x) = members s - {x}"
begin

text \<open>\<open>True\<close> joins, \<open>False\<close> leaves.\<close>
primrec visit :: "'s \<Rightarrow> bool \<times> 'm \<Rightarrow> 's" where
  "visit s (b, x) = (if b then join s x else leave s x)"

lemma members_visit: "members (visit s (b, x)) = (if b then insert x (members s) else members s - {x})"
  by (simp add: members_join members_leave)

lemma last_visit_decides:
  "x \<in> members (foldl visit s hist) \<longleftrightarrow>
     (case rev (filter (\<lambda>h. snd h = x) hist) of [] \<Rightarrow> x \<in> members s | h # _ \<Rightarrow> fst h)"
proof (induction hist rule: rev_induct)
  case (snoc h hist)
  obtain b y where h: "h = (b, y)" by (cases h)
  show ?case
    unfolding foldl_append foldl.simps h members_visit
    using snoc.IH by (auto split: list.splits)
qed simp

end

definition in_room :: "board_manager \<Rightarrow> string \<Rightarrow> string \<Rightarrow> socket \<Rightarrow> bool" where
  "in_room m bid uid ws \<longleftrightarrow>
     (\<exists>bd sockets. map_of m bid = Some bd \<and> map_of (b_users bd) uid = Some sockets \<and> ws \<in> set sockets)"

definition room_members :: "board_manager \<Rightarrow> (string \<times> string \<times> socket) set" where
  "room_members m = {(bid, uid, ws). in_room m bid uid ws}"

text \<open>Every board is kept under its own name, every user on it once and with sockets, each once.\<close>
definition users_ok :: "(string \<times> socket list) list \<Rightarrow> bool" where
  "users_ok us \<longleftrightarrow> distinct (map fst us) \<and> (\<forall>(uid, sockets)\<in>set us. sockets \<noteq> [] \<and> distinct sockets)"

definition rooms_ok :: "board_manager \<Rightarrow> bool" where
  "rooms_ok m \<longleftrightarrow> distinct (map fst m) \<and> (\<forall>(bid, bd)\<in>set m. b_boardId bd = bid \<and> users_ok (b_users bd))"

lemma users_ok_update: "users_ok us \<Longrightarrow> s \<noteq> [] \<Longrightarrow> distinct s \<Longrightarrow> users_ok (AList.update u s us)"
  using set_update_subset[of u s us] by (auto simp: users_ok_def distinct_update)

lemma users_ok_delete: "users_ok us \<Longrightarrow> users_ok (AList.delete u us)"
  using set_delete_subset[of u us] by (auto simp: users_ok_def distinct_delete)

lemma rooms_ok_update:
  "rooms_ok m \<Longrightarrow> b_boardId bd = bid \<Longrightarrow> users_ok (b_users bd) \<Longrightarrow> rooms_ok (AList.update bid bd m)"
  using set_update_subset[of bid bd m] by (auto simp: rooms_ok_def distinct_update)

lemma rooms_okD: "rooms_ok m \<Longrightarrow> map_of m bid = Some bd \<Longrightarrow> b_boardId bd = bid \<and> users_ok (b_users bd)"
  by (auto simp: rooms_ok_def dest!: map_of_SomeD)

lemma users_okD: "users_ok us \<Longrightarrow> map_of us uid = Some s \<Longrightarrow> s \<noteq> [] \<and> distinct s"
  by (auto simp: users_ok_def dest!: map_of_SomeD)

lemma rooms_ok_Nil [simp]: "rooms_ok []"
  by (simp add: rooms_ok_def)

lemma fresh_board_ok [simp]: "b_boardId (fresh_board bid) = bid" "b_users (fresh_board bid) = []" "users_ok []"
  by (simp_all add: fresh_board_def users_ok_def)

lemma getOrCreate_ok:
  assumes "rooms_ok m" and "getOrCreateBoard m bid = (m1, bd)"
  shows "rooms_ok m1 \<and> b_boardId bd = bid \<and> users_ok (b_users bd)"
  using assms rooms_ok_update[OF assms(1), of "fresh_board bid" bid]
  by (auto simp: getOrCreateBoard_def dest: rooms_okD split: option.splits)

lemma getOrCreate_map:
  assumes "getOrCreateBoard m bid = (m1, bd)"
  shows "map_of m1 = (map_of m)(bid \<mapsto> bd)"
    and "bd = (case map_of m bid of None \<Rightarrow> fresh_board bid | Some b \<Rightarrow> b)"
  using assms by (auto simp: getOrCreateBoard_def update_conv' fun_eq_iff split: option.splits)

lemma add_socket_ok [simp]: "add_socket ws s \<noteq> []" "distinct s \<Longrightarrow> distinct (add_socket ws s)"
    "set (add_socket ws s) = insert ws (set s)"
  by (auto simp: add_socket_def)

lemma joinBoard_ok: "rooms_ok m \<Longrightarrow> rooms_ok (fst (joinBoard m bid uid ws))"
proof -
  assume ok: "rooms_ok m"
  obtain m1 bd where g: "getOrCreateBoard m bid = (m1, bd)" by (cases "getOrCreateBoard m bid")
  have m1: "rooms_ok m1" "b_boardId bd = bid" and u: "users_ok (b_users bd)"
    using getOrCreate_ok[OF ok g] by blast+
  have "distinct (nullish (map_of (b_users bd) uid) [])"
    using users_okD[OF u, of uid] by (cases "map_of (b_users bd) uid") auto
  with m1 u show ?thesis
    by (simp add: joinBoard_def g Let_def rooms_ok_update users_ok_update)
qed

lemma leaveBoard_ok:
  assumes ok: "rooms_ok m"
  shows "rooms_ok (fst (leaveBoard m bid uid ws))"
proof (cases "map_of m bid")
  case (Some bd)
  note bd = rooms_okD[OF ok Some]
  show ?thesis
  proof (cases "map_of (b_users bd) uid")
    case s: (Some s)
    have "distinct (removeAll ws s)"
      using bd users_okD[of "b_users bd" uid s] s by (simp add: distinct_removeAll)
    with bd show ?thesis
      using Some s ok by (simp add: leaveBoard_def Let_def rooms_ok_update users_ok_update users_ok_delete)
  qed (use Some ok in \<open>simp add: leaveBoard_def\<close>)
qed (use ok in \<open>simp add: leaveBoard_def\<close>)

lemma addStroke_users:
  "b_users (board_add bd e) = b_users bd" "b_boardId (board_add bd e) = b_boardId bd"
  by (simp_all add: board_add_def Let_def split: option.split)

lemma addStroke_ok: "rooms_ok m \<Longrightarrow> rooms_ok (addStroke m bid e)"
proof -
  assume ok: "rooms_ok m"
  obtain m1 bd where g: "getOrCreateBoard m bid = (m1, bd)" by (cases "getOrCreateBoard m bid")
  show ?thesis
    using getOrCreate_ok[OF ok g] by (simp add: addStroke_def g rooms_ok_update addStroke_users)
qed

lemma in_room_joinBoard:
  "in_room (fst (joinBoard m bid uid ws)) b u w \<longleftrightarrow> in_room m b u w \<or> (b = bid \<and> u = uid \<and> w = ws)"
proof -
  obtain m1 bd where g: "getOrCreateBoard m bid = (m1, bd)" by (cases "getOrCreateBoard m bid")
  note m1 = getOrCreate_map[OF g]
  show ?thesis
    unfolding in_room_def joinBoard_def g Let_def prod.case fst_conv update_conv' m1(1)
    by (cases "map_of m bid"; cases "map_of (b_users bd) uid") (auto simp: m1(2) update_conv')
qed

lemma in_room_leaveBoard:
  "in_room (fst (leaveBoard m bid uid ws)) b u w \<longleftrightarrow> in_room m b u w \<and> \<not> (b = bid \<and> u = uid \<and> w = ws)"
  unfolding in_room_def leaveBoard_def Let_def
  by (auto simp: update_conv' delete_conv' removeAll_filter_not_eq filter_empty_conv split: option.split)

lemma in_room_addStroke: "in_room (addStroke m bid e) b u w \<longleftrightarrow> in_room m b u w"
  unfolding in_room_def map_of_addStroke by (auto simp: addStroke_users split: option.split)

interpretation rooms: membership room_members
  "\<lambda>m (bid, uid, ws). fst (joinBoard m bid uid ws)" "\<lambda>m (bid, uid, ws). fst (leaveBoard m bid uid ws)"
  by unfold_locales (auto simp: room_members_def in_room_joinBoard in_room_leaveBoard)

lemma hasUser_in_room:
  assumes "rooms_ok m"
  shows "hasUser m bid uid \<longleftrightarrow> (\<exists>ws. in_room m bid uid ws)"
proof (cases "map_of m bid")
  case (Some bd)
  show ?thesis
  proof (cases "map_of (b_users bd) uid")
    case (Some s)
    then have "s \<noteq> []" using \<open>map_of m bid = Some bd\<close> assms rooms_okD users_okD by blast
    then show ?thesis using Some \<open>map_of m bid = Some bd\<close> by (auto simp: hasUser_def in_room_def ex_in_conv)
  qed (use Some in \<open>simp add: hasUser_def in_room_def\<close>)
qed (simp add: hasUser_def in_room_def)

text \<open>\<open>leaveBoard\<close> says whether this was the user's last socket on the board.\<close>
lemma leaveBoard_last:
  assumes "rooms_ok m"
  shows "snd (leaveBoard m bid uid ws) \<longleftrightarrow> hasUser m bid uid \<and> (\<forall>w. in_room m bid uid w \<longrightarrow> w = ws)"
proof (cases "map_of m bid")
  case (Some bd)
  show ?thesis
  proof (cases "map_of (b_users bd) uid")
    case (Some s)
    show ?thesis
      using Some \<open>map_of m bid = Some bd\<close>
      by (auto simp: leaveBoard_def hasUser_def in_room_def Let_def removeAll_filter_not_eq filter_empty_conv)
  qed (use Some in \<open>simp add: leaveBoard_def hasUser_def\<close>)
qed (simp add: leaveBoard_def hasUser_def)

lemma hasUser_leaveBoard:
  assumes "rooms_ok m" and "hasUser m bid uid"
  shows "hasUser (fst (leaveBoard m bid uid ws)) bid uid \<longleftrightarrow> \<not> snd (leaveBoard m bid uid ws)"
  using assms leaveBoard_ok[OF assms(1)]
  by (auto simp: hasUser_in_room leaveBoard_last in_room_leaveBoard)

text \<open>A broadcast goes to the open sockets in the room, but one.\<close>
lemma broadcast_recipients:
  assumes "rooms_ok m"
  shows "set (broadcast m is_open bid msg ex) =
    {(ws, msg) |ws. (\<exists>uid. in_room m bid uid ws) \<and> is_open ws \<and> Some ws \<noteq> ex}"
proof (cases "map_of m bid")
  case (Some bd)
  then have "distinct (map fst (b_users bd))"
    using rooms_okD[OF assms] by (simp add: users_ok_def)
  then have w: "(\<exists>s. (u, s) \<in> set (b_users bd) \<and> w \<in> set s) \<longleftrightarrow> in_room m bid u w" for u w
    using Some by (auto simp: in_room_def)
  have "set (concat (map snd (b_users bd))) = {w. \<exists>u. in_room m bid u w}"
    unfolding w[symmetric] by force
  then show ?thesis
    using Some by (auto simp: broadcast_def)
qed (simp add: broadcast_def in_room_def)

end
