(* ===== verification/Frontend_Board.thy ===== *)
theory Frontend_Board
  imports Board_Manager
begin

text \<open>
  The board as one browser shows it: the state and callbacks of \<open>frontend/src/hooks/useBoard.ts\<close>.
  Strokes and server messages are those of the gateway: the interfaces of \<open>frontend/src/types.ts\<close>
  are the same. The functional updates of React's state are applied where they are made. A
  callback reads the strokes of the last render, which are the current ones between events. The
  rollbacks kept in a map of closures are a datatype with what the closures captured; the id and
  the time of a new event and whether the socket took a message are arguments.
\<close>

section \<open>State\<close>

datatype rollback =
    RollbackDraw string
  | RollbackUndo string stroke
  | RollbackRedo string

record client =
  cl_boardId :: string
  cl_userId :: string
  cl_strokes :: "stroke list"
  cl_users :: "string list"
  cl_redoStrokeIds :: "string list"
  cl_strokeArchive :: "string \<rightharpoonup> stroke"
  cl_pendingRollback :: "string \<rightharpoonup> rollback"
  cl_pendingTimers :: "string set"

definition new_client :: "string \<Rightarrow> string \<Rightarrow> client" where
  "new_client bid uid =
     \<lparr>cl_boardId = bid, cl_userId = uid, cl_strokes = [], cl_users = [], cl_redoStrokeIds = [],
      cl_strokeArchive = Map.empty, cl_pendingRollback = Map.empty, cl_pendingTimers = {}\<rparr>"

abbreviation displays :: "stroke list \<Rightarrow> string \<Rightarrow> bool" where
  "displays strokes sid \<equiv> list_ex (\<lambda>stroke. strokeId stroke = sid) strokes"

abbreviation hide :: "string \<Rightarrow> stroke list \<Rightarrow> stroke list" where
  "hide sid strokes \<equiv> filter (\<lambda>stroke. strokeId stroke \<noteq> sid) strokes"

section \<open>Events\<close>

text \<open>\<open>setStrokes((prev) => applyStrokeEvent(prev, event))\<close>\<close>
definition applyStrokeEvent :: "client \<Rightarrow> stroke \<Rightarrow> client" where
  "applyStrokeEvent c event =
     (let act = action_of event; target = the (targetStrokeId event); current = cl_strokes c
      in if act = ActUndo \<and> js_truthy (targetStrokeId event) then c\<lparr>cl_strokes := hide target current\<rparr>
         else if act = ActRedo \<and> js_truthy (targetStrokeId event) then
           if displays current target then c
           else (case cl_strokeArchive c target of
                   None \<Rightarrow> c
                 | Some s \<Rightarrow> c\<lparr>cl_strokes := current @ [s]\<rparr>)
         else if displays current (strokeId event) then c
         else c\<lparr>cl_strokeArchive := (cl_strokeArchive c)(strokeId event \<mapsto> event), cl_strokes := current @ [event]\<rparr>)"

definition trackPending :: "client \<Rightarrow> string \<Rightarrow> rollback \<Rightarrow> client" where
  "trackPending c sid rb =
     c\<lparr>cl_pendingRollback := (cl_pendingRollback c)(sid \<mapsto> rb), cl_pendingTimers := insert sid (cl_pendingTimers c)\<rparr>"

text \<open>The timer of a pending write, 20 seconds later.\<close>
definition pending_expires :: "client \<Rightarrow> string \<Rightarrow> client" where
  "pending_expires c sid =
     (if sid \<in> cl_pendingTimers c
      then c\<lparr>cl_pendingRollback := (cl_pendingRollback c)(sid := None), cl_pendingTimers := cl_pendingTimers c - {sid}\<rparr>
      else c)"

definition clearPending :: "client \<Rightarrow> string \<Rightarrow> client" where
  "clearPending c sid =
     c\<lparr>cl_pendingTimers := cl_pendingTimers c - {sid}, cl_pendingRollback := (cl_pendingRollback c)(sid := None)\<rparr>"

text \<open>The closures passed to \<open>submitStrokeMessage\<close>.\<close>
fun run_rollback :: "rollback \<Rightarrow> client \<Rightarrow> client" where
  "run_rollback (RollbackDraw sid) c = c\<lparr>cl_strokes := hide sid (cl_strokes c)\<rparr>"
| "run_rollback (RollbackUndo target s) c =
     c\<lparr>cl_strokes := (if displays (cl_strokes c) target then cl_strokes c else cl_strokes c @ [s]),
       cl_redoStrokeIds := filter (\<lambda>i. i \<noteq> target) (cl_redoStrokeIds c)\<rparr>"
| "run_rollback (RollbackRedo target) c =
     c\<lparr>cl_strokes := hide target (cl_strokes c), cl_redoStrokeIds := cl_redoStrokeIds c @ [target]\<rparr>"

definition runPendingRollback :: "client \<Rightarrow> string \<Rightarrow> client" where
  "runPendingRollback c sid =
     (case cl_pendingRollback c sid of
        Some rb \<Rightarrow> run_rollback rb (clearPending c sid)
      | None \<Rightarrow> (clearPending c sid)\<lparr>cl_strokes := hide sid (cl_strokes c)\<rparr>)"

text \<open>\<open>new Map(strokes.map((stroke) => [stroke.id, stroke]))\<close>: the last stroke of an id stays.\<close>
definition archive_of :: "stroke list \<Rightarrow> string \<rightharpoonup> stroke" where
  "archive_of strokes = foldl (\<lambda>m s. m(strokeId s \<mapsto> s)) Map.empty strokes"

definition client_message :: "client \<Rightarrow> server_message \<Rightarrow> client" where
  "client_message c message =
     (case message of
        JoinAck bid strokes \<Rightarrow>
          c\<lparr>cl_strokeArchive := archive_of (filter (\<lambda>s. action_of s = ActStroke) strokes),
            cl_strokes := strokes, cl_redoStrokeIds := []\<rparr>
      | StrokeBroadcast s \<Rightarrow> applyStrokeEvent c s
      | UserJoined uid \<Rightarrow> c\<lparr>cl_users := (if uid \<in> set (cl_users c) then cl_users c else cl_users c @ [uid])\<rparr>
      | UserLeft uid \<Rightarrow> c\<lparr>cl_users := filter (\<lambda>i. i \<noteq> uid) (cl_users c)\<rparr>
      | ErrorMessage text code sid retryable \<Rightarrow>
          if code = Some ''RAFT_WRITE_FAILED'' \<and> js_truthy sid then runPendingRollback c (the sid) else c)"

section \<open>The user's own strokes\<close>

definition submitStrokeMessage :: "client \<Rightarrow> stroke \<Rightarrow> rollback \<Rightarrow> bool \<Rightarrow> client" where
  "submitStrokeMessage c stroke rb sent =
     (let c1 = trackPending c (strokeId stroke) rb
      in if \<not> sent then runPendingRollback c1 (strokeId stroke) else c1)"

definition ownVisibleStrokeIds :: "client \<Rightarrow> string list" where
  "ownVisibleStrokeIds c =
     map strokeId (filter (\<lambda>s. userId s = cl_userId c \<and> action_of s = ActStroke) (cl_strokes c))"

definition canUndo :: "client \<Rightarrow> bool" where
  "canUndo c \<longleftrightarrow> length (ownVisibleStrokeIds c) > 0"

definition canRedo :: "client \<Rightarrow> bool" where
  "canRedo c \<longleftrightarrow> length (cl_redoStrokeIds c) > 0"

definition client_addStroke :: "client \<Rightarrow> stroke \<Rightarrow> bool \<Rightarrow> client" where
  "client_addStroke c stroke sent =
     (let c1 = c\<lparr>cl_strokeArchive := (cl_strokeArchive c)(strokeId stroke \<mapsto> stroke)\<rparr>;
          c2 = (applyStrokeEvent c1 stroke)\<lparr>cl_redoStrokeIds := []\<rparr>
      in submitStrokeMessage c2 stroke (RollbackDraw (strokeId stroke)) sent)"

text \<open>The event of an undo or redo.\<close>
definition pointer_event :: "client \<Rightarrow> string \<Rightarrow> number \<Rightarrow> action \<Rightarrow> string \<Rightarrow> stroke" where
  "pointer_event c newId now act target =
     \<lparr>strokeId = newId, boardId = cl_boardId c, userId = cl_userId c, color = ''#000000'', width = json_width (whole 0),
      points = json_points [], timestamp = now, action = Some act, targetStrokeId = Some target\<rparr>"

text \<open>\<open>xs[xs.length - 1]\<close>\<close>
definition js_last :: "'a list \<Rightarrow> 'a option" where
  "js_last xs = (if xs = [] then None else Some (last xs))"

definition undoLastStroke :: "client \<Rightarrow> string \<Rightarrow> number \<Rightarrow> bool \<Rightarrow> client" where
  "undoLastStroke c newId now sent =
     (let targetId = js_last (ownVisibleStrokeIds c); target = the targetId
      in if \<not> js_truthy targetId then c
         else (case cl_strokeArchive c target of
                 None \<Rightarrow> c
               | Some targetStroke \<Rightarrow>
                   let undoEvent = pointer_event c newId now ActUndo target;
                       c1 = applyStrokeEvent c undoEvent;
                       c2 = c1\<lparr>cl_redoStrokeIds := cl_redoStrokeIds c1 @ [target]\<rparr>
                   in submitStrokeMessage c2 undoEvent (RollbackUndo target targetStroke) sent))"

definition redoLastStroke :: "client \<Rightarrow> string \<Rightarrow> number \<Rightarrow> bool \<Rightarrow> client" where
  "redoLastStroke c newId now sent =
     (let targetId = js_last (cl_redoStrokeIds c); target = the targetId
      in if \<not> js_truthy targetId then c
         else (case cl_strokeArchive c target of
                 None \<Rightarrow> c
               | Some targetStroke \<Rightarrow>
                   let redoEvent = pointer_event c newId now ActRedo target;
                       c1 = applyStrokeEvent c redoEvent;
                       c2 = c1\<lparr>cl_redoStrokeIds := butlast (cl_redoStrokeIds c1)\<rparr>
                   in submitStrokeMessage c2 redoEvent (RollbackRedo target) sent))"

section \<open>A client follows the board\<close>

lemma displays_iff: "displays strokes sid \<longleftrightarrow> (\<exists>s\<in>set strokes. strokeId s = sid)"
  by (simp add: list_ex_iff)

text \<open>Draw events are strokes with ids that no event used and no undo named before.\<close>
fun fresh_draws :: "board_view \<Rightarrow> stroke list \<Rightarrow> bool" where
  "fresh_draws v [] \<longleftrightarrow> True"
| "fresh_draws v (e # es) \<longleftrightarrow>
     (request_of e = Draw \<longrightarrow>
        action_of e = ActStroke \<and> strokeId e \<notin> strokeId ` set (bv_events v) \<and> strokeId e \<notin> bv_undone v) \<and>
     fresh_draws (view_step v e) es"

text \<open>Redo events name strokes that the client knows: shown when it joined, or drawn since.\<close>
fun redos_known :: "string set \<Rightarrow> stroke list \<Rightarrow> bool" where
  "redos_known known [] \<longleftrightarrow> True"
| "redos_known known (e # es) \<longleftrightarrow>
     (case request_of e of
        Draw \<Rightarrow> redos_known (insert (strokeId e) known) es
      | Undo t \<Rightarrow> redos_known known es
      | Redo t \<Rightarrow> t \<in> known \<and> redos_known known es)"

text \<open>Every visible stroke is the drawing of its id.\<close>
definition visible_drawn :: "board_view \<Rightarrow> bool" where
  "visible_drawn v \<longleftrightarrow>
     (\<forall>s\<in>set (bv_visible v). List.find (draws (strokeId s)) (bv_events v) = Some s)"

lemma find_draws_append:
  "List.find (draws t) evs = Some s \<Longrightarrow> List.find (draws t) (evs @ es) = Some s"
  by (simp add: find_append)

lemma find_draws_fresh:
  assumes "strokeId e \<notin> strokeId ` set evs" and "action_of e = ActStroke"
  shows "List.find (draws (strokeId e)) (evs @ [e]) = Some e"
proof -
  have "List.find (draws (strokeId e)) evs = None"
    using assms(1) by (simp add: find_None_iff draws_def) (metis image_eqI)
  with assms(2) show ?thesis by (simp add: find_append draws_def)
qed

lemma visible_drawn_step:
  assumes v: "visible_drawn v" and f: "fresh_draws v (e # es)"
  shows "visible_drawn (view_step v e)"
proof (cases "request_of e")
  case Draw
  then have "List.find (draws (strokeId e)) (bv_events v @ [e]) = Some e"
    using f by (auto intro: find_draws_fresh)
  with Draw v show ?thesis
    by (auto simp: visible_drawn_def view_step_def Let_def intro: find_draws_append)
next
  case (Undo t)
  with v show ?thesis
    by (auto simp: visible_drawn_def view_step_def Let_def intro: find_draws_append)
next
  case (Redo t)
  with v show ?thesis
    by (auto simp: visible_drawn_def view_step_def Let_def intro: find_draws_append dest: find_draws_id split: option.splits)
qed

lemma visible_drawn_foldl: "visible_drawn v \<Longrightarrow> fresh_draws v es \<Longrightarrow> visible_drawn (foldl view_step v es)"
proof (induction es arbitrary: v)
  case (Cons e es)
  from Cons.IH[OF visible_drawn_step[OF Cons.prems]] Cons.prems show ?case by simp
qed simp

lemma fresh_draws_append: "fresh_draws v (es @ fs) \<longleftrightarrow> fresh_draws v es \<and> fresh_draws (foldl view_step v es) fs"
  by (induction es arbitrary: v) auto

text \<open>The client shows what the board shows and has the drawings of the known strokes.\<close>
definition follows_board :: "client \<Rightarrow> board_view \<Rightarrow> string set \<Rightarrow> bool" where
  "follows_board c v known \<longleftrightarrow>
     cl_strokes c = bv_visible v \<and>
     (\<forall>t\<in>known. \<exists>s. cl_strokeArchive c t = Some s \<and> List.find (draws t) (bv_events v) = Some s)"

lemma applyStrokeEvent_request:
  "applyStrokeEvent c e =
     (case request_of e of
        Undo t \<Rightarrow> c\<lparr>cl_strokes := hide t (cl_strokes c)\<rparr>
      | Redo t \<Rightarrow>
          (if displays (cl_strokes c) t then c
           else case cl_strokeArchive c t of None \<Rightarrow> c | Some s \<Rightarrow> c\<lparr>cl_strokes := cl_strokes c @ [s]\<rparr>)
      | Draw \<Rightarrow>
          (if displays (cl_strokes c) (strokeId e) then c
           else c\<lparr>cl_strokeArchive := (cl_strokeArchive c)(strokeId e \<mapsto> e), cl_strokes := cl_strokes c @ [e]\<rparr>))"
  by (simp add: applyStrokeEvent_def request_of_cases_unfold Let_def)

lemma follows_board_step:
  assumes f: "follows_board c v known" and ok: "view_ok v"
    and fresh: "fresh_draws v (e # es)" and redo: "redos_known known (e # es)"
  shows "follows_board (applyStrokeEvent c e) (view_step v e)
    (if request_of e = Draw then insert (strokeId e) known else known)"
proof -
  have vis: "cl_strokes c = bv_visible v"
    and old: "\<forall>t\<in>known. \<exists>s. cl_strokeArchive c t = Some s \<and> List.find (draws t) (bv_events v @ [e]) = Some s"
    using f find_draws_append by (fastforce simp: follows_board_def)+
  show ?thesis
  proof (cases "request_of e")
    case Draw
    have new: "strokeId e \<notin> strokeId ` set (bv_events v)" "strokeId e \<notin> bv_undone v" "action_of e = ActStroke"
      using Draw fresh by auto
    then have "\<not> displays (cl_strokes c) (strokeId e)"
      using f ok unfolding displays_iff follows_board_def view_ok_def by (metis image_eqI subsetD)
    with Draw vis old new find_draws_fresh[OF new(1,3)] show ?thesis
      by (simp add: applyStrokeEvent_request follows_board_def view_step_def Let_def)
  next
    case (Undo t)
    with vis old show ?thesis
      by (simp add: applyStrokeEvent_request follows_board_def view_step_def Let_def)
  next
    case (Redo t)
    then obtain s where "cl_strokeArchive c t = Some s" "List.find (draws t) (bv_events v @ [e]) = Some s"
      using redo old by auto
    with Redo vis old show ?thesis
      by (simp add: applyStrokeEvent_request follows_board_def view_step_def Let_def displays_iff)
  qed
qed

lemma follows_board_foldl:
  assumes "follows_board c v known" and "view_ok v" and "fresh_draws v es" and "redos_known known es"
  shows "cl_strokes (foldl applyStrokeEvent c es) = bv_visible (foldl view_step v es)"
  using assms
proof (induction es arbitrary: c v known)
  case Nil
  then show ?case by (simp add: follows_board_def)
next
  case (Cons e es)
  have "redos_known (if request_of e = Draw then insert (strokeId e) known else known) es"
    using Cons.prems(4) by (simp split: request.splits)
  with Cons.IH[OF follows_board_step[OF Cons.prems] view_ok_step[OF Cons.prems(2)]] Cons.prems(3)
  show ?case by simp
qed

lemma archive_of_mem:
  assumes "\<And>s s'. s \<in> set strokes \<Longrightarrow> s' \<in> set strokes \<Longrightarrow> strokeId s = strokeId s' \<Longrightarrow> s = s'" and "s \<in> set strokes"
  shows "archive_of strokes (strokeId s) = Some s"
  using assms
proof (induction strokes rule: rev_induct)
  case (snoc x xs)
  show ?case
  proof (cases "s \<in> set xs")
    case True
    have "archive_of xs (strokeId s) = Some s"
      by (rule snoc.IH) (use snoc.prems True in auto)
    with snoc.prems True show ?thesis by (auto simp: archive_of_def)
  next
    case False
    with snoc.prems show ?thesis by (simp add: archive_of_def)
  qed
qed simp

lemma join_follows:
  assumes "visible_drawn v"
  shows "follows_board (client_message c (JoinAck bid (bv_visible v))) v (strokeId ` set (bv_visible v))"
proof -
  let ?vis = "bv_visible v"
  have drawn: "List.find (draws (strokeId s)) (bv_events v) = Some s" if "s \<in> set ?vis" for s
    using assms that by (simp add: visible_drawn_def)
  then have act: "action_of s = ActStroke" if "s \<in> set ?vis" for s
    using that find_SomeD[of "draws (strokeId s)" "bv_events v" s] by (simp add: draws_def)
  then have "filter (\<lambda>s. action_of s = ActStroke) ?vis = ?vis" by (simp add: filter_id_conv)
  moreover have "archive_of ?vis (strokeId s) = Some s" if "s \<in> set ?vis" for s
    using that drawn by (intro archive_of_mem) (metis option.inject)+
  ultimately show ?thesis
    using drawn by (auto simp: client_message_def follows_board_def)
qed

lemma client_message_broadcasts:
  "foldl client_message c (map StrokeBroadcast es) = foldl applyStrokeEvent c es"
  by (induction es arbitrary: c) (simp_all add: client_message_def)

section \<open>Rolling back\<close>

text \<open>A stroke is filed in the archive under its id.\<close>
definition keyed_archive :: "(string \<rightharpoonup> stroke) \<Rightarrow> bool" where
  "keyed_archive m \<longleftrightarrow> (\<forall>t s. m t = Some s \<longrightarrow> strokeId s = t)"

lemma keyed_archive_update [simp]: "keyed_archive m \<Longrightarrow> keyed_archive (m(strokeId e \<mapsto> e))"
  by (simp add: keyed_archive_def)

lemma keyed_archiveD: "keyed_archive m \<Longrightarrow> m t = Some s \<Longrightarrow> strokeId s = t"
  by (simp add: keyed_archive_def)

text \<open>Two clients that differ by one stroke at most: \<open>c\<close> may show the stroke \<open>sid\<close>, \<open>c'\<close> does not.\<close>
definition same_but :: "string \<Rightarrow> client \<Rightarrow> client \<Rightarrow> bool" where
  "same_but sid c c' \<longleftrightarrow>
     hide sid (cl_strokes c) = cl_strokes c' \<and> keyed_archive (cl_strokeArchive c) \<and>
     (\<forall>t. t \<noteq> sid \<longrightarrow> cl_strokeArchive c t = cl_strokeArchive c' t)"

definition mentions :: "string \<Rightarrow> stroke \<Rightarrow> bool" where
  "mentions sid e \<longleftrightarrow> strokeId e = sid \<or> targetStrokeId e = Some sid"

lemma displays_hide: "t \<noteq> sid \<Longrightarrow> displays (hide sid xs) t \<longleftrightarrow> displays xs t"
  by (auto simp: displays_iff)

lemma hide_commute: "hide sid (hide t xs) = hide t (hide sid xs)"
  by (simp add: conj_commute)

lemma same_but_step:
  assumes s: "same_but sid c c'" and "\<not> mentions sid e"
  shows "same_but sid (applyStrokeEvent c e) (applyStrokeEvent c' e)"
proof -
  have e: "strokeId e \<noteq> sid" "request_of e \<noteq> Undo sid" "request_of e \<noteq> Redo sid"
    using assms(2) by (auto simp: mentions_def request_of_Undo request_of_Redo)
  have hs: "hide sid (cl_strokes c) = cl_strokes c'" using s by (simp add: same_but_def)
  have sh: "displays (cl_strokes c') t \<longleftrightarrow> displays (cl_strokes c) t" if "t \<noteq> sid" for t
    unfolding hs[symmetric] using that by (rule displays_hide)
  show ?thesis
  proof (cases "request_of e")
    case Draw
    then have "applyStrokeEvent x e = (if displays (cl_strokes x) (strokeId e) then x
        else x\<lparr>cl_strokeArchive := (cl_strokeArchive x)(strokeId e \<mapsto> e), cl_strokes := cl_strokes x @ [e]\<rparr>)" for x
      by (simp add: applyStrokeEvent_request)
    with s e(1) sh[OF e(1)] show ?thesis
      by (cases "displays (cl_strokes c) (strokeId e)") (simp_all add: same_but_def)
  next
    case (Undo t)
    have "hide sid (hide t (cl_strokes c)) = hide t (cl_strokes c')"
      unfolding hs[symmetric] by (rule hide_commute)
    with s Undo show ?thesis
      by (simp add: applyStrokeEvent_request same_but_def)
  next
    case (Redo t)
    then have t: "t \<noteq> sid" using e by auto
    from Redo have ev: "applyStrokeEvent x e = (if displays (cl_strokes x) t then x
        else case cl_strokeArchive x t of None \<Rightarrow> x | Some s \<Rightarrow> x\<lparr>cl_strokes := cl_strokes x @ [s]\<rparr>)" for x
      by (simp add: applyStrokeEvent_request)
    from s t have a: "cl_strokeArchive c' t = cl_strokeArchive c t" and k: "keyed_archive (cl_strokeArchive c)"
      by (simp_all add: same_but_def)
    show ?thesis
    proof (cases "displays (cl_strokes c) t \<or> cl_strokeArchive c t = None")
      case True
      with s sh[OF t] a show ?thesis by (auto simp: ev)
    next
      case False
      then obtain x where x: "cl_strokeArchive c t = Some x" "strokeId x = t" using keyed_archiveD[OF k] by blast
      with s t sh[OF t] a False show ?thesis by (simp add: ev same_but_def)
    qed
  qed
qed

lemma same_but_foldl:
  "same_but sid c c' \<Longrightarrow> \<forall>e\<in>set es. \<not> mentions sid e \<Longrightarrow>
     same_but sid (foldl applyStrokeEvent c es) (foldl applyStrokeEvent c' es)"
  by (induction es arbitrary: c c') (simp_all add: same_but_step)

lemma pending_broadcasts [simp]: "cl_pendingRollback (foldl applyStrokeEvent c es) = cl_pendingRollback c"
proof (induction es arbitrary: c)
  case (Cons e es)
  have "cl_pendingRollback (applyStrokeEvent c e) = cl_pendingRollback c"
    by (simp add: applyStrokeEvent_request split: request.split option.split)
  with Cons show ?case by simp
qed simp

lemma client_addStroke_sent:
  assumes "\<not> displays (cl_strokes c) (strokeId s)" and "request_of s = Draw" and "keyed_archive (cl_strokeArchive c)"
  shows "same_but (strokeId s) (client_addStroke c s True) c"
    and "cl_pendingRollback (client_addStroke c s True) (strokeId s) = Some (RollbackDraw (strokeId s))"
proof -
  have "hide (strokeId s) (cl_strokes c) = cl_strokes c"
    using assms(1) by (auto simp: displays_iff filter_id_conv)
  with assms show "same_but (strokeId s) (client_addStroke c s True) c"
    by (auto simp: client_addStroke_def submitStrokeMessage_def trackPending_def applyStrokeEvent_request
        same_but_def Let_def)
  show "cl_pendingRollback (client_addStroke c s True) (strokeId s) = Some (RollbackDraw (strokeId s))"
    by (simp add: client_addStroke_def submitStrokeMessage_def trackPending_def Let_def)
qed

lemma rollback_draw_strokes:
  assumes "cl_pendingRollback c sid = Some (RollbackDraw sid)"
  shows "cl_strokes (runPendingRollback c sid) = hide sid (cl_strokes c)"
  using assms by (simp add: runPendingRollback_def clearPending_def)

end
