(* ===== verification/Frontend_Drawing.thy ===== *)
theory Frontend_Drawing
  imports Security Frontend_Board
begin

text \<open>
  Drawing with the pointer, \<open>frontend/src/hooks/useDrawing.ts\<close>, with the constants of
  \<open>frontend/src/constants.ts\<close> and the helpers of \<open>frontend/src/utils/strokeUtils.ts\<close>. A point is
  given in canvas coordinates, the integers that \<open>getCanvasPoint\<close> rounds to; capturing the
  pointer is left out, and of the drawing on the canvas only which segment is drawn is kept.
\<close>

section \<open>Constants and helpers\<close>

definition COLORS :: "string list" where
  "COLORS = [''#E74C3C'', ''#3498DB'', ''#2ECC71'', ''#F39C12'', ''#9B59B6'']"

definition DEFAULT_COLOR :: string where "DEFAULT_COLOR = hd COLORS"

definition BRUSH_WIDTH :: int where "BRUSH_WIDTH = 3"

definition createStroke ::
    "string \<Rightarrow> string \<Rightarrow> string \<Rightarrow> int \<Rightarrow> (int \<times> int) list \<Rightarrow> string \<Rightarrow> int \<Rightarrow> stroke" where
  "createStroke bid uid col w pts newId now =
     \<lparr>strokeId = newId, boardId = bid, userId = uid, color = col, width = json_width (whole w),
      points = json_points (map (\<lambda>(x, y). (whole x, whole y)) pts), timestamp = whole now, action = None, targetStrokeId = None\<rparr>"

definition serializeStroke :: "stroke \<Rightarrow> json" where
  "serializeStroke stroke = JObj [(''type'', JStr ''stroke''), (''stroke'', json_of_stroke stroke)]"

text \<open>\<open>Math.random()\<close> is a numerator over $2^{53}$; the six draws of a code are the list.\<close>
definition board_code_chars :: string where
  "board_code_chars = ''abcdefghijklmnopqrstuvwxyz0123456789''"

definition generateBoardCode :: "nat list \<Rightarrow> string" where
  "generateBoardCode rnds =
     foldl (\<lambda>code r. code @ [board_code_chars ! ((r mod 2 ^ 53) * length board_code_chars div 2 ^ 53)]) [] (take 6 rnds)"

text \<open>The user id in the session storage, made when there is none: the storage and the id.\<close>
definition getUserId :: "string option \<Rightarrow> string \<Rightarrow> string option \<times> string" where
  "getUserId stored newId = (if js_truthy stored then (stored, the stored) else (Some newId, newId))"

section \<open>The pointer\<close>

record drawing =
  dr_isDrawing :: bool
  dr_points :: "(int \<times> int) list"

definition new_drawing :: drawing where
  "new_drawing = \<lparr>dr_isDrawing = False, dr_points = []\<rparr>"

definition handlePointerDown :: "drawing \<Rightarrow> int \<times> int \<Rightarrow> drawing" where
  "handlePointerDown d point = d\<lparr>dr_isDrawing := True, dr_points := [point]\<rparr>"

text \<open>The new state and the segment drawn at once.\<close>
definition handlePointerMove :: "drawing \<Rightarrow> int \<times> int \<Rightarrow> drawing \<times> ((int \<times> int) \<times> (int \<times> int)) option" where
  "handlePointerMove d point =
     (if \<not> dr_isDrawing d then (d, None)
      else
        let pts = dr_points d @ [point]
        in (d\<lparr>dr_points := pts\<rparr>,
            if 2 \<le> length pts then Some (pts ! (length pts - 2), pts ! (length pts - 1)) else None))"

text \<open>The new state and the finished stroke, which goes to \<open>onStrokeComplete\<close>.\<close>
definition handlePointerUp ::
    "drawing \<Rightarrow> string \<Rightarrow> string \<Rightarrow> string \<Rightarrow> string \<Rightarrow> int \<Rightarrow> drawing \<times> stroke option" where
  "handlePointerUp d bid uid col newId now =
     (if \<not> dr_isDrawing d then (d, None)
      else (d\<lparr>dr_isDrawing := False, dr_points := []\<rparr>,
            if 2 \<le> length (dr_points d)
            then Some (createStroke bid uid col BRUSH_WIDTH (dr_points d) newId now) else None))"

section \<open>A gesture\<close>

text \<open>Pressing, moving through the points and releasing.\<close>
definition gesture ::
    "int \<times> int \<Rightarrow> (int \<times> int) list \<Rightarrow> string \<Rightarrow> string \<Rightarrow> string \<Rightarrow> string \<Rightarrow> int \<Rightarrow> stroke option" where
  "gesture start moves bid uid col newId now =
     snd (handlePointerUp (foldl (\<lambda>d p. fst (handlePointerMove d p)) (handlePointerDown new_drawing start) moves)
            bid uid col newId now)"

lemma moves_collected:
  assumes "dr_isDrawing d"
  shows "foldl (\<lambda>d p. fst (handlePointerMove d p)) d moves = d\<lparr>dr_points := dr_points d @ moves\<rparr>"
  using assms by (induction moves arbitrary: d) (simp_all add: handlePointerMove_def Let_def)

lemma gesture_stroke:
  "gesture start moves bid uid col newId now =
     (if moves = [] then None else Some (createStroke bid uid col BRUSH_WIDTH (start # moves) newId now))"
  by (auto simp: gesture_def moves_collected handlePointerDown_def handlePointerUp_def Suc_le_eq)

lemma colors_valid: "col \<in> set COLORS \<Longrightarrow> HEX_COLOR col"
  by (auto simp: COLORS_def HEX_COLOR_def is_hex_def is_digit_def)

lemma createStroke_well_formed:
  assumes "pts \<noteq> []" and "col \<in> set COLORS" and "newId \<noteq> []" and "length newId \<le> 200"
  shows "well_formed_stroke (createStroke bid uid col BRUSH_WIDTH pts newId now) \<longleftrightarrow> length pts \<le> maxStrokePoints"
  using assms colors_valid[OF assms(2)]
  by (auto simp: well_formed_stroke_def createStroke_def BRUSH_WIDTH_def json_points_def json_width_def list_all_iff)

lemma gesture_own:
  "gesture start moves bid uid col newId now = Some s \<Longrightarrow> boardId s = bid \<and> userId s = uid \<and> strokeId s = newId"
  by (auto simp: gesture_stroke createStroke_def split: if_splits)

end
