(* ===== verification/Frontend_Canvas.thy ===== *)
theory Frontend_Canvas
  imports Frontend_Drawing
begin

text \<open>
  The picture that a browser shows, \<open>frontend/src/components/Canvas.tsx\<close>: what the effect paints
  when the strokes of \<open>useBoard\<close> change. The canvas is the list of the paths painted since it was last
  cleared, in order; the segments that \<open>useDrawing\<close> paints ahead of a stroke are left out, and so
  is a canvas without context. React runs the effect after an event has changed the strokes. A stroke
  whose points are not an array can make the painting throw; React then takes the whole page down, and
  its canvas is \<open>None\<close> from there on. The lemmas say for which changes the picture stays that of the
  strokes.
\<close>

section \<open>Painting\<close>

text \<open>A path: its \<open>strokeStyle\<close>, its \<open>lineWidth\<close> and its points; caps and joins are always round.\<close>
record painted_path =
  pp_strokeStyle :: string
  pp_lineWidth :: json
  pp_points :: "(json option \<times> json option) list"

text \<open>\<open>stroke.width || BRUSH_WIDTH\<close>\<close>
definition line_width :: "json option \<Rightarrow> json" where
  "line_width w = (if js_falsy w then JNum (whole BRUSH_WIDTH) else the w)"

text \<open>\<open>v[i]\<close> for \<open>i < 10\<close> and a value that is not \<open>null\<close>.\<close>
fun js_elem :: "nat \<Rightarrow> json \<Rightarrow> json option" where
  "js_elem i (JArr vs) = js_at vs i"
| "js_elem i (JStr s) = map_option (\<lambda>c. JStr [c]) (js_at s i)"
| "js_elem i (JObj kvs) = map_of kvs [char_of (48 + i)]"
| "js_elem i _ = None"

text \<open>
  The path that \<open>drawStroke\<close> makes of the points: \<open>None\<close> when it reads an element of \<open>undefined\<close> or
  \<open>null\<close> and throws, no points when it returns early or has no coordinates to go to (the characters of
  a text have none; an object is taken to have no \<open>length\<close> of its own, so that no line is drawn).
\<close>
definition path_points :: "json option \<Rightarrow> (json option \<times> json option) list option" where
  "path_points v =
     (case v of
        Some (JArr es) \<Rightarrow>
          if length es < 2 then Some []
          else if JNull \<in> set es then None
          else Some (map (\<lambda>e. (js_elem 0 e, js_elem 1 e)) es)
      | Some (JStr s) \<Rightarrow> Some []
      | Some (JObj kvs) \<Rightarrow> if js_elem 0 (JObj kvs) \<in> {None, Some JNull} then None else Some []
      | _ \<Rightarrow> None)"

definition drawStroke :: "painted_path list option \<Rightarrow> stroke \<Rightarrow> painted_path list option" where
  "drawStroke ctx stroke =
     (case (ctx, path_points (points stroke)) of
        (Some paths, Some path) \<Rightarrow>
          Some (if path = [] then paths
                else paths @ [\<lparr>pp_strokeStyle = color stroke, pp_lineWidth = line_width (width stroke), pp_points = path\<rparr>])
      | _ \<Rightarrow> None)"

record canvas =
  cv_ctx :: "painted_path list option"
  cv_lastDrawnCount :: nat

definition new_canvas :: canvas where
  "new_canvas = \<lparr>cv_ctx = Some [], cv_lastDrawnCount = 0\<rparr>"

text \<open>
  The effect on a change of the strokes: everything again if there are fewer, else the new ones. There is
  nothing left to paint on once the page has been taken down.
\<close>
definition canvas_effect :: "canvas \<Rightarrow> stroke list \<Rightarrow> canvas" where
  "canvas_effect cv strokes =
     (if cv_ctx cv = None then cv
      else if length strokes < cv_lastDrawnCount cv
      then cv\<lparr>cv_ctx := foldl drawStroke (Some []) strokes, cv_lastDrawnCount := length strokes\<rparr>
      else cv\<lparr>cv_ctx := foldl drawStroke (cv_ctx cv) (drop (cv_lastDrawnCount cv) strokes),
              cv_lastDrawnCount := length strokes\<rparr>)"

section \<open>When the picture is that of the strokes\<close>

abbreviation picture :: "stroke list \<Rightarrow> painted_path list option" where
  "picture strokes \<equiv> foldl drawStroke (Some []) strokes"

text \<open>The page is there and shows the strokes, or it is gone.\<close>
definition in_sync :: "canvas \<Rightarrow> stroke list \<Rightarrow> bool" where
  "in_sync cv strokes \<longleftrightarrow> cv_ctx cv = None \<or> cv_ctx cv = picture strokes \<and> cv_lastDrawnCount cv = length strokes"

text \<open>Strokes that can be painted.\<close>
definition drawable :: "stroke \<Rightarrow> bool" where
  "drawable s \<longleftrightarrow> path_points (points s) \<noteq> None"

lemma drawStroke_None [simp]: "drawStroke None s = None"
  by (simp add: drawStroke_def)

lemma foldl_drawStroke_None [simp]: "foldl drawStroke None ss = None"
  by (induction ss) simp_all

lemma drawStroke_Some: "drawStroke (Some ps) s \<noteq> None \<longleftrightarrow> drawable s"
  by (auto simp: drawStroke_def drawable_def split: option.split)

lemma foldl_drawStroke_Some: "foldl drawStroke (Some ps) ss \<noteq> None \<longleftrightarrow> list_all drawable ss"
proof (induction ss arbitrary: ps)
  case (Cons s ss)
  then show ?case
    using drawStroke_Some[of ps s] by (cases "drawStroke (Some ps) s") auto
qed simp

text \<open>A page that shows strokes that can be painted stays.\<close>
lemma canvas_stays:
  assumes "cv_ctx cv \<noteq> None" and "list_all drawable strokes"
  shows "cv_ctx (canvas_effect cv strokes) \<noteq> None"
proof -
  have "list_all drawable (drop k strokes)" for k
    using assms(2) by (auto simp: list_all_iff dest: in_set_dropD)
  with assms foldl_drawStroke_Some show ?thesis by (auto simp: canvas_effect_def)
qed

lemma path_points_drawn [simp]:
  "path_points (json_points ps) =
     Some (if length ps < 2 then [] else map (\<lambda>(x, y). (Some (JNum x), Some (JNum y))) ps)"
  by (auto simp: path_points_def json_points_def js_at_def)

text \<open>The strokes became fewer, or some were added at the end.\<close>
definition shrinks_or_extends :: "stroke list \<Rightarrow> stroke list \<Rightarrow> bool" where
  "shrinks_or_extends old new \<longleftrightarrow> length new < length old \<or> take (length old) new = old"

lemma in_sync_new: "in_sync new_canvas []"
  by (simp add: in_sync_def new_canvas_def)

lemma canvas_effect_in_sync:
  assumes "in_sync cv old" and "shrinks_or_extends old new"
  shows "in_sync (canvas_effect cv new) new"
proof (cases "cv_ctx cv = None"; cases "length new < length old")
  assume "cv_ctx cv \<noteq> None" "\<not> length new < length old"
  note live = this(1) and False = this(2)
  with assms(2) have "take (length old) new = old" by (simp add: shrinks_or_extends_def)
  then have "new = old @ drop (length old) new" by (metis append_take_drop_id)
  then have "foldl drawStroke (picture old) (drop (length old) new) = picture new"
    by (metis foldl_append)
  with assms(1) live False show ?thesis by (auto simp: in_sync_def canvas_effect_def)
qed (use assms in \<open>auto simp: in_sync_def canvas_effect_def\<close>)

text \<open>A list of the same length is not painted.\<close>
lemma canvas_effect_same_length:
  "in_sync cv old \<Longrightarrow> length new = length old \<Longrightarrow> cv_ctx (canvas_effect cv new) = cv_ctx cv"
  by (auto simp: in_sync_def canvas_effect_def)

lemma shrinks_or_extends_same [simp]: "shrinks_or_extends xs xs"
  by (simp add: shrinks_or_extends_def)

lemma shrinks_or_extends_append [simp]: "shrinks_or_extends xs (xs @ ys)"
  by (simp add: shrinks_or_extends_def)

lemma shrinks_or_extends_Nil [simp]: "shrinks_or_extends [] ys"
  by (simp add: shrinks_or_extends_def)

lemma shrinks_or_extends_filter [simp]: "shrinks_or_extends xs (filter P xs)"
proof (cases "\<forall>x\<in>set xs. P x")
  case True
  then show ?thesis by (simp add: filter_id_conv[THEN iffD2])
next
  case False
  then have "length (filter P xs) < length xs" by (auto intro: length_filter_less)
  then show ?thesis by (simp add: shrinks_or_extends_def)
qed

section \<open>A screen\<close>

text \<open>What happens to a mounted board; a flag tells whether the socket took the message.\<close>
datatype screen_event =
    Received server_message
  | Drew stroke bool
  | Undid string number bool
  | Redid string number bool

fun client_step :: "client \<Rightarrow> screen_event \<Rightarrow> client" where
  "client_step c (Received message) = client_message c message"
| "client_step c (Drew stroke sent) = client_addStroke c stroke sent"
| "client_step c (Undid newId now sent) = undoLastStroke c newId now sent"
| "client_step c (Redid newId now sent) = redoLastStroke c newId now sent"

definition screen_step :: "client \<times> canvas \<Rightarrow> screen_event \<Rightarrow> client \<times> canvas" where
  "screen_step s ev = (let c = client_step (fst s) ev in (c, canvas_effect (snd s) (cl_strokes c)))"

text \<open>
  The events after which the picture is right: any but a join answer that replaces the strokes by as
  many others or more, and an undo or redo that could not be sent (a drawing is taken back cleanly).
\<close>
fun paints_well :: "client \<Rightarrow> screen_event \<Rightarrow> bool" where
  "paints_well c (Received (JoinAck bid strokes)) \<longleftrightarrow> shrinks_or_extends (cl_strokes c) strokes"
| "paints_well c (Received message) \<longleftrightarrow> True"
| "paints_well c (Drew stroke sent) \<longleftrightarrow> sent \<or> request_of stroke = Draw"
| "paints_well c (Undid newId now sent) \<longleftrightarrow> sent"
| "paints_well c (Redid newId now sent) \<longleftrightarrow> sent"

fun all_paint_well :: "client \<Rightarrow> screen_event list \<Rightarrow> bool" where
  "all_paint_well c [] \<longleftrightarrow> True"
| "all_paint_well c (ev # evs) \<longleftrightarrow> paints_well c ev \<and> all_paint_well (client_step c ev) evs"

lemma applyStrokeEvent_extends: "shrinks_or_extends (cl_strokes c) (cl_strokes (applyStrokeEvent c e))"
  by (simp add: applyStrokeEvent_request split: request.split option.split)

lemma runPendingRollback_extends: "shrinks_or_extends (cl_strokes c) (cl_strokes (runPendingRollback c sid))"
proof (cases "cl_pendingRollback c sid")
  case (Some rb)
  then show ?thesis by (cases rb) (simp_all add: runPendingRollback_def clearPending_def)
qed (simp add: runPendingRollback_def clearPending_def)

lemma addStroke_unsent:
  assumes "request_of s = Draw"
  shows "\<exists>P. cl_strokes (client_addStroke c s False) = filter P (cl_strokes c)"
proof -
  have "cl_strokes (client_addStroke c s False) = hide (strokeId s) (cl_strokes c)"
    using assms by (simp add: client_addStroke_def applyStrokeEvent_request submitStrokeMessage_def trackPending_def
        runPendingRollback_def clearPending_def Let_def)
  then show ?thesis by blast
qed

lemma submitStrokeMessage_strokes [simp]: "cl_strokes (submitStrokeMessage c s rb True) = cl_strokes c"
  by (simp add: submitStrokeMessage_def trackPending_def Let_def)

lemma addStroke_sent: "shrinks_or_extends (cl_strokes c) (cl_strokes (client_addStroke c s True))"
  using applyStrokeEvent_extends[of "c\<lparr>cl_strokeArchive := (cl_strokeArchive c)(strokeId s \<mapsto> s)\<rparr>" s]
  by (simp add: client_addStroke_def Let_def)

lemma undo_sent: "shrinks_or_extends (cl_strokes c) (cl_strokes (undoLastStroke c newId now True))"
  using applyStrokeEvent_extends by (simp add: undoLastStroke_def Let_def split: option.split)

lemma redo_sent: "shrinks_or_extends (cl_strokes c) (cl_strokes (redoLastStroke c newId now True))"
  using applyStrokeEvent_extends by (simp add: redoLastStroke_def Let_def split: option.split)

lemma message_extends:
  assumes "\<And>bid strokes. message \<noteq> JoinAck bid strokes"
  shows "shrinks_or_extends (cl_strokes c) (cl_strokes (client_message c message))"
  using assms applyStrokeEvent_extends runPendingRollback_extends
  by (cases message) (auto simp: client_message_def)

lemma paints_well_extends:
  assumes "paints_well c ev"
  shows "shrinks_or_extends (cl_strokes c) (cl_strokes (client_step c ev))"
proof (cases ev)
  case (Received message)
  then show ?thesis
    using assms message_extends[of message c] by (cases message) (simp_all add: client_message_def)
next
  case (Drew s sent)
  then show ?thesis
    using assms addStroke_sent addStroke_unsent[of s c] by (cases sent) auto
next
  case (Undid newId now sent)
  then show ?thesis using assms undo_sent by simp
next
  case (Redid newId now sent)
  then show ?thesis using assms redo_sent by simp
qed

lemma screen_client: "fst (foldl screen_step (c, cv) evs) = foldl client_step c evs"
  by (induction evs arbitrary: c cv) (simp_all add: screen_step_def Let_def)

lemma screen_stays_in_sync:
  assumes "in_sync cv (cl_strokes c)" and "all_paint_well c evs"
  shows "in_sync (snd (foldl screen_step (c, cv) evs)) (cl_strokes (foldl client_step c evs))"
  using assms
proof (induction evs arbitrary: c cv)
  case (Cons ev evs)
  have "in_sync (canvas_effect cv (cl_strokes (client_step c ev))) (cl_strokes (client_step c ev))"
    using Cons.prems by (auto intro: canvas_effect_in_sync paints_well_extends)
  from Cons.IH[OF this] Cons.prems(2) show ?case by (simp add: screen_step_def Let_def)
qed simp

text \<open>A page that is sent only strokes that can be painted stays.\<close>
definition all_drawable :: "client \<Rightarrow> bool" where
  "all_drawable c \<longleftrightarrow> list_all drawable (cl_strokes c) \<and> (\<forall>s\<in>ran (cl_strokeArchive c). drawable s)"

fun sends_drawable :: "server_message \<Rightarrow> bool" where
  "sends_drawable (JoinAck bid strokes) \<longleftrightarrow> list_all drawable strokes"
| "sends_drawable (StrokeBroadcast s) \<longleftrightarrow> drawable s"
| "sends_drawable (ErrorMessage text code sid retryable) \<longleftrightarrow> False"
| "sends_drawable _ \<longleftrightarrow> True"

lemma archive_of_ran: "ran (archive_of strokes) \<subseteq> set strokes"
proof -
  have "ran (foldl (\<lambda>m s. m(strokeId s \<mapsto> s)) m strokes) \<subseteq> ran m \<union> set strokes" for m
  proof (induction strokes arbitrary: m)
    case (Cons s strokes)
    from Cons.IH[of "m(strokeId s \<mapsto> s)"] show ?case by (fastforce simp: ran_def split: if_splits)
  qed simp
  from this[of Map.empty] show ?thesis by (simp add: archive_of_def)
qed

lemma all_drawable_message:
  assumes "all_drawable c" and "sends_drawable m"
  shows "all_drawable (client_message c m)"
proof (cases m)
  case (JoinAck bid strokes)
  then show ?thesis
    using assms(2) archive_of_ran by (fastforce simp: client_message_def all_drawable_def list_all_iff)
next
  case (StrokeBroadcast s)
  then show ?thesis
    using assms by (auto simp: client_message_def applyStrokeEvent_request all_drawable_def list_all_iff ran_def
        split: request.split option.split if_splits)
qed (use assms in \<open>simp_all add: client_message_def all_drawable_def\<close>)

lemma screen_stays_up:
  assumes "cv_ctx cv \<noteq> None" and "all_drawable c" and "list_all sends_drawable ms"
  shows "cv_ctx (snd (foldl screen_step (c, cv) (map Received ms))) \<noteq> None"
  using assms
proof (induction ms arbitrary: c cv)
  case (Cons m ms)
  have "all_drawable (client_message c m)" using Cons.prems by (simp add: all_drawable_message)
  moreover from this have "cv_ctx (canvas_effect cv (cl_strokes (client_message c m))) \<noteq> None"
    using Cons.prems(1) by (intro canvas_stays) (simp_all add: all_drawable_def)
  ultimately show ?case using Cons.IH Cons.prems(3) by (simp add: screen_step_def Let_def)
qed simp

lemma broadcasts_paint_well: "all_paint_well c (map (Received \<circ> StrokeBroadcast) es)"
  by (induction es arbitrary: c) simp_all

lemma client_steps_broadcasts:
  "foldl client_step c (map (Received \<circ> StrokeBroadcast) es) = foldl client_message c (map StrokeBroadcast es)"
  by (induction es arbitrary: c) simp_all

end
