(* ===== verification/Logging.thy ===== *)
theory Logging
  imports Frontend_Canvas Metrics
begin

text \<open>
  What the program logs: the structured lines of \<open>replica/src/logger.ts\<close> and the texts of
  \<open>frontend/src/utils/logger.ts\<close>. The clock, \<open>JSON.stringify\<close> and how a number is written are arguments.
  The lemmas show that the fields of a line survive the data of an event, and that the text for a
  stroke, which reads its first and last point, can be written for every stroke a user draws.
\<close>

section \<open>The lines of a replica\<close>

datatype log_level = LevelInfo | LevelWarn | LevelError

fun level_text :: "log_level \<Rightarrow> string" where
  "level_text LevelInfo = ''info''"
| "level_text LevelWarn = ''warn''"
| "level_text LevelError = ''error''"

datatype console_method = ConsoleLog | ConsoleWarn | ConsoleError

text \<open>The module variable, and the function that sets it.\<close>
definition initial_replicaId :: string where "initial_replicaId = ''unknown''"

definition setReplicaId :: "string \<Rightarrow> string \<Rightarrow> string" where
  "setReplicaId replicaId newId = newId"

text \<open>\<open>{ ...own, ...data }\<close>\<close>
definition object_spread :: "(string \<times> json) list \<Rightarrow> (string \<times> json) list \<Rightarrow> (string \<times> json) list" where
  "object_spread own data = foldl (\<lambda>obj (k, v). AList.update k v obj) own data"

definition log_object :: "string \<Rightarrow> string \<Rightarrow> log_level \<Rightarrow> string \<Rightarrow> (string \<times> json) list \<Rightarrow> (string \<times> json) list" where
  "log_object replicaId now level event data =
     object_spread
       [(''timestamp'', JStr now), (''level'', JStr (level_text level)), (''replicaId'', JStr replicaId), (''event'', JStr event)]
       data"

definition log_line ::
    "(json \<Rightarrow> string) \<Rightarrow> string \<Rightarrow> string \<Rightarrow> log_level \<Rightarrow> string \<Rightarrow> (string \<times> json) list \<Rightarrow> console_method \<times> string" where
  "log_line stringify replicaId now level event data =
     (let line = stringify (JObj (log_object replicaId now level event data))
      in (case level of LevelError \<Rightarrow> ConsoleError | LevelWarn \<Rightarrow> ConsoleWarn | LevelInfo \<Rightarrow> ConsoleLog, line))"

lemma object_spread_new:
  assumes "distinct (map fst data)" and "fst ` set data \<inter> fst ` set own = {}"
  shows "object_spread own data = own @ data"
  using assms unfolding object_spread_def
proof (induction data arbitrary: own)
  case (Cons kv data)
  obtain k v where kv: "kv = (k, v)" by force
  have "k \<notin> fst ` set own" using Cons.prems(2) kv by auto
  then have "AList.update k v own = own @ [(k, v)]" by (induction own) auto
  then show ?case using Cons.IH[of "own @ [(k, v)]"] Cons.prems kv by auto
qed simp

text \<open>Data with keys of its own leaves the four fields in front of it as they are.\<close>
lemma log_object_fields:
  assumes "distinct (map fst data)"
    and "\<forall>k\<in>set (map fst data). k \<notin> {''timestamp'', ''level'', ''replicaId'', ''event''}"
  shows "log_object replicaId now level event data =
    [(''timestamp'', JStr now), (''level'', JStr (level_text level)), (''replicaId'', JStr replicaId), (''event'', JStr event)] @ data"
  unfolding log_object_def using assms by (intro object_spread_new) auto

text \<open>Otherwise the data wins.\<close>
lemma log_object_overridden:
  "map_of (log_object replicaId now level event (data @ [(k, v)])) k = Some v"
  by (simp add: log_object_def object_spread_def update_conv')

section \<open>The texts of a browser\<close>

text \<open>
  \<open>None\<close> is the \<open>TypeError\<close> of indexing the first or last point of a stroke that has none. The stroke is one
  that was drawn, so its points are an array.
\<close>
definition logStroke :: "(json option \<Rightarrow> string) \<Rightarrow> string \<Rightarrow> stroke \<Rightarrow> string option" where
  "logStroke show_num now s =
     (case points s of
        Some (JArr (p # ps)) \<Rightarrow>
          (let first = p; final = last (p # ps)
           in if JNull \<in> {first, final} then None
              else Some (''['' @ now @ ''] STROKE board='' @ boardId s @ '' user='' @ userId s @ '' color='' @ color s @
                    '' points='' @ show_nat (length (p # ps)) @
                    '' from=('' @ show_num (js_elem 0 first) @ '','' @ show_num (js_elem 1 first) @
                    '') to=('' @ show_num (js_elem 0 final) @ '','' @ show_num (js_elem 1 final) @ '')''))
      | _ \<Rightarrow> None)"

definition logConnection :: "string \<Rightarrow> string \<Rightarrow> string \<Rightarrow> string" where
  "logConnection now bid uid = ''['' @ now @ ''] CONNECTED board='' @ bid @ '' user='' @ uid"

definition logDisconnection :: "string \<Rightarrow> string \<Rightarrow> string \<Rightarrow> string" where
  "logDisconnection now bid uid = ''['' @ now @ ''] DISCONNECTED board='' @ bid @ '' user='' @ uid"

text \<open>Every stroke that a gesture completes can be logged; \<open>addStroke\<close> does this before anything else.\<close>
lemma drawn_stroke_is_logged:
  "gesture start moves bid uid col newId now = Some s \<Longrightarrow> logStroke show_num t s \<noteq> None"
  by (cases moves rule: rev_cases; cases start) (auto simp: gesture_stroke createStroke_def logStroke_def json_points_def Let_def split: if_splits)

end
