(* ===== verification/File_Store.thy ===== *)
theory File_Store
  imports Persistence
begin

text \<open>
  \<open>FilePersistence\<close> of \<open>replica/src/persistence.ts\<close> at the level of the texts in its three files, and
  what a crash in the middle of a call leaves behind. The lemmas show that the files carry the disk
  of \<open>Persistence\<close>, that a crash during any one call is as if the call had been made or not, and
  what becomes of a log whose last line is torn.

  What \<open>JSON.stringify\<close> and \<open>JSON.parse\<close> do is a parameter, a codec: a value printed is read back, a
  printed object has no line feed, and none of its proper beginnings is JSON. A file system call is
  taken as POSIX and the code have it: \<open>rename\<close> is atomic and what was synced stays, while a write
  that a crash cuts off has put down some beginning of its bytes.
\<close>

section \<open>Files\<close>

record files =
  f_state :: "string option"
  f_log :: "string option"
  f_snapshot :: "string option"

definition no_files :: files where
  "no_files = \<lparr>f_state = None, f_log = None, f_snapshot = None\<rparr>"

record json_codec =
  enc_state :: "persisted_state \<Rightarrow> string"
  dec_state :: "string \<Rightarrow> persisted_state option"
  enc_entry :: "log_entry \<Rightarrow> string"
  dec_entry :: "string \<Rightarrow> log_entry option"
  enc_snapshot :: "snapshot \<Rightarrow> string"
  dec_snapshot :: "string \<Rightarrow> snapshot option"

datatype load_error = CorruptWalLine nat | NotJsonFile

abbreviation line_feed :: char where "line_feed \<equiv> CHR 0x0A"

section \<open>Operations\<close>

definition fp_loadState :: "json_codec \<Rightarrow> files \<Rightarrow> load_error + persisted_state" where
  "fp_loadState c fs =
     (case f_state fs of
        None \<Rightarrow> Inr \<lparr>ps_currentTerm = 0, ps_votedFor = None, ps_commitIndex = 0\<rparr>
      | Some raw \<Rightarrow> (case dec_state c raw of None \<Rightarrow> Inl NotJsonFile | Some p \<Rightarrow> Inr p))"

definition fp_saveState :: "json_codec \<Rightarrow> files \<Rightarrow> persisted_state \<Rightarrow> files" where
  "fp_saveState c fs s = fs\<lparr>f_state := Some (enc_state c s)\<rparr>"

text \<open>The loop over the lines, from line \<open>i\<close> on; only the last may fail to parse.\<close>
fun parse_lines :: "json_codec \<Rightarrow> nat \<Rightarrow> string list \<Rightarrow> load_error + log_entry list" where
  "parse_lines c i [] = Inr []"
| "parse_lines c i (line # rest) =
     (case dec_entry c line of
        Some e \<Rightarrow> (case parse_lines c (i + 1) rest of Inl err \<Rightarrow> Inl err | Inr es \<Rightarrow> Inr (e # es))
      | None \<Rightarrow> if rest \<noteq> [] then Inl (CorruptWalLine i) else Inr [])"

definition fp_loadLog :: "json_codec \<Rightarrow> files \<Rightarrow> load_error + log_entry list" where
  "fp_loadLog c fs =
     (case f_log fs of
        None \<Rightarrow> Inr []
      | Some raw \<Rightarrow> parse_lines c 0 (filter (\<lambda>line. length line > 0) (js_split line_feed raw)))"

definition wal_line :: "json_codec \<Rightarrow> log_entry \<Rightarrow> string" where
  "wal_line c e = enc_entry c e @ [line_feed]"

definition fp_appendLog :: "json_codec \<Rightarrow> files \<Rightarrow> log_entry \<Rightarrow> files" where
  "fp_appendLog c fs e = fs\<lparr>f_log := Some (nullish (f_log fs) [] @ wal_line c e)\<rparr>"

definition fp_rewriteLog :: "json_codec \<Rightarrow> files \<Rightarrow> log_entry list \<Rightarrow> files" where
  "fp_rewriteLog c fs es = fs\<lparr>f_log := Some (concat (map (wal_line c) es))\<rparr>"

definition fp_loadSnapshot :: "json_codec \<Rightarrow> files \<Rightarrow> load_error + snapshot option" where
  "fp_loadSnapshot c fs =
     (case f_snapshot fs of
        None \<Rightarrow> Inr None
      | Some raw \<Rightarrow> (case dec_snapshot c raw of None \<Rightarrow> Inl NotJsonFile | Some s \<Rightarrow> Inr (Some s)))"

definition fp_saveSnapshot :: "json_codec \<Rightarrow> files \<Rightarrow> snapshot \<Rightarrow> files" where
  "fp_saveSnapshot c fs s = fs\<lparr>f_snapshot := Some (enc_snapshot c s)\<rparr>"

fun files_do :: "json_codec \<Rightarrow> files \<Rightarrow> pcall \<Rightarrow> files" where
  "files_do c fs (SaveState s) = fp_saveState c fs s"
| "files_do c fs (AppendLog e) = fp_appendLog c fs e"
| "files_do c fs (RewriteLog es) = fp_rewriteLog c fs es"
| "files_do c fs (SaveSnapshot s) = fp_saveSnapshot c fs s"

text \<open>
  What a crash during a call may leave: an append puts down some beginning of its line; the other
  calls replace the file by a rename, which has happened or not (the temporary file is never read).
\<close>
definition append_torn :: "json_codec \<Rightarrow> files \<Rightarrow> log_entry \<Rightarrow> nat \<Rightarrow> files" where
  "append_torn c fs e k = fs\<lparr>f_log := Some (nullish (f_log fs) [] @ take k (wal_line c e))\<rparr>"

definition crash_files :: "json_codec \<Rightarrow> files \<Rightarrow> pcall \<Rightarrow> files list" where
  "crash_files c fs call =
     fs # (case call of
        AppendLog e \<Rightarrow> map (append_torn c fs e) [0..<Suc (length (wal_line c e))]
      | _ \<Rightarrow> [files_do c fs call])"

section \<open>The files carry the disk\<close>

definition state_ok :: "json_codec \<Rightarrow> persisted_state \<Rightarrow> bool" where
  "state_ok c s \<longleftrightarrow> dec_state c (enc_state c s) = Some s"

definition snapshot_ok :: "json_codec \<Rightarrow> snapshot \<Rightarrow> bool" where
  "snapshot_ok c s \<longleftrightarrow> dec_snapshot c (enc_snapshot c s) = Some s"

definition entry_ok :: "json_codec \<Rightarrow> log_entry \<Rightarrow> bool" where
  "entry_ok c e \<longleftrightarrow>
     dec_entry c (enc_entry c e) = Some e \<and> enc_entry c e \<noteq> [] \<and> line_feed \<notin> set (enc_entry c e) \<and>
     (\<forall>k < length (enc_entry c e). dec_entry c (take k (enc_entry c e)) = None)"

fun call_ok :: "json_codec \<Rightarrow> pcall \<Rightarrow> bool" where
  "call_ok c (SaveState s) = state_ok c s"
| "call_ok c (AppendLog e) = entry_ok c e"
| "call_ok c (RewriteLog es) = list_all (entry_ok c) es"
| "call_ok c (SaveSnapshot s) = snapshot_ok c s"

definition carries :: "json_codec \<Rightarrow> files \<Rightarrow> disk \<Rightarrow> bool" where
  "carries c fs d \<longleftrightarrow>
     f_state fs = map_option (enc_state c) (d_state d) \<and> pred_option (state_ok c) (d_state d) \<and>
     nullish (f_log fs) [] = concat (map (wal_line c) (d_log d)) \<and> list_all (entry_ok c) (d_log d) \<and>
     f_snapshot fs = map_option (enc_snapshot c) (d_snapshot d) \<and> pred_option (snapshot_ok c) (d_snapshot d)"

lemma carries_empty: "carries c no_files empty_disk"
  by (simp add: carries_def no_files_def empty_disk_def)

lemma carries_step: "carries c fs d \<Longrightarrow> call_ok c call \<Longrightarrow> carries c (files_do c fs call) (disk_do d call)"
  by (cases call) (simp_all add: carries_def fp_saveState_def fp_appendLog_def fp_rewriteLog_def fp_saveSnapshot_def)

lemma carries_foldl:
  "carries c fs d \<Longrightarrow> list_all (call_ok c) cs \<Longrightarrow> carries c (foldl (files_do c) fs cs) (foldl disk_do d cs)"
  by (induction cs arbitrary: fs d) (simp_all add: carries_step)

section \<open>Reading\<close>

abbreviation lines_of :: "string \<Rightarrow> string list" where
  "lines_of s \<equiv> filter (\<lambda>line. line \<noteq> []) (js_split line_feed s)"

lemma lines_of_log:
  assumes "list_all (entry_ok c) es" and "line_feed \<notin> set rest"
  shows "lines_of (concat (map (wal_line c) es) @ rest @ tail) =
    map (enc_entry c) es @ lines_of (rest @ tail)"
  using assms
proof (induction es)
  case (Cons e es)
  then show ?case by (simp add: wal_line_def entry_ok_def js_split_part)
qed simp

lemma parse_lines_log:
  assumes "list_all (entry_ok c) es"
  shows "parse_lines c i (map (enc_entry c) es @ ls) =
    (case parse_lines c (i + length es) ls of Inl err \<Rightarrow> Inl err | Inr es' \<Rightarrow> Inr (es @ es'))"
  using assms
proof (induction es arbitrary: i)
  case Nil
  then show ?case by (simp split: sum.split)
next
  case (Cons e es)
  from Cons.IH[of "i + 1"] Cons.prems show ?case by (simp add: entry_ok_def split: sum.split)
qed

text \<open>A log of whole lines, then a line that was not finished.\<close>
lemma loadLog_torn:
  assumes log: "nullish (f_log fs) [] = concat (map (wal_line c) es) @ rest"
    and ok: "list_all (entry_ok c) es" and rest: "line_feed \<notin> set rest"
  shows "fp_loadLog c fs =
    (case dec_entry c rest of None \<Rightarrow> Inr es | Some e \<Rightarrow> if rest = [] then Inr es else Inr (es @ [e]))"
proof (cases "f_log fs")
  case None
  with log have "es = []" "rest = []" by (auto simp: wal_line_def)
  with None show ?thesis by (simp add: fp_loadLog_def split: option.split)
next
  case (Some raw)
  then have "lines_of raw = map (enc_entry c) es @ (if rest = [] then [] else [rest])"
    using log lines_of_log[OF ok rest, of "[]"] rest by (simp add: js_split_part(2))
  then show ?thesis
    using Some parse_lines_log[OF ok, of 0] by (simp add: fp_loadLog_def split: option.split)
qed

lemma carries_loads:
  assumes "carries c fs d"
  shows "fp_loadState c fs = Inr (nullish (d_state d) \<lparr>ps_currentTerm = 0, ps_votedFor = None, ps_commitIndex = 0\<rparr>)"
    and "fp_loadLog c fs = Inr (d_log d)" and "fp_loadSnapshot c fs = Inr (d_snapshot d)"
proof -
  show "fp_loadState c fs = Inr (nullish (d_state d) \<lparr>ps_currentTerm = 0, ps_votedFor = None, ps_commitIndex = 0\<rparr>)"
    using assms by (cases "d_state d") (simp_all add: carries_def fp_loadState_def state_ok_def)
  show "fp_loadSnapshot c fs = Inr (d_snapshot d)"
    using assms by (cases "d_snapshot d") (simp_all add: carries_def fp_loadSnapshot_def snapshot_ok_def)
  show "fp_loadLog c fs = Inr (d_log d)"
    using assms loadLog_torn[of fs c "d_log d" "[]"] by (simp add: carries_def split: option.split)
qed

text \<open>What a replica opened on the files loads.\<close>
definition loads :: "json_codec \<Rightarrow> files \<Rightarrow>
    (load_error + persisted_state) \<times> (load_error + log_entry list) \<times> (load_error + snapshot option)" where
  "loads c fs = (fp_loadState c fs, fp_loadLog c fs, fp_loadSnapshot c fs)"

definition disk_loads :: "disk \<Rightarrow>
    (load_error + persisted_state) \<times> (load_error + log_entry list) \<times> (load_error + snapshot option)" where
  "disk_loads d =
     (let p = \<lparr>pkind = FilePersistence, disk = d, calls = []\<rparr>
      in (Inr (loadState p), Inr (loadLog p), Inr (loadSnapshot p)))"

lemma carries_disk_loads: "carries c fs d \<Longrightarrow> loads c fs = disk_loads d"
  by (simp add: loads_def disk_loads_def carries_loads loadState_def loadLog_def loadSnapshot_def Let_def)

lemma append_torn_loads:
  assumes ca: "carries c fs d" and e: "entry_ok c e"
  shows "loads c (append_torn c fs e k) = disk_loads (if length (enc_entry c e) \<le> k then disk_do d (AppendLog e) else d)"
proof -
  let ?fs = "append_torn c fs e k" and ?n = "length (enc_entry c e)"
  have log: "nullish (f_log ?fs) [] = concat (map (wal_line c) (d_log d)) @ take k (wal_line c e)"
    and ok: "list_all (entry_ok c) (d_log d)"
    using ca by (simp_all add: append_torn_def carries_def)
  have same: "fp_loadState c ?fs = fp_loadState c fs" "fp_loadSnapshot c ?fs = fp_loadSnapshot c fs"
    by (simp_all add: append_torn_def fp_loadState_def fp_loadSnapshot_def)
  consider (whole) "?n < k" | (unended) "k = ?n" | (torn) "k < ?n" by linarith
  then have "fp_loadLog c ?fs = Inr (if ?n \<le> k then d_log d @ [e] else d_log d)"
  proof cases
    case whole
    then have "nullish (f_log ?fs) [] = concat (map (wal_line c) (d_log d @ [e])) @ []"
      using log by (simp add: wal_line_def)
    from loadLog_torn[OF this] ok e whole show ?thesis by (simp split: option.split)
  next
    case unended
    then have "take k (wal_line c e) = enc_entry c e" by (simp add: wal_line_def)
    with loadLog_torn[OF log ok] e unended show ?thesis by (simp add: entry_ok_def)
  next
    case torn
    then have t: "take k (wal_line c e) = take k (enc_entry c e)" by (simp add: wal_line_def)
    have "line_feed \<notin> set (take k (enc_entry c e))"
      using e by (auto simp: entry_ok_def dest: in_set_takeD)
    with loadLog_torn[OF log[unfolded t] ok] e torn show ?thesis by (simp add: entry_ok_def)
  qed
  then show ?thesis
    using carries_loads[OF ca] same
    by (simp add: loads_def disk_loads_def loadState_def loadLog_def loadSnapshot_def Let_def)
qed

section \<open>After a torn line\<close>

text \<open>Nothing removes the torn line, so the next entry is written on it.\<close>
lemma torn_then_appended:
  assumes ca: "carries c fs d" and e: "entry_ok c e" and k: "0 < k" "k < length (enc_entry c e)"
    and e1: "entry_ok c e1" and e2: "entry_ok c e2"
    and junk: "dec_entry c (take k (enc_entry c e) @ enc_entry c e1) = None"
  shows "fp_loadLog c (append_torn c fs e k) = Inr (d_log d)"
    and "fp_loadLog c (fp_appendLog c (append_torn c fs e k) e1) = Inr (d_log d)"
    and "fp_loadLog c (fp_appendLog c (fp_appendLog c (append_torn c fs e k) e1) e2) = Inl (CorruptWalLine (length (d_log d)))"
proof -
  let ?t = "take k (enc_entry c e)" and ?log = "concat (map (wal_line c) (d_log d))"
  have w: "take k (wal_line c e) = ?t" using k by (simp add: wal_line_def)
  have ok: "list_all (entry_ok c) (d_log d)" and old: "nullish (f_log fs) [] = ?log"
    using ca by (simp_all add: carries_def)
  have nl: "line_feed \<notin> set (?t @ enc_entry c e1)" "line_feed \<notin> set (enc_entry c e2)"
    using e e1 e2 by (auto simp: entry_ok_def dest: in_set_takeD)
  show "fp_loadLog c (append_torn c fs e k) = Inr (d_log d)"
    using append_torn_loads[OF ca e, of k] k carries_loads
    by (simp add: loads_def disk_loads_def loadLog_def Let_def)
  have l1: "lines_of (?log @ (?t @ enc_entry c e1) @ [line_feed]) = map (enc_entry c) (d_log d) @ [?t @ enc_entry c e1]"
    using lines_of_log[OF ok nl(1), of "[line_feed]"] js_split_part(1)[OF nl(1), of "[]"] k e1
    by (simp add: entry_ok_def)
  show "fp_loadLog c (fp_appendLog c (append_torn c fs e k) e1) = Inr (d_log d)"
    using l1 parse_lines_log[OF ok, of 0] junk k
    by (simp add: fp_loadLog_def fp_appendLog_def append_torn_def old w wal_line_def)
  have l2: "lines_of (?log @ (?t @ enc_entry c e1) @ line_feed # (enc_entry c e2 @ [line_feed])) =
      map (enc_entry c) (d_log d) @ [?t @ enc_entry c e1, enc_entry c e2]"
    using lines_of_log[OF ok nl(1), of "line_feed # (enc_entry c e2 @ [line_feed])"]
      js_split_part(1)[OF nl(1), of "enc_entry c e2 @ [line_feed]"]
      js_split_part(1)[OF nl(2), of "[]"] k e1 e2
    by (simp add: entry_ok_def)
  show "fp_loadLog c (fp_appendLog c (fp_appendLog c (append_torn c fs e k) e1) e2) = Inl (CorruptWalLine (length (d_log d)))"
    using l2 parse_lines_log[OF ok, of 0] junk k
    by (simp add: fp_loadLog_def fp_appendLog_def append_torn_def old w wal_line_def)
qed

end
