(* ===== verification/Posix_Files.thy ===== *)
theory Posix_Files
  imports File_Store
begin

text \<open>
  \<open>FilePersistence\<close> of \<open>replica/src/persistence.ts\<close> at the level of the system calls it makes, on a
  file system that keeps what it was told to write in memory until it is synced. A crash may come
  between any two calls or in the middle of one; it leaves each file with some text it has had since the file was
  last synced, under some of the names the directory has given since the directory was last synced. The
  lemmas show that what a crash leaves is what \<open>File_Store\<close> says it leaves.
\<close>

section \<open>A file system\<close>

text \<open>The text that reading a file gives, and the texts that may be left of it.\<close>
record file_data =
  content :: string
  survivors :: "string list"

record posix_fs =
  directory :: "string \<rightharpoonup> nat"
  directories :: "(string \<rightharpoonup> nat) list"
  inodes :: "nat \<Rightarrow> file_data"
  fresh_inode :: nat
  opened_file :: "nat option"

datatype syscall =
    OpenTruncate string
  | OpenAppend string
  | WriteText string
  | FsyncFile
  | CloseFile
  | RenameFile string string
  | FsyncDirectory

definition open_file :: "posix_fs \<Rightarrow> string \<Rightarrow> (file_data \<Rightarrow> file_data) \<Rightarrow> posix_fs" where
  "open_file fs path change =
     (let i = nullish (directory fs path) (fresh_inode fs);
          d = (directory fs)(path \<mapsto> i);
          before = (if directory fs path = None then \<lparr>content = [], survivors = [[]]\<rparr> else inodes fs i)
      in fs\<lparr>directory := d, directories := directories fs @ [d], inodes := (inodes fs)(i := change before),
            fresh_inode := max (fresh_inode fs) (Suc i), opened_file := Some i\<rparr>)"

definition change_opened :: "posix_fs \<Rightarrow> (file_data \<Rightarrow> file_data) \<Rightarrow> posix_fs" where
  "change_opened fs change =
     (case opened_file fs of
        None \<Rightarrow> fs
      | Some i \<Rightarrow> fs\<lparr>inodes := (inodes fs)(i := change (inodes fs i))\<rparr>)"

text \<open>A write that a crash cuts off has put down some beginning of its text.\<close>
fun syscall_step :: "posix_fs \<Rightarrow> syscall \<Rightarrow> posix_fs" where
  "syscall_step fs (OpenTruncate path) = open_file fs path (\<lambda>f. \<lparr>content = [], survivors = survivors f @ [[]]\<rparr>)"
| "syscall_step fs (OpenAppend path) = open_file fs path (\<lambda>f. f)"
| "syscall_step fs (WriteText text) = change_opened fs (\<lambda>f. \<lparr>content = content f @ text,
     survivors = survivors f @ map (\<lambda>k. content f @ take k text) [0..<Suc (length text)]\<rparr>)"
| "syscall_step fs FsyncFile = change_opened fs (\<lambda>f. f\<lparr>survivors := [content f]\<rparr>)"
| "syscall_step fs CloseFile = fs\<lparr>opened_file := None\<rparr>"
| "syscall_step fs (RenameFile a b) =
     (let d = (directory fs)(b := directory fs a, a := None)
      in fs\<lparr>directory := d, directories := directories fs @ [d]\<rparr>)"
| "syscall_step fs FsyncDirectory = fs\<lparr>directories := [directory fs]\<rparr>"

section \<open>What the class does\<close>

text \<open>The first argument says whether the platform is \<open>win32\<close>.\<close>
definition fsyncDir :: "bool \<Rightarrow> syscall list" where
  "fsyncDir win32 = (if win32 then [] else [FsyncDirectory])"

definition atomicWrite :: "bool \<Rightarrow> string \<Rightarrow> string \<Rightarrow> syscall list" where
  "atomicWrite win32 filePath data =
     (let tmpPath = filePath @ ''.tmp''
      in [OpenTruncate tmpPath, WriteText data, FsyncFile, CloseFile, RenameFile tmpPath filePath] @ fsyncDir win32)"

definition statePath :: string where "statePath = ''state.json''"
definition logPath :: string where "logPath = ''log.jsonl''"
definition snapshotPath :: string where "snapshotPath = ''snapshot.json''"

fun syscalls :: "bool \<Rightarrow> json_codec \<Rightarrow> pcall \<Rightarrow> syscall list" where
  "syscalls win32 c (SaveState s) = atomicWrite win32 statePath (enc_state c s)"
| "syscalls win32 c (AppendLog e) =
     [OpenAppend logPath, WriteText (wal_line c e), FsyncFile, CloseFile] @ fsyncDir win32"
| "syscalls win32 c (RewriteLog es) = atomicWrite win32 logPath (concat (map (wal_line c) es))"
| "syscalls win32 c (SaveSnapshot s) = atomicWrite win32 snapshotPath (enc_snapshot c s)"

section \<open>Reading and crashing\<close>

definition shown :: "posix_fs \<Rightarrow> string \<Rightarrow> string option" where
  "shown fs path = map_option (\<lambda>i. content (inodes fs i)) (directory fs path)"

definition files_of :: "(string \<Rightarrow> string option) \<Rightarrow> files" where
  "files_of f = \<lparr>f_state = f statePath, f_log = f logPath, f_snapshot = f snapshotPath\<rparr>"

abbreviation files_shown :: "posix_fs \<Rightarrow> files" where "files_shown fs \<equiv> files_of (shown fs)"

text \<open>What a crash may leave under a name, if it leaves the directory \<open>d\<close>.\<close>
definition left_of :: "posix_fs \<Rightarrow> (string \<rightharpoonup> nat) \<Rightarrow> string \<Rightarrow> string option list" where
  "left_of fs d path = (case d path of None \<Rightarrow> [None] | Some i \<Rightarrow> map Some (survivors (inodes fs i)))"

definition crash_may_leave :: "posix_fs \<Rightarrow> files \<Rightarrow> bool" where
  "crash_may_leave fs x \<longleftrightarrow> list_ex (\<lambda>d. f_state x \<in> set (left_of fs d statePath) \<and>
     f_log x \<in> set (left_of fs d logPath) \<and> f_snapshot x \<in> set (left_of fs d snapshotPath)) (directories fs)"

definition empty_fs :: posix_fs where
  "empty_fs = \<lparr>directory = Map.empty, directories = [Map.empty], inodes = (\<lambda>i. \<lparr>content = [], survivors = [[]]\<rparr>),
     fresh_inode = 0, opened_file = None\<rparr>"

abbreviation names :: "string set" where "names \<equiv> {statePath, logPath, snapshotPath}"

text \<open>Everything under the three names is on the disk; a temporary file may be in any state.\<close>
definition settled :: "posix_fs \<Rightarrow> bool" where
  "settled fs \<longleftrightarrow> directories fs = [directory fs] \<and>
     (\<forall>p i. directory fs p = Some i \<longrightarrow> i < fresh_inode fs) \<and>
     (\<forall>p q i. directory fs p = Some i \<longrightarrow> directory fs q = Some i \<longrightarrow> p = q) \<and>
     (\<forall>p\<in>names. \<forall>i. directory fs p = Some i \<longrightarrow> survivors (inodes fs i) = [content (inodes fs i)])"

abbreviation run_calls :: "posix_fs \<Rightarrow> syscall list \<Rightarrow> posix_fs" where
  "run_calls \<equiv> foldl syscall_step"

lemma settled_empty: "settled empty_fs"
  by (simp add: settled_def empty_fs_def)

text \<open>What a crash leaves of a settled file system is what it shows.\<close>
lemma settled_left:
  assumes "settled fs" and "p \<in> names"
  shows "left_of fs (directory fs) p = [shown fs p]"
  using assms by (auto simp: settled_def left_of_def shown_def split: option.split)

lemma crash_settled:
  assumes "settled fs" and "crash_may_leave fs x"
  shows "x = files_shown fs"
  using assms(2) settled_left[OF assms(1)] assms(1)
  by (cases x) (auto simp: crash_may_leave_def files_of_def settled_def)

section \<open>Atomic replacement\<close>

lemma names_distinct [simp]:
  "statePath \<noteq> logPath" "logPath \<noteq> statePath" "statePath \<noteq> snapshotPath" "snapshotPath \<noteq> statePath"
  "logPath \<noteq> snapshotPath" "snapshotPath \<noteq> logPath"
  by (simp_all add: statePath_def logPath_def snapshotPath_def)

lemma tmp_not_name:
  assumes "p \<in> names" and "q \<in> names"
  shows "q @ ''.tmp'' \<noteq> p"
  using assms by (auto simp: statePath_def logPath_def snapshotPath_def)

text \<open>The inode that opening a file to write uses, and the directory then.\<close>
definition inode_for :: "posix_fs \<Rightarrow> string \<Rightarrow> nat" where
  "inode_for fs p = nullish (directory fs p) (fresh_inode fs)"

lemma inode_for_other:
  assumes "settled fs" and "directory fs q = Some i" and "q \<noteq> p"
  shows "i \<noteq> inode_for fs p"
  using assms by (cases "directory fs p") (fastforce simp: settled_def inode_for_def)+

lemma left_unchanged:
  assumes fs: "settled fs" and q: "q \<in> names" "q \<noteq> t" and d: "d q = directory fs q"
    and fs': "\<And>j. j \<noteq> inode_for fs t \<Longrightarrow> inodes fs' j = inodes fs j"
  shows "left_of fs' d q = [shown fs q]"
proof (cases "directory fs q")
  case None
  then show ?thesis using d by (simp add: left_of_def shown_def)
next
  case (Some j)
  then show ?thesis
    using d fs'[OF inode_for_other[OF fs Some q(2)]] settled_left[OF fs q(1)] by (simp add: left_of_def)
qed

text \<open>The file under \<open>p\<close> has been replaced, or nothing has happened to it.\<close>
definition replaced :: "posix_fs \<Rightarrow> string \<Rightarrow> string \<Rightarrow> string \<Rightarrow> string option" where
  "replaced fs p data q = (if q = p then Some data else shown fs q)"

lemma crash_leaves_of:
  assumes "crash_may_leave fs' x" and "\<And>d q. d \<in> set (directories fs') \<Longrightarrow> q \<in> names \<Longrightarrow> set (left_of fs' d q) \<subseteq> A d q"
  obtains d f where "d \<in> set (directories fs')" and "x = files_of f" and "\<And>q. q \<in> names \<Longrightarrow> f q \<in> A d q"
proof -
  obtain d where d: "d \<in> set (directories fs')" "f_state x \<in> A d statePath" "f_log x \<in> A d logPath" "f_snapshot x \<in> A d snapshotPath"
    using assms unfolding crash_may_leave_def list_ex_iff by blast
  let ?f = "\<lambda>q. if q = statePath then f_state x else if q = logPath then f_log x else f_snapshot x"
  have "x = files_of ?f" by (cases x) (simp add: files_of_def)
  then show ?thesis by (rule that[OF d(1)]) (use d(2-4) in auto)
qed

lemma files_of_cong: "(\<And>q. q \<in> names \<Longrightarrow> f q = f' q) \<Longrightarrow> files_of f = files_of f'"
  by (simp add: files_of_def)

text \<open>The states that an atomic write goes through.\<close>
lemma atomicWrite_states:
  assumes "fs' = run_calls fs (take k (atomicWrite False p data))"
  defines "i \<equiv> inode_for fs (p @ ''.tmp'')"
  defines "d1 \<equiv> (directory fs)(p @ ''.tmp'' \<mapsto> i)" and "d2 \<equiv> (directory fs)(p := Some i, p @ ''.tmp'' := None)"
  obtains (untouched) "k = 0" "fs' = fs"
    | (writing) "0 < k" "k < 5" "\<forall>j. j \<noteq> i \<longrightarrow> inodes fs' j = inodes fs j" "directories fs' = directories fs @ [d1]"
    | (renamed) "k = 5" "inodes fs' = (inodes fs)(i := \<lparr>content = data, survivors = [data]\<rparr>)"
        "directories fs' = directories fs @ [d1, d2]"
    | (finished) "6 \<le> k" "fs' = fs\<lparr>directory := d2, directories := [d2],
        inodes := (inodes fs)(i := \<lparr>content = data, survivors = [data]\<rparr>),
        fresh_inode := max (fresh_inode fs) (Suc i), opened_file := None\<rparr>"
proof -
  have tmp: "p @ ''.tmp'' \<noteq> p" by simp
  consider "k = 0" | "k = 1" | "k = 2" | "k = 3" | "k = 4" | "k = 5" | "6 \<le> k" by linarith
  then show ?thesis
  proof cases
    case 1
    then show ?thesis using untouched assms(1) by simp
  next
    case 6
    then show ?thesis using renamed assms(1) tmp
      by (simp add: atomicWrite_def open_file_def change_opened_def i_def d1_def d2_def inode_for_def Let_def eval_nat_numeral fun_upd_twist)
  next
    case 7
    then show ?thesis using finished assms(1) tmp
      by (simp add: atomicWrite_def fsyncDir_def open_file_def change_opened_def i_def d2_def inode_for_def Let_def fun_upd_twist)
  qed (use writing assms(1) in \<open>simp_all add: atomicWrite_def open_file_def change_opened_def i_def d1_def inode_for_def Let_def eval_nat_numeral\<close>)
qed

lemma atomicWrite_crash:
  assumes fs: "settled fs" and p: "p \<in> names"
    and x: "crash_may_leave (run_calls fs (take k (atomicWrite False p data))) x"
  shows "x = files_shown fs \<or> x = files_of (replaced fs p data)"
proof -
  define fs' where "fs' = run_calls fs (take k (atomicWrite False p data))"
  let ?t = "p @ ''.tmp''"
  define i where "i = inode_for fs ?t"
  have t: "q \<noteq> ?t" if "q \<in> names" for q using tmp_not_name[OF that p] by blast
  have x': "crash_may_leave fs' x" using x by (simp add: fs'_def)
  have dirs: "directories fs = [directory fs]" using fs by (simp add: settled_def)
  have old: "left_of fs' d q = [shown fs q]" if "q \<in> names" "d q = directory fs q" "\<forall>j. j \<noteq> i \<longrightarrow> inodes fs' j = inodes fs j" for d q
    using left_unchanged[OF fs that(1) t[OF that(1)], where d = d and fs' = fs'] that(2,3) by (simp add: i_def)
  have new: "left_of fs' d q = [replaced fs p data q]"
    if "q \<in> names" "d = (directory fs)(p := Some i, ?t := None)" "inodes fs' = (inodes fs)(i := \<lparr>content = data, survivors = [data]\<rparr>)" for d q
    using old[OF that(1), of d] that t[OF that(1)] by (cases "q = p") (simp_all add: replaced_def left_of_def)
  have case_of: ?thesis if one: "\<And>d q. d \<in> set (directories fs') \<Longrightarrow> q \<in> names \<Longrightarrow> left_of fs' d q = [g d q]"
    and either: "\<And>d. d \<in> set (directories fs') \<Longrightarrow> (\<forall>q\<in>names. g d q = shown fs q) \<or> (\<forall>q\<in>names. g d q = replaced fs p data q)" for g
  proof -
    obtain d f where f: "d \<in> set (directories fs')" "x = files_of f" "\<And>q. q \<in> names \<Longrightarrow> f q \<in> {g d q}"
      by (rule crash_leaves_of[OF x', of "\<lambda>d q. {g d q}"]) (use one in auto)
    then show ?thesis using either[OF f(1)] files_of_cong[of f] by (metis singletonD)
  qed
  show ?thesis
  proof (rule atomicWrite_states[OF fs'_def])
    assume "k = 0" "fs' = fs"
    then show ?thesis using crash_settled[OF fs] x' by simp
  next
    assume "\<forall>j. j \<noteq> inode_for fs ?t \<longrightarrow> inodes fs' j = inodes fs j"
      "directories fs' = directories fs @ [(directory fs)(?t \<mapsto> inode_for fs ?t)]"
    then show ?thesis
      using old t by (intro case_of[of "\<lambda>d. shown fs"]) (auto simp: dirs i_def)
  next
    let ?d2 = "(directory fs)(p := Some (inode_for fs ?t), ?t := None)"
    assume r: "inodes fs' = (inodes fs)(inode_for fs ?t := \<lparr>content = data, survivors = [data]\<rparr>)"
      "directories fs' = directories fs @ [(directory fs)(?t \<mapsto> inode_for fs ?t), ?d2]"
    show ?thesis
    proof (rule case_of[of "\<lambda>d. if d = ?d2 then replaced fs p data else shown fs"])
      fix d q
      assume "d \<in> set (directories fs')" "q \<in> names"
      then show "left_of fs' d q = [(if d = ?d2 then replaced fs p data else shown fs) q]"
        using new[of q d] old[of q d] r t[of q] by (auto simp: dirs i_def)
    qed auto
  next
    assume f: "fs' = fs\<lparr>directory := (directory fs)(p := Some (inode_for fs ?t), ?t := None),
        directories := [(directory fs)(p := Some (inode_for fs ?t), ?t := None)],
        inodes := (inodes fs)(inode_for fs ?t := \<lparr>content = data, survivors = [data]\<rparr>),
        fresh_inode := max (fresh_inode fs) (Suc (inode_for fs ?t)), opened_file := None\<rparr>"
    then show ?thesis
      using new by (intro case_of[of "\<lambda>d. replaced fs p data"]) (auto simp: i_def)
  qed
qed

lemma atomicWrite_done:
  assumes fs: "settled fs" and p: "p \<in> names" and "6 \<le> k"
    and fs': "fs' = run_calls fs (take k (atomicWrite False p data))"
  shows "settled fs'" and "files_shown fs' = files_of (replaced fs p data)"
proof -
  let ?t = "p @ ''.tmp''" and ?i = "inode_for fs (p @ ''.tmp'')"
  have t: "q \<noteq> ?t" if "q \<in> names" for q using tmp_not_name[OF that p] by blast
  have f: "fs' = fs\<lparr>directory := (directory fs)(p := Some ?i, ?t := None), directories := [(directory fs)(p := Some ?i, ?t := None)],
      inodes := (inodes fs)(?i := \<lparr>content = data, survivors = [data]\<rparr>),
      fresh_inode := max (fresh_inode fs) (Suc ?i), opened_file := None\<rparr>"
    by (rule atomicWrite_states[OF fs']) (use assms(3) in simp_all)
  have other: "j \<noteq> ?i" if "directory fs q = Some j" "q \<noteq> ?t" for q j using inode_for_other[OF fs that] .
  have below: "j < fresh_inode fs" if "directory fs q = Some j" for q j using fs that by (simp add: settled_def)
  show "settled fs'"
    unfolding settled_def
  proof (intro conjI allI ballI impI)
    fix q j
    assume "directory fs' q = Some j"
    then show "j < fresh_inode fs'" using below[of q j] by (auto simp: f split: if_splits)
  next
    fix q r j
    assume "directory fs' q = Some j" "directory fs' r = Some j"
    then show "q = r" using other[of q j] other[of r j] fs by (auto simp: f settled_def split: if_splits)
  next
    fix q j
    assume "q \<in> names" "directory fs' q = Some j"
    then show "survivors (inodes fs' j) = [content (inodes fs' j)]"
      using other[of q j] fs by (auto simp: f settled_def split: if_splits)
  qed (simp add: f)
  show "files_shown fs' = files_of (replaced fs p data)"
  proof (rule files_of_cong)
    fix q
    assume q: "q \<in> names"
    show "shown fs' q = replaced fs p data q"
      using t[OF q] other[of q] by (cases "directory fs q") (auto simp: f shown_def replaced_def)
  qed
qed

section \<open>Appending\<close>

definition append_calls :: "string \<Rightarrow> syscall list" where
  "append_calls line = [OpenAppend logPath, WriteText line, FsyncFile, CloseFile, FsyncDirectory]"

abbreviation log_text :: "posix_fs \<Rightarrow> string" where
  "log_text fs \<equiv> nullish (shown fs logPath) []"

lemma append_states:
  assumes fs: "settled fs" and fs': "fs' = run_calls fs (take k (append_calls line))"
  defines "i \<equiv> inode_for fs logPath"
  defines "d1 \<equiv> (directory fs)(logPath \<mapsto> i)"
  obtains (untouched) "k = 0" "fs' = fs"
    | (writing) f where "0 < k" "k < 5" "inodes fs' = (inodes fs)(i := f)" "directories fs' = directories fs @ [d1]"
        "set (survivors f) \<subseteq> (\<lambda>m. log_text fs @ take m line) ` {..length line}"
    | (finished) "5 \<le> k" "fs' = fs\<lparr>directory := d1, directories := [d1],
        inodes := (inodes fs)(i := \<lparr>content = log_text fs @ line, survivors = [log_text fs @ line]\<rparr>),
        fresh_inode := max (fresh_inode fs) (Suc i), opened_file := None\<rparr>"
proof -
  let ?f0 = "\<lparr>content = log_text fs, survivors = [log_text fs]\<rparr>"
  have f0: "(if directory fs logPath = None then \<lparr>content = [], survivors = [[]]\<rparr> else inodes fs i) = ?f0"
    using fs by (cases "inodes fs i") (auto simp: i_def inode_for_def shown_def settled_def)
  have open_log: "syscall_step fs (OpenAppend logPath) = fs\<lparr>directory := d1, directories := directories fs @ [d1],
      inodes := (inodes fs)(i := ?f0), fresh_inode := max (fresh_inode fs) (Suc i), opened_file := Some i\<rparr>"
    by (simp add: open_file_def d1_def f0[symmetric] Let_def) (simp add: i_def inode_for_def)
  let ?ends = "(\<lambda>m. log_text fs @ take m line) ` {..length line}"
  have ends: "log_text fs \<in> ?ends" "log_text fs @ line \<in> ?ends"
    using imageI[of 0 "{..length line}" "\<lambda>m. log_text fs @ take m line"]
      imageI[of "length line" "{..length line}" "\<lambda>m. log_text fs @ take m line"] by simp_all
  have at: "run_calls fs (take (Suc m) (append_calls line)) =
      run_calls (syscall_step fs (OpenAppend logPath)) (take m [WriteText line, FsyncFile, CloseFile, FsyncDirectory])" for m
    by (simp add: append_calls_def)
  have synced: "inodes fs' = (inodes fs)(i := \<lparr>content = log_text fs @ line, survivors = [log_text fs @ line]\<rparr>) \<and>
      directories fs' = directories fs @ [d1]" if "k = 3 \<or> k = 4"
    using that fs' at[of "k - 1"] by (auto simp: open_log change_opened_def eval_nat_numeral simp del: syscall_step.simps(2))
  consider "k = 0" | "k = 1" | "k = 2" | "k = 3 \<or> k = 4" | "5 \<le> k" by linarith
  then show ?thesis
  proof cases
    case 1
    then show ?thesis using untouched fs' by simp
  next
    case 2
    then show ?thesis using writing[of ?f0] fs' at[of 0] open_log ends(1) by (simp del: syscall_step.simps)
  next
    case 3
    let ?f = "\<lparr>content = log_text fs @ line,
      survivors = [log_text fs] @ map (\<lambda>k. log_text fs @ take k line) [0..<Suc (length line)]\<rparr>"
    have "inodes fs' = (inodes fs)(i := ?f)" "directories fs' = directories fs @ [d1]"
      using fs' 3 at[of 1] by (simp_all add: numeral_2_eq_2 open_log change_opened_def del: syscall_step.simps(2))
    moreover have "set (survivors ?f) \<subseteq> ?ends" using ends by auto
    ultimately show ?thesis using writing[of ?f] 3 by simp
  next
    case 4
    then show ?thesis using writing synced ends(2) by auto
  next
    case 5
    then show ?thesis
      using finished fs' at[of "k - 1"] by (simp add: open_log change_opened_def del: syscall_step.simps(2))
  qed
qed

lemma append_crash:
  assumes fs: "settled fs" and x: "crash_may_leave (run_calls fs (take k (append_calls line))) x"
  shows "x = files_shown fs \<or> (\<exists>m \<le> length line. x = files_of (replaced fs logPath (log_text fs @ take m line)))"
proof -
  define fs' where "fs' = run_calls fs (take k (append_calls line))"
  let ?i = "inode_for fs logPath" and ?d1 = "(directory fs)(logPath \<mapsto> inode_for fs logPath)"
  let ?ends = "(\<lambda>m. log_text fs @ take m line) ` {..length line}"
  have x': "crash_may_leave fs' x" using x by (simp add: fs'_def)
  have dirs: "directories fs = [directory fs]" using fs by (simp add: settled_def)
  have by_cases: ?thesis if i: "inodes fs' = (inodes fs)(?i := f)" and d: "set (directories fs') \<subseteq> {directory fs, ?d1}"
    and f: "set (survivors f) \<subseteq> ?ends" for f
  proof -
    have log: "set (left_of fs' d logPath) \<subseteq> {shown fs logPath} \<union> Some ` ?ends" if "d \<in> set (directories fs')" for d
    proof -
      have "d logPath = None \<and> directory fs logPath = None \<or> d logPath = Some ?i"
        using that d by (cases "directory fs logPath") (auto simp: inode_for_def)
      then show ?thesis
      proof
        assume "d logPath = Some ?i"
        then show ?thesis using i f by (auto simp: left_of_def)
      qed (simp add: left_of_def shown_def)
    qed
    have other: "left_of fs' d q = [shown fs q]" if "d \<in> set (directories fs')" "q \<in> names" "q \<noteq> logPath" for d q
    proof (rule left_unchanged[OF fs that(2,3)])
      show "d q = directory fs q" using that d by auto
    qed (simp add: i)
    obtain d g where g: "x = files_of g"
      "\<And>q. q \<in> names \<Longrightarrow> g q \<in> (if q = logPath then {shown fs logPath} \<union> Some ` ?ends else {shown fs q})"
      by (rule crash_leaves_of[OF x', of "\<lambda>d q. if q = logPath then {shown fs logPath} \<union> Some ` ?ends else {shown fs q}"])
        (use log other in auto)
    have rest: "g statePath = shown fs statePath" "g snapshotPath = shown fs snapshotPath"
      using g(2)[of statePath] g(2)[of snapshotPath] by auto
    from g(2)[of logPath] consider "g logPath = shown fs logPath" | m where "m \<le> length line" "g logPath = Some (log_text fs @ take m line)"
      by auto
    then show ?thesis
    proof cases
      case 1
      then show ?thesis using g(1) rest by (simp add: files_of_def)
    next
      case (2 m)
      then show ?thesis using g(1) rest by (auto simp: files_of_def replaced_def)
    qed
  qed
  show ?thesis
  proof (rule append_states[OF fs fs'_def])
    assume "k = 0" "fs' = fs"
    then show ?thesis using crash_settled[OF fs] x' by simp
  next
    fix f
    assume "inodes fs' = (inodes fs)(?i := f)" "directories fs' = directories fs @ [?d1]" "set (survivors f) \<subseteq> ?ends"
    then show ?thesis by (intro by_cases) (auto simp: dirs)
  next
    assume "fs' = fs\<lparr>directory := ?d1, directories := [?d1],
      inodes := (inodes fs)(?i := \<lparr>content = log_text fs @ line, survivors = [log_text fs @ line]\<rparr>),
      fresh_inode := max (fresh_inode fs) (Suc ?i), opened_file := None\<rparr>"
    then show ?thesis
      using imageI[of "length line" "{..length line}" "\<lambda>m. log_text fs @ take m line"] by (intro by_cases) auto
  qed
qed

lemma append_done:
  assumes fs: "settled fs" and "5 \<le> k" and fs': "fs' = run_calls fs (take k (append_calls line))"
  shows "settled fs'" and "files_shown fs' = files_of (replaced fs logPath (log_text fs @ line))"
proof -
  let ?i = "inode_for fs logPath" and ?d1 = "(directory fs)(logPath \<mapsto> inode_for fs logPath)"
  have f: "fs' = fs\<lparr>directory := ?d1, directories := [?d1],
      inodes := (inodes fs)(?i := \<lparr>content = log_text fs @ line, survivors = [log_text fs @ line]\<rparr>),
      fresh_inode := max (fresh_inode fs) (Suc ?i), opened_file := None\<rparr>"
    by (rule append_states[OF fs fs']) (use assms(2) in simp_all)
  have other: "j \<noteq> ?i" if "directory fs q = Some j" "q \<noteq> logPath" for q j using inode_for_other[OF fs that] .
  have below: "j < fresh_inode fs" if "directory fs q = Some j" for q j using fs that by (simp add: settled_def)
  show "settled fs'"
    unfolding settled_def
  proof (intro conjI allI ballI impI)
    fix q j
    assume "directory fs' q = Some j"
    then show "j < fresh_inode fs'" using below[of q j] by (auto simp: f split: if_splits)
  next
    fix q r j
    assume "directory fs' q = Some j" "directory fs' r = Some j"
    then show "q = r" using other[of q j] other[of r j] fs by (auto simp: f settled_def split: if_splits)
  next
    fix q j
    assume "q \<in> names" "directory fs' q = Some j"
    then show "survivors (inodes fs' j) = [content (inodes fs' j)]"
      using other[of q j] fs by (auto simp: f settled_def split: if_splits)
  qed (simp add: f)
  show "files_shown fs' = files_of (replaced fs logPath (log_text fs @ line))"
  proof (rule files_of_cong)
    fix q
    assume q: "q \<in> names"
    show "shown fs' q = replaced fs logPath (log_text fs @ line) q"
      using other[of q] by (cases "directory fs q") (auto simp: f shown_def replaced_def)
  qed
qed

section \<open>The calls of the class\<close>

lemma files_shown_fields:
  "f_state (files_shown fs) = shown fs statePath" "f_log (files_shown fs) = shown fs logPath"
  "f_snapshot (files_shown fs) = shown fs snapshotPath"
  by (simp_all add: files_of_def)

lemma replaced_files:
  "files_of (replaced fs statePath t) = (files_shown fs)\<lparr>f_state := Some t\<rparr>"
  "files_of (replaced fs logPath t) = (files_shown fs)\<lparr>f_log := Some t\<rparr>"
  "files_of (replaced fs snapshotPath t) = (files_shown fs)\<lparr>f_snapshot := Some t\<rparr>"
  by (simp_all add: files_of_def replaced_def)

lemma syscalls_append: "syscalls False c (AppendLog e) = append_calls (wal_line c e)"
  by (simp add: append_calls_def fsyncDir_def)

text \<open>A crash between or within the system calls of one call leaves what \<open>crash_files\<close> lists.\<close>
lemma crash_in_call:
  assumes "settled fs" and "crash_may_leave (run_calls fs (take k (syscalls False c call))) x"
  shows "x \<in> set (crash_files c (files_shown fs) call)"
proof (cases call)
  case (AppendLog e)
  have "x = files_shown fs \<or> (\<exists>m \<le> length (wal_line c e). x = append_torn c (files_shown fs) e m)"
    using append_crash[OF assms(1)] assms(2)
    by (simp add: AppendLog syscalls_append append_torn_def replaced_files files_shown_fields del: syscalls.simps)
  then show ?thesis using AppendLog by (auto simp: crash_files_def less_Suc_eq_le simp del: upt_Suc)
next
  case (SaveState s)
  then show ?thesis using atomicWrite_crash[OF assms(1), of statePath] assms(2)
    by (auto simp: crash_files_def fp_saveState_def replaced_files)
next
  case (RewriteLog es)
  then show ?thesis using atomicWrite_crash[OF assms(1), of logPath] assms(2)
    by (auto simp: crash_files_def fp_rewriteLog_def replaced_files)
next
  case (SaveSnapshot s)
  then show ?thesis using atomicWrite_crash[OF assms(1), of snapshotPath] assms(2)
    by (auto simp: crash_files_def fp_saveSnapshot_def replaced_files)
qed

text \<open>A call that has returned has changed the files, and they are on the disk.\<close>
lemma call_done:
  assumes "settled fs" and "length (syscalls False c call) \<le> k"
  defines "fs' \<equiv> run_calls fs (take k (syscalls False c call))"
  shows "settled fs' \<and> files_shown fs' = files_do c (files_shown fs) call"
proof (cases call)
  case (AppendLog e)
  then have "5 \<le> k" using assms(2) by (simp add: fsyncDir_def)
  from append_done[OF assms(1) this] show ?thesis
    using AppendLog by (simp add: fs'_def syscalls_append fp_appendLog_def replaced_files files_shown_fields del: syscalls.simps)
next
  case (SaveState s)
  then have "6 \<le> k" using assms(2) by (simp add: atomicWrite_def fsyncDir_def Let_def)
  from atomicWrite_done[OF assms(1) _ this, of statePath] show ?thesis
    using SaveState by (simp add: fs'_def fp_saveState_def replaced_files)
next
  case (RewriteLog es)
  then have "6 \<le> k" using assms(2) by (simp add: atomicWrite_def fsyncDir_def Let_def)
  from atomicWrite_done[OF assms(1) _ this, of logPath] show ?thesis
    using RewriteLog by (simp add: fs'_def fp_rewriteLog_def replaced_files)
next
  case (SaveSnapshot s)
  then have "6 \<le> k" using assms(2) by (simp add: atomicWrite_def fsyncDir_def Let_def)
  from atomicWrite_done[OF assms(1) _ this, of snapshotPath] show ?thesis
    using SaveSnapshot by (simp add: fs'_def fp_saveSnapshot_def replaced_files)
qed

lemma calls_done:
  assumes "settled fs"
  shows "settled (run_calls fs (concat (map (syscalls False c) cs))) \<and>
    files_shown (run_calls fs (concat (map (syscalls False c) cs))) = foldl (files_do c) (files_shown fs) cs"
  using assms
proof (induction cs arbitrary: fs)
  case (Cons call cs)
  from call_done[OF Cons.prems order_refl, of c call] Cons.IH[of "run_calls fs (syscalls False c call)"]
  show ?case by simp
qed simp

section \<open>What is loaded after a crash\<close>

lemma crash_files_loads:
  assumes ca: "carries c x d" and call: "call_ok c call" and y: "y \<in> set (crash_files c x call)"
  shows "loads c y = disk_loads d \<or> loads c y = disk_loads (disk_do d call)"
proof (cases call)
  case (AppendLog e)
  with y carries_disk_loads[OF ca] call append_torn_loads[OF ca, of e] show ?thesis
    by (auto simp: crash_files_def split: if_splits)
qed (use y carries_disk_loads[OF ca] carries_disk_loads[OF carries_step[OF ca call]] in \<open>auto simp: crash_files_def\<close>)

text \<open>
  Where the directory is not synced, a call that has returned may be undone: the vote that a replica
  has just answered is gone after a crash.
\<close>
lemma unsynced_directory_loses_state:
  "crash_may_leave (run_calls empty_fs (syscalls True c (SaveState s))) no_files"
  by (simp add: crash_may_leave_def empty_fs_def atomicWrite_def fsyncDir_def Let_def open_file_def change_opened_def
      no_files_def left_of_def)

end
