(* ===== verification/Store_Props.thy ===== *)
theory Store_Props
  imports Posix_Files
begin

text \<open>
  The properties of the files of a replica: they implement the durable store that the node relies
  on, also across crashes, but a log that a crash has torn does not survive the next writes.
\<close>

definition stored_entry :: "nat \<Rightarrow> log_entry" where
  "stored_entry i = \<lparr>e_index = i, e_term = 1,
     e_stroke = \<lparr>strokeId = ''s'', boardId = ''b'', userId = ''u'', color = ''red'', width = json_width (whole 3), points = json_points [],
       timestamp = whole 0, action = None, targetStrokeId = None\<rparr>\<rparr>"

definition stored_state :: persisted_state where
  "stored_state = \<lparr>ps_currentTerm = 1, ps_votedFor = None, ps_commitIndex = 1\<rparr>"

text \<open>A codec for a few values, to instantiate the parameter.\<close>
definition small_codec :: json_codec where
  "small_codec = \<lparr>
     enc_state = (\<lambda>s. ''{s}''), dec_state = (\<lambda>t. if t = ''{s}'' then Some stored_state else None),
     enc_entry = (\<lambda>e. if e_index e = 1 then ''{a}'' else if e_index e = 2 then ''{b}'' else ''{c}''),
     dec_entry = (\<lambda>t. if t = ''{a}'' then Some (stored_entry 1) else if t = ''{b}'' then Some (stored_entry 2)
       else if t = ''{c}'' then Some (stored_entry 3) else None),
     enc_snapshot = (\<lambda>s. ''{n}''), dec_snapshot = (\<lambda>t. None)\<rparr>"

lemma small_codec_ok:
  "entry_ok small_codec (stored_entry 1)" "entry_ok small_codec (stored_entry 2)" "entry_ok small_codec (stored_entry 3)"
  "state_ok small_codec stored_state"
  by (auto simp: entry_ok_def state_ok_def small_codec_def stored_entry_def less_Suc_eq numeral_3_eq_3)

text \<open>A crash, as \<open>File_Store\<close> describes it, leaves what the node had before the call or after it.\<close>
theorem files_are_atomic:
  assumes "list_all (call_ok c) (done @ [call])"
    and "fs \<in> set (crash_files c (foldl (files_do c) no_files done) call)"
  shows "loads c (foldl (files_do c) no_files done) = disk_loads (foldl disk_do empty_disk done) \<and>
    (loads c fs = disk_loads (foldl disk_do empty_disk done) \<or>
     loads c fs = disk_loads (foldl disk_do empty_disk (done @ [call])))"
proof -
  have ca: "carries c (foldl (files_do c) no_files done) (foldl disk_do empty_disk done)" and call: "call_ok c call"
    using carries_foldl[OF carries_empty] assms(1) by simp_all
  show ?thesis using carries_disk_loads[OF ca] crash_files_loads[OF ca call assms(2)] by simp
qed

theorem files_are_atomic_witness:
  "let done = [SaveState stored_state, AppendLog (stored_entry 1)];
       fs = append_torn small_codec (foldl (files_do small_codec) no_files done) (stored_entry 2) 2
   in loads small_codec fs = disk_loads (foldl disk_do empty_disk done) \<or>
      loads small_codec fs = disk_loads (foldl disk_do empty_disk (done @ [AppendLog (stored_entry 2)]))"
proof -
  let ?done = "[SaveState stored_state, AppendLog (stored_entry 1)]"
  have ok: "list_all (call_ok small_codec) (?done @ [AppendLog (stored_entry 2)])"
    by (simp add: small_codec_ok del: One_nat_def)
  have "append_torn small_codec (foldl (files_do small_codec) no_files ?done) (stored_entry 2) 2
      \<in> set (crash_files small_codec (foldl (files_do small_codec) no_files ?done) (AppendLog (stored_entry 2)))"
    by (simp add: crash_files_def) (auto simp: wal_line_def small_codec_def stored_entry_def intro!: imageI)
  from files_are_atomic[OF ok this] show ?thesis unfolding Let_def by blast
qed

text \<open>C16: The files are an atomic durable store at the level of the system calls: take any calls of the
  node and a further one, and let the machine crash after any number \<open>k\<close> of the system calls of that one, with the
  file system free to keep or lose what was not synced, text cut off in the middle and renames and new files
  included. What a replica then loads is the state, the log and the snapshot of the abstract disk from before the
  call or from after it; and once the call has returned, and so before the node answers, it is that from after it.\<close>
theorem system_calls_are_atomic:
  assumes "settled fs" and "carries c (files_shown fs) d" and "list_all (call_ok c) (cs @ [call])"
    and "crash_may_leave (run_calls (run_calls fs (concat (map (syscalls False c) cs))) (take k (syscalls False c call))) x"
  shows "loads c x = disk_loads (foldl disk_do d (cs @ [call])) \<or>
    (loads c x = disk_loads (foldl disk_do d cs) \<and> k < length (syscalls False c call))"
proof -
  let ?fs = "run_calls fs (concat (map (syscalls False c) cs))"
  have fs: "settled ?fs" "files_shown ?fs = foldl (files_do c) (files_shown fs) cs" using calls_done[OF assms(1)] by simp_all
  then have ca: "carries c (files_shown ?fs) (foldl disk_do d cs)" and call: "call_ok c call"
    using carries_foldl[OF assms(2)] assms(3) by simp_all
  show ?thesis
  proof (cases "k < length (syscalls False c call)")
    case True
    then show ?thesis using crash_files_loads[OF ca call crash_in_call[OF fs(1) assms(4)]] by auto
  next
    case False
    then have "settled (run_calls ?fs (take k (syscalls False c call))) \<and>
        files_shown (run_calls ?fs (take k (syscalls False c call))) = files_do c (files_shown ?fs) call"
      by (intro call_done[OF fs(1)]) (rule leI)
    then have "x = files_do c (files_shown ?fs) call" using crash_settled[OF _ assms(4)] by simp
    then show ?thesis using carries_disk_loads[OF carries_step[OF ca call]] by simp
  qed
qed

theorem system_calls_are_atomic_witness:
  "let cut = \<lparr>f_state = Some (enc_state small_codec stored_state), f_log = Some ''{a'', f_snapshot = None\<rparr>
   in crash_may_leave (run_calls (run_calls empty_fs (syscalls False small_codec (SaveState stored_state)))
        (take 2 (syscalls False small_codec (AppendLog (stored_entry 1))))) cut \<and>
      (loads small_codec cut = disk_loads (disk_do (disk_do empty_disk (SaveState stored_state)) (AppendLog (stored_entry 1))) \<or>
       loads small_codec cut = disk_loads (disk_do empty_disk (SaveState stored_state)))"
proof -
  let ?cut = "\<lparr>f_state = Some (enc_state small_codec stored_state), f_log = Some ''{a'', f_snapshot = None\<rparr>"
  have crash: "crash_may_leave (run_calls (run_calls empty_fs (concat (map (syscalls False small_codec) [SaveState stored_state])))
      (take 2 (syscalls False small_codec (AppendLog (stored_entry 1))))) ?cut"
    by (simp add: crash_may_leave_def empty_fs_def atomicWrite_def fsyncDir_def Let_def open_file_def change_opened_def
        left_of_def statePath_def logPath_def snapshotPath_def numeral_2_eq_2 wal_line_def small_codec_def stored_entry_def upt_rec)
  have "carries small_codec (files_shown empty_fs) empty_disk"
    by (simp add: carries_def files_of_def shown_def empty_fs_def empty_disk_def)
  moreover have "list_all (call_ok small_codec) ([SaveState stored_state] @ [AppendLog (stored_entry 1)])"
    by (simp add: small_codec_ok del: One_nat_def)
  ultimately show ?thesis
    using system_calls_are_atomic[OF settled_empty _ _ crash] crash by (simp add: Let_def del: syscalls.simps) blast
qed

text \<open>C37: A torn line poisons the log: it is dropped when the log is loaded but stays in the file, so the next entry
  is written on the same line. The replica has synced and acknowledged that entry, but another restart
  loses it without an error; and once one more entry is written the log cannot be loaded at all.\<close>
theorem torn_line_loses_next_entry:
  assumes "list_all (call_ok c) done" and "list_all (entry_ok c) [torn, e1, e2]"
    and "0 < k" and "k < length (enc_entry c torn)"
    and "dec_entry c (take k (enc_entry c torn) @ enc_entry c e1) = None"
  shows "let log = d_log (foldl disk_do empty_disk done);
             fs = append_torn c (foldl (files_do c) no_files done) torn k;
             fs1 = fp_appendLog c fs e1;
             fs2 = fp_appendLog c fs1 e2
         in fp_loadLog c fs = Inr log \<and> fp_loadLog c fs1 = Inr log \<and> fp_loadLog c fs2 = Inl (CorruptWalLine (length log))"
proof -
  have ca: "carries c (foldl (files_do c) no_files done) (foldl disk_do empty_disk done)"
    using carries_foldl[OF carries_empty] assms(1) .
  have e: "entry_ok c torn" "entry_ok c e1" "entry_ok c e2" using assms(2) by simp_all
  show ?thesis
    using torn_then_appended[OF ca e(1) assms(3,4) e(2,3) assms(5)] by (simp add: Let_def)
qed

theorem torn_line_loses_next_entry_witness:
  "let fs = append_torn small_codec (files_do small_codec no_files (AppendLog (stored_entry 1))) (stored_entry 2) 1;
       fs1 = fp_appendLog small_codec fs (stored_entry 2)
   in fp_loadLog small_codec fs1 = Inr [stored_entry 1]"
proof -
  have "list_all (call_ok small_codec) [AppendLog (stored_entry 1)]"
    "list_all (entry_ok small_codec) [stored_entry 2, stored_entry 2, stored_entry 3]"
    by (simp_all add: small_codec_ok del: One_nat_def)
  moreover have "1 < length (enc_entry small_codec (stored_entry 2))"
    "dec_entry small_codec (take 1 (enc_entry small_codec (stored_entry 2)) @ enc_entry small_codec (stored_entry 2)) = None"
    by (simp_all add: small_codec_def stored_entry_def)
  ultimately have "let log = d_log (foldl disk_do empty_disk [AppendLog (stored_entry 1)]);
       fs = append_torn small_codec (foldl (files_do small_codec) no_files [AppendLog (stored_entry 1)]) (stored_entry 2) 1;
       fs1 = fp_appendLog small_codec fs (stored_entry 2);
       fs2 = fp_appendLog small_codec fs1 (stored_entry 3)
     in fp_loadLog small_codec fs = Inr log \<and> fp_loadLog small_codec fs1 = Inr log \<and>
        fp_loadLog small_codec fs2 = Inl (CorruptWalLine (length log))"
    by (intro torn_line_loses_next_entry) simp_all
  then show ?thesis by (simp add: Let_def empty_disk_def)
qed

end
