(* ===== verification/Replica_Service.thy ===== *)
theory Replica_Service
  imports Raft_Async
begin

text \<open>
  A replica as a service: its configuration from the environment (\<open>replica/src/config.ts\<close>), the
  node that \<open>createApp\<close> builds from it (\<open>replica/src/index.ts\<close>), and the routes of
  \<open>replica/src/rpcHandlers.ts\<close> with \<open>/health\<close> and \<open>/ready\<close>. Express is left out: a request is a
  value of the datatype of routes, with the body or query the route reads, and the answers that a
  write or read gets from the peers are arguments as in \<open>Raft_Async\<close>. Logging is left out.
\<close>

section \<open>Configuration\<close>

text \<open>A number from the environment; \<open>None\<close> is \<open>NaN\<close>.\<close>
type_synonym js_int = "int option"

type_synonym environment = "string \<rightharpoonup> string"

record replica_config =
  cf_replicaId :: string
  cf_port :: int
  cf_peers :: "url list"
  cf_dataDir :: "string option"
  cf_snapshotThresholdEntries :: "js_int option"
  cf_appendEntriesBatchCap :: "js_int option"
  cf_advertisedUrl :: url

definition show_int :: "int \<Rightarrow> string" where
  "show_int i = (if i < 0 then CHR ''-'' # show_nat (nat (- i)) else show_nat (nat i))"

text \<open>\<open>x || d\<close> for strings, and the optional number of a variable that is set.\<close>
definition js_or :: "string option \<Rightarrow> string \<Rightarrow> string" where
  "js_or x d = (if js_truthy x then the x else d)"

definition env_int :: "environment \<Rightarrow> string \<Rightarrow> js_int option" where
  "env_int env k = (if js_truthy (env k) then Some (js_parseInt (the (env k))) else None)"

definition parseConfig :: "environment \<Rightarrow> string + replica_config" where
  "parseConfig env =
     (if \<not> js_truthy (env ''REPLICA_ID'') then Inl ''REPLICA_ID environment variable is required''
      else
        let rid = the (env ''REPLICA_ID'') in
        case js_parseInt (nullish (env ''PORT'') ''3001'') of
          None \<Rightarrow> Inl ''PORT must be a number''
        | Some prt \<Rightarrow>
            let peersStr = nullish (env ''PEERS'') []
            in Inr \<lparr>cf_replicaId = rid, cf_port = prt,
                 cf_peers = (if peersStr \<noteq> [] then map js_trim (js_split (CHR '','') peersStr) else []),
                 cf_dataDir = (if js_truthy (env ''DATA_DIR'') then env ''DATA_DIR'' else None),
                 cf_snapshotThresholdEntries = env_int env ''SNAPSHOT_THRESHOLD'',
                 cf_appendEntriesBatchCap = env_int env ''APPEND_ENTRIES_BATCH_CAP'',
                 cf_advertisedUrl = js_or (env ''ADVERTISED_URL'') (''http://'' @ rid @ '':'' @ show_int prt)\<rparr>)"

section \<open>Start-up\<close>

text \<open>
  The node's configuration. A threshold or cap that is not a natural number is outside the model
  of the node; the code does not check for it.
\<close>
definition configured_nat :: "js_int option \<Rightarrow> nat \<Rightarrow> nat option" where
  "configured_nat x dflt =
     (case x of None \<Rightarrow> Some dflt | Some None \<Rightarrow> None | Some (Some i) \<Rightarrow> if i < 0 then None else Some (nat i))"

definition node_config_of :: "replica_config \<Rightarrow> node_config option" where
  "node_config_of cfg =
     (case (configured_nat (cf_snapshotThresholdEntries cfg) snapshotThresholdEntries,
            configured_nat (cf_appendEntriesBatchCap cfg) appendEntriesBatchCap) of
        (Some threshold, Some cap) \<Rightarrow>
          Some \<lparr>replicaId = cf_replicaId cfg, peers = cf_peers cfg, selfUrl = cf_advertisedUrl cfg,
                snapshotThreshold = threshold, batchCap = cap\<rparr>
      | _ \<Rightarrow> None)"

text \<open>\<open>createApp\<close>, on the disk of the data directory if there is one, and with the draws of \<open>Math.random\<close>.\<close>
definition createApp :: "replica_config \<Rightarrow> (nat \<Rightarrow> nat) \<Rightarrow> disk \<Rightarrow> raft_node option" where
  "createApp cfg rnd d =
     (case node_config_of cfg of
        None \<Rightarrow> None
      | Some ncfg \<Rightarrow>
          let kind = (if js_truthy (cf_dataDir cfg) then FilePersistence else MemoryPersistence)
          in Some (new_RaftNode ncfg (new_timers (Some (cf_replicaId cfg)) rnd) new_metrics
                     \<lparr>pkind = kind, disk = d, calls = []\<rparr>))"

section \<open>Routes\<close>

datatype request =
    Get_health
  | Get_ready
  | Post_request_vote request_vote_args
  | Post_append_entries append_entries_args
  | Post_heartbeat heartbeat_args
  | Post_sync_log sync_log_args
  | Post_install_snapshot install_snapshot_args
  | Post_client_write stroke
  | Get_status
  | Get_metrics
  | Get_board_state "string option"

datatype body =
    HealthBody string
  | ReadyBody bool node_state "string option"
  | VoteBody request_vote_result
  | AppendBody append_entries_result
  | HeartbeatBody heartbeat_result
  | SyncBody sync_log_result
  | SnapshotBody install_snapshot_result
  | WriteBody client_write_result
  | StatusBody replica_status
  | MetricsBody string
  | ErrorBody string
  | HintBody "url option"
  | StrokesBody string "stroke list"

text \<open>
  What happens to a request that waits: to a write, with the latency it observes, and to a read, with what
  its heartbeats are answered.
\<close>
record peer_answers =
  pa_latency :: nat
  pa_write_wait :: write_wait
  pa_read_wait :: "raft_node \<Rightarrow> raft_node"
  pa_heartbeat :: "url \<Rightarrow> heartbeat_args \<Rightarrow> heartbeat_result option"

definition board_state_reply :: "string \<Rightarrow> read_board_state_result \<Rightarrow> nat \<times> body" where
  "board_state_reply bid result =
     (if \<not> rb_success result then (421, HintBody (rb_leaderHint result))
      else (200, StrokesBody bid (the (rb_strokes result))))"

text \<open>The two routes of \<open>createApp\<close> itself.\<close>
definition health_reply :: "raft_node \<Rightarrow> nat \<times> body" where
  "health_reply n = (200, HealthBody (my_id n))"

definition ready_reply :: "raft_node \<Rightarrow> nat \<times> body" where
  "ready_reply n =
     (let status = getStatus n; ready = isReady n
      in (if ready then 200 else 503, ReadyBody ready (st_state status) (st_leaderId status)))"

definition serve :: "raft_node \<Rightarrow> peer_answers \<Rightarrow> request \<Rightarrow> raft_node \<times> nat \<times> body" where
  "serve n pa req =
     (case req of
        Get_health \<Rightarrow> (n, health_reply n)
      | Get_ready \<Rightarrow> (n, ready_reply n)
      | Post_request_vote args \<Rightarrow> (let (n1, r) = handleRequestVote n args in (n1, 200, VoteBody r))
      | Post_append_entries args \<Rightarrow> (let (n1, r) = handleAppendEntries n args in (n1, 200, AppendBody r))
      | Post_heartbeat args \<Rightarrow> (let (n1, r) = handleHeartbeat n args in (n1, 200, HeartbeatBody r))
      | Post_sync_log args \<Rightarrow> (let (n1, r) = handleSyncLog n args in (n1, 200, SyncBody r))
      | Post_install_snapshot args \<Rightarrow> (let (n1, r) = handleInstallSnapshot n args in (n1, 200, SnapshotBody r))
      | Post_client_write stroke \<Rightarrow>
          (let (n1, r) = handleClientWrite n stroke (pa_latency pa) (pa_write_wait pa) in (n1, 200, WriteBody r))
      | Get_status \<Rightarrow> (n, 200, StatusBody (getStatus n))
      | Get_metrics \<Rightarrow> (n, 200, MetricsBody (renderMetrics (nodeMetrics n) (getStatus n)))
      | Get_board_state q \<Rightarrow>
          if \<not> js_truthy q then (n, 400, ErrorBody ''boardId query parameter required'')
          else (let (n1, result) = readBoardState n (the q) (pa_read_wait pa) (pa_heartbeat pa)
                in (n1, board_state_reply (the q) result)))"

section \<open>Reading numbers back\<close>

lemma digit_char_digit: "d < 10 \<Longrightarrow> is_digit (digit_char d) \<and> of_char (digit_char d) = 48 + d"
  by (simp add: is_digit_def digit_char_def)

lemma digits_value_append: "digits_value (s @ [c]) = 10 * digits_value s + (of_char c - 48)"
  by (simp add: digits_value_def)

lemma show_nat_digits: "show_nat n \<noteq> [] \<and> list_all is_digit (show_nat n) \<and> digits_value (show_nat n) = n"
proof (induction n rule: show_nat.induct)
  case (1 n)
  show ?case
  proof (cases "n < 10")
    case True
    then show ?thesis
      using digit_char_digit[OF True] by (simp add: show_nat.simps[of n] digits_value_def)
  next
    case False
    with 1 digit_char_digit[of "n mod 10"] show ?thesis
      by (simp add: show_nat.simps[of n] digits_value_append)
  qed
qed

lemma digit_not_sign: "is_digit c \<Longrightarrow> \<not> js_space c \<and> c \<noteq> CHR ''-'' \<and> c \<noteq> CHR ''+''"
  by (auto simp: is_digit_def js_space_def)

lemma parseInt_digits:
  assumes "ds \<noteq> []" and "list_all is_digit ds"
  shows "js_parseInt ds = Some (int (digits_value ds))"
proof -
  obtain c cs where ds: "ds = c # cs" using assms(1) by (cases ds) auto
  have c: "is_digit c" using assms(2) ds by simp
  have "takeWhile is_digit ds = ds" using assms(2) by (simp add: takeWhile_eq_all_conv list_all_iff)
  then show ?thesis
    using digit_not_sign[OF c] by (simp add: js_parseInt_def Let_def ds)
qed

lemma parse_show_nat: "js_parseInt (show_nat n) = Some (int n)"
  using show_nat_digits[of n] parseInt_digits[of "show_nat n"] by simp

lemma parse_show_int: "js_parseInt (show_int i) = Some i"
proof (cases "i < 0")
  case True
  have "\<not> js_space (CHR ''-'')" by (simp add: js_space_def)
  moreover have tw: "takeWhile is_digit (show_nat (nat (- i))) = show_nat (nat (- i))"
    using show_nat_digits by (simp add: takeWhile_eq_all_conv list_all_iff)
  ultimately show ?thesis
    using True show_nat_digits[of "nat (- i)"] by (simp add: show_int_def js_parseInt_def Let_def tw)
qed (simp add: show_int_def parse_show_nat)

text \<open>A trailing comma in \<open>PEERS\<close> is a peer: it counts for the majority.\<close>
lemma empty_peer_counts:
  "map_option cf_peers (case parseConfig [''REPLICA_ID'' \<mapsto> ''a'', ''PEERS'' \<mapsto> ''http://b,''] of Inl _ \<Rightarrow> None | Inr c \<Rightarrow> Some c) =
     Some [''http://b'', []]"
  by (simp add: parseConfig_def js_parseInt_def is_digit_def js_trim_def js_space_def Let_def digits_value_def env_int_def)

end
