(* ===== verification/Replica_Process.thy ===== *)
theory Replica_Process
  imports Replica_Service Replica_Machine Votes
begin

text \<open>
  The main module of \<open>replica/src/index.ts\<close>: a replica from its environment to its shutdown, with
  the timers that drive it. The elections that wait for answers are kept beside the node, so that
  the runs (\<open>running\<close>) can say when a timer is set: a replica that is up never falls asleep.
  Listening on a port, the process's exit and logging are left out.
\<close>

section \<open>The main module\<close>

record process =
  pr_node :: raft_node
  pr_elections :: "election list"
  pr_catchUp :: "nat option"

text \<open>\<open>Inl\<close> is the error that \<open>parseConfig\<close> throws; \<open>None\<close> is a configuration outside the model.\<close>
definition main_module :: "environment \<Rightarrow> (nat \<Rightarrow> nat) \<Rightarrow> disk \<Rightarrow> (string + process) option" where
  "main_module env rnd d =
     (case parseConfig env of
        Inl err \<Rightarrow> Some (Inl err)
      | Inr cfg \<Rightarrow>
          map_option (\<lambda>n. Inr \<lparr>pr_node = n, pr_elections = [], pr_catchUp = None\<rparr>) (createApp cfg rnd d))"

text \<open>The callback of \<open>app.listen\<close>, the timeout it sets, and the handler of \<open>SIGTERM\<close> and \<open>SIGINT\<close>.\<close>
definition on_listening :: "process \<Rightarrow> process" where
  "on_listening p = p\<lparr>pr_node := start (pr_node p), pr_catchUp := Some catchUpDelayMs\<rparr>"

definition catch_up_fires :: "(url \<Rightarrow> sync_log_args \<Rightarrow> sync_log_result option) \<Rightarrow> process \<Rightarrow> process" where
  "catch_up_fires ask p = p\<lparr>pr_node := requestCatchUp ask (pr_node p), pr_catchUp := None\<rparr>"

definition shutdown :: "process \<Rightarrow> process" where
  "shutdown p = p\<lparr>pr_node := stop (pr_node p)\<rparr>"

text \<open>
  The callback of the election timer, with the election it begins, and the answer of a peer to
  the vote request of the \<open>k\<close>-th election that waits; an election with no answer left to wait for is gone.
\<close>
definition election_timeout :: "process \<Rightarrow> process" where
  "election_timeout p =
     (let n = (pr_node p)\<lparr>timers := fireElectionTimer (timers (pr_node p))\<rparr>
      in case onElectionTimeout n of
           None \<Rightarrow> p\<lparr>pr_node := n\<rparr>
         | Some (n1, el) \<Rightarrow> p\<lparr>pr_node := n1, pr_elections := pr_elections p @ (if el_pendingReplies el = 0 then [] else [el])\<rparr>)"

definition vote_answer :: "nat \<Rightarrow> request_vote_result option \<Rightarrow> process \<Rightarrow> process" where
  "vote_answer k reply p =
     (let (n, el) = vote_settled (pr_node p) (pr_elections p ! k) reply
      in p\<lparr>pr_node := n,
           pr_elections := take k (pr_elections p) @ (if el_pendingReplies el = 0 then [] else [el]) @ drop (Suc k) (pr_elections p)\<rparr>)"

text \<open>Every other event of the node, a restart aside.\<close>
fun plain_event :: "node_event \<Rightarrow> bool" where
  "plain_event ElectionTimeout \<longleftrightarrow> False"
| "plain_event (VoteSettled el reply) \<longleftrightarrow> False"
| "plain_event (CrashRestart tm m) \<longleftrightarrow> False"
| "plain_event _ \<longleftrightarrow> True"

inductive process_step :: "process \<Rightarrow> process \<Rightarrow> bool" where
  timeout: "electionPending (timers (pr_node p)) \<Longrightarrow> process_step p (election_timeout p)"
| vote: "k < length (pr_elections p) \<Longrightarrow> process_step p (vote_answer k reply p)"
| catch_up: "pr_catchUp p \<noteq> None \<Longrightarrow> process_step p (catch_up_fires ask p)"
| event: "plain_event e \<Longrightarrow> process_step p (p\<lparr>pr_node := deliver (pr_node p) e\<rparr>)"

inductive_cases process_stepE: "process_step p p'"

text \<open>The replicas that are up: started, and not yet told to stop.\<close>
inductive running :: "process \<Rightarrow> bool" where
  up: "main_module env rnd d = Some (Inr p) \<Longrightarrow> running (on_listening p)"
| step: "running p \<Longrightarrow> process_step p p' \<Longrightarrow> running p'"

section \<open>What an operation does to the timers\<close>

text \<open>A node whose timers fit its role: a leader beats, a follower waits.\<close>
definition awake :: "raft_node \<Rightarrow> bool" where
  "awake n \<longleftrightarrow> timers_ok (timers n) \<and> electionCallback (timers n) \<and>
     heartbeatTimer (timers n) = (if state n = Leader then Some heartbeatIntervalMs else None) \<and>
     (state n = Follower \<longrightarrow> electionPending (timers n))"

text \<open>Operations that make no candidate, and take no timer from one.\<close>
definition calm :: "raft_node \<Rightarrow> raft_node \<Rightarrow> bool" where
  "calm n n' \<longleftrightarrow> (awake n \<longrightarrow> awake n' \<and>
     (state n' = Candidate \<longrightarrow> state n = Candidate \<and> currentTerm n' = currentTerm n \<and>
        (electionPending (timers n) \<longrightarrow> electionPending (timers n'))))"

lemma calm_refl [simp]: "calm n n"
  by (simp add: calm_def)

lemma calm_trans: "calm n n' \<Longrightarrow> calm n' n'' \<Longrightarrow> calm n n''"
  by (auto simp: calm_def)

lemma calm_same:
  "state n' = state n \<Longrightarrow> currentTerm n' = currentTerm n \<Longrightarrow> timers n' = timers n \<Longrightarrow> calm n n'"
  by (simp add: calm_def awake_def)

lemma calm_reset: "calm n (n\<lparr>timers := resetElectionTimer (timers n)\<rparr>)"
  by (simp add: calm_def awake_def tm.reset)

lemma becomeFollower_timers:
  "state (becomeFollower n t l a) = Follower"
  "timers (becomeFollower n t l a) =
     resetElectionTimer (if state n = Leader then stopHeartbeat (timers n) else timers n)"
  by (simp_all add: becomeFollower_def Let_def)

lemma calm_becomeFollower: "calm n (becomeFollower n t l a)"
  using tm.follows[of "timers n" "state n = Leader"] by (simp add: calm_def awake_def becomeFollower_timers)

lemma calm_accept_leader: "calm n (accept_leader n t l a)"
proof -
  have "calm n (m\<lparr>timers := resetElectionTimer (timers m)\<rparr>)" if "state m = state n" "currentTerm m = currentTerm n" "timers m = timers n" for m
    by (rule calm_trans[OF calm_same[OF that] calm_reset])
  then show ?thesis by (simp add: accept_leader_def calm_becomeFollower Let_def)
qed

lemma calm_step_down: "calm n (if c then becomeFollower n t l a else n)"
  by (simp add: calm_becomeFollower)

lemma calm_handleRequestVote: "calm n (fst (handleRequestVote n args))"
proof -
  let ?m = "if rv_term args > currentTerm n then becomeFollower n (rv_term args) None None else n"
  have "calm ?m (m'\<lparr>timers := resetElectionTimer (timers m')\<rparr>)"
    if "state m' = state ?m" "currentTerm m' = currentTerm ?m" "timers m' = timers ?m" for m'
    by (rule calm_trans[OF calm_same[OF that] calm_reset])
  then have "calm ?m (fst (handleRequestVote n args))"
    by (auto simp: handleRequestVote_def Let_def)
  with calm_step_down show ?thesis by (rule calm_trans)
qed

lemma calm_after_leader:
  "state n' = state (accept_leader n t l a) \<Longrightarrow> currentTerm n' = currentTerm (accept_leader n t l a) \<Longrightarrow>
   timers n' = timers (accept_leader n t l a) \<Longrightarrow> calm n n'"
  by (rule calm_trans[OF calm_accept_leader calm_same])

lemma calm_handleAppendEntries: "calm n (fst (handleAppendEntries n args))"
  by (auto simp: handleAppendEntries_def Let_def intro: calm_after_leader split: sum.split)

lemma calm_handleHeartbeat: "calm n (fst (handleHeartbeat n args))"
  by (auto simp: handleHeartbeat_def Let_def intro: calm_after_leader)

lemma calm_handleInstallSnapshot: "calm n (fst (handleInstallSnapshot n args))"
  by (auto simp: handleInstallSnapshot_def Let_def intro: calm_after_leader)

lemma calm_handleSyncLog: "calm n (fst (handleSyncLog n args))"
  by (simp add: handleSyncLog_def Let_def calm_becomeFollower split: option.split)

lemma calm_updateCommitIndex: "calm n (updateCommitIndex n)"
  by (rule calm_same) (simp_all add: updateCommitIndex_def split: option.split)

lemma calm_replication_settled: "calm n (replication_settled n peer r outcome)"
proof -
  have "calm n (m\<lparr>replicating := q\<rparr>)" if "calm n m" for m q
    by (rule calm_trans[OF that]) (simp add: calm_same)
  then show ?thesis
    by (auto simp: replication_settled_def appendEntries_settled_def installSnapshot_settled_def Let_def
        calm_becomeFollower intro: calm_same split: replication.split rpc_outcome.split)
qed

lemma calm_drive_peers: "calm n (fst (drive_peers n ps))"
proof -
  have "state (fst (drive_peers n ps)) = state n \<and> currentTerm (fst (drive_peers n ps)) = currentTerm n \<and>
      timers (fst (drive_peers n ps)) = timers n"
    by (induction ps arbitrary: n) (simp_all add: split_beta driveReplication_def Let_def)
  then show ?thesis by (simp add: calm_same)
qed

lemma calm_confirm_loop: "calm n (fst (confirm_loop n results acks))"
  by (induction n results acks rule: confirm_loop.induct) (simp_all add: calm_becomeFollower)

lemma calm_catch_up_apply: "calm n (catch_up_apply n r)"
proof -
  let ?n = "if currentTerm n < slr_term r then becomeFollower n (slr_term r) None None else n"
  have "calm ?n (catch_up_apply n r)"
    by (rule calm_same) (simp_all add: catch_up_apply_def Let_def split: option.split)
  with calm_step_down show ?thesis by (rule calm_trans)
qed

lemma calm_requestCatchUp: "calm n (requestCatchUp ask n)"
proof -
  have "calm n (catch_up_from ask n ts)" for ts
    by (induction ts) (simp_all add: calm_catch_up_apply split: option.split)
  then show ?thesis by (simp add: requestCatchUp_def)
qed

lemma calm_deliver: "plain_event e \<Longrightarrow> calm n (deliver n e)"
proof (cases e)
  case (ClientWrite stroke)
  then show ?thesis by (auto simp: client_write_begin_def Let_def intro: calm_same split: sum.split)
next
  case (WriteRoundSettled i latency)
  have "calm n ((updateCommitIndex n)\<lparr>nodeMetrics := m\<rparr>)" for m
    by (rule calm_trans[OF calm_updateCommitIndex]) (simp add: calm_same)
  with WriteRoundSettled show ?thesis by (simp add: client_write_check_def Let_def)
qed (simp_all add: calm_handleRequestVote calm_handleAppendEntries calm_handleHeartbeat calm_handleInstallSnapshot
    calm_handleSyncLog sendHeartbeats_begin_def calm_drive_peers calm_replication_settled sendHeartbeats_end_def
    calm_updateCommitIndex confirmLeadership_end_def split_beta calm_confirm_loop calm_catch_up_apply)

section \<open>Elections\<close>

text \<open>An election of the current term that has not been decided.\<close>
definition undecided :: "raft_node \<Rightarrow> election \<Rightarrow> bool" where
  "undecided n el \<longleftrightarrow> \<not> el_settled el \<and> rv_term (el_args el) = currentTerm n"

text \<open>
  The invariant of the process: its timers fit its role, a candidate waits for a timer or for an
  undecided election, and an election that is kept waits for an answer.
\<close>
definition alert :: "process \<Rightarrow> bool" where
  "alert p \<longleftrightarrow> awake (pr_node p) \<and>
     (state (pr_node p) = Candidate \<longrightarrow>
        electionPending (timers (pr_node p)) \<or> (\<exists>el\<in>set (pr_elections p). undecided (pr_node p) el)) \<and>
     (\<forall>el\<in>set (pr_elections p). 0 < el_pendingReplies el)"

lemma alert_calm:
  assumes "alert p" and "calm (pr_node p) n"
  shows "alert (p\<lparr>pr_node := n, pr_catchUp := t\<rparr>)" and "alert (p\<lparr>pr_node := n\<rparr>)"
  using assms by (auto simp: alert_def calm_def undecided_def)

text \<open>What the end of an election, or one answer to it, does: it leaves no candidate without a timer
  unless the election stays undecided.\<close>
definition attends :: "raft_node \<times> election \<Rightarrow> raft_node \<times> election \<Rightarrow> bool" where
  "attends x y \<longleftrightarrow> (awake (fst x) \<longrightarrow> awake (fst y) \<and>
     (state (fst y) = Candidate \<longrightarrow> state (fst x) = Candidate \<and> currentTerm (fst y) = currentTerm (fst x) \<and>
        (electionPending (timers (fst x)) \<longrightarrow> electionPending (timers (fst y))) \<and>
        (undecided (fst x) (snd x) \<longrightarrow> undecided (fst y) (snd y) \<or> electionPending (timers (fst y)))))"

lemma attends_refl [simp]: "attends x x"
  by (simp add: attends_def)

lemma attends_trans: "attends x y \<Longrightarrow> attends y z \<Longrightarrow> attends x z"
  by (auto simp: attends_def)

lemma attends_count [simp]:
  "attends x (n, el\<lparr>el_votesGranted := v\<rparr>) = attends x (n, el)"
  "attends x (n, el\<lparr>el_pendingReplies := v\<rparr>) = attends x (n, el)"
  "attends (n, el\<lparr>el_votesGranted := v\<rparr>) y = attends (n, el) y"
  "attends (n, el\<lparr>el_pendingReplies := v\<rparr>) y = attends (n, el) y"
  by (simp_all add: attends_def undecided_def)

lemma awake_becomeLeader: "awake n \<Longrightarrow> awake (becomeLeader n)"
  using tm.leads[of "timers n"] by (simp add: awake_def becomeLeader_def Let_def)

lemma attends_finalizeElection: "attends (n, el) (finalizeElection n el)" "el_settled (snd (finalizeElection n el))"
  using calm_reset[of n] awake_becomeLeader[of n]
  by (auto simp: finalizeElection_def attends_def calm_def undecided_def tm.reset awake_def[of n])

lemma attends_later: "attends (n, el) (finalizeElection (becomeFollower n t l a) el)"
proof -
  have "attends (n, el) (becomeFollower n t l a, el)"
    using calm_becomeFollower[of n t l a] by (simp add: attends_def calm_def becomeFollower_timers)
  then show ?thesis using attends_finalizeElection(1) attends_trans by blast
qed

lemma attends_vote_then: "attends (n, el) (vote_then n el r)"
  using attends_finalizeElection(1)[of n "el\<lparr>el_votesGranted := el_votesGranted el + 1\<rparr>"]
  by (simp add: vote_then_def Let_def attends_later)

lemma attends_vote_settled:
  assumes "vote_settled n el reply = (n', el')"
  shows "attends (n, el) (n', el')" and "el_pendingReplies el' = 0 \<Longrightarrow> el_settled el'"
proof -
  obtain n1 el1 where first: "(case reply of None \<Rightarrow> (n, el) | Some r \<Rightarrow> vote_then n el r) = (n1, el1)"
    and last: "vote_finally n1 el1 = (n', el')"
    using assms by (auto simp: vote_settled_def split: prod.splits)
  have "attends (n, el) (n1, el1)"
    using first attends_vote_then[of n el "the reply"] by (cases reply) simp_all
  moreover have "attends (n1, el1) (n', el')"
    using last attends_finalizeElection(1)[of n1 "el1\<lparr>el_pendingReplies := el_pendingReplies el1 - 1\<rparr>"]
    by (auto simp: vote_finally_def Let_def split: if_splits)
  ultimately show "attends (n, el) (n', el')" by (rule attends_trans)
  show "el_pendingReplies el' = 0 \<Longrightarrow> el_settled el'"
    using last attends_finalizeElection(2)[of n1 "el1\<lparr>el_pendingReplies := el_pendingReplies el1 - 1\<rparr>"]
    by (auto simp: vote_finally_def Let_def split: if_splits)
qed

lemma alert_vote_answer:
  assumes "alert p" and "k < length (pr_elections p)"
  shows "alert (vote_answer k reply p)"
proof -
  let ?n = "pr_node p" and ?els = "pr_elections p"
  obtain n' el' where v: "vote_settled ?n (?els ! k) reply = (n', el')" by fastforce
  note a = attends_vote_settled[OF v]
  define others where "others = set (take k ?els) \<union> set (drop (Suc k) ?els)"
  have els: "set ?els = insert (?els ! k) others"
    unfolding others_def by (subst id_take_nth_drop[OF assms(2)]) auto
  have n': "awake n'" "state n' = Candidate \<Longrightarrow> state ?n = Candidate \<and> currentTerm n' = currentTerm ?n \<and>
      (electionPending (timers ?n) \<longrightarrow> electionPending (timers n')) \<and>
      (undecided ?n (?els ! k) \<longrightarrow> undecided n' el' \<or> electionPending (timers n'))"
    using a(1) assms(1) by (simp_all add: attends_def alert_def)
  have "electionPending (timers n') \<or> (\<exists>el \<in> others. undecided n' el) \<or> undecided n' el'"
    if c: "state n' = Candidate"
  proof (cases "electionPending (timers ?n)")
    case False
    then obtain el where "el \<in> set ?els" "undecided ?n el"
      using assms(1) n'(2)[OF c] by (auto simp: alert_def)
    then show ?thesis using els n'(2)[OF c] by (auto simp: undecided_def)
  qed (use n'(2)[OF c] in simp)
  moreover have "set (pr_elections (vote_answer k reply p)) = others \<union> (if el_pendingReplies el' = 0 then {} else {el'})"
    by (auto simp: vote_answer_def v others_def)
  moreover have "\<forall>el \<in> others. 0 < el_pendingReplies el"
    using assms(1) els by (simp add: alert_def)
  moreover have "pr_node (vote_answer k reply p) = n'" by (simp add: vote_answer_def v)
  ultimately show ?thesis
    using n'(1) a(2) by (auto simp: alert_def undecided_def)
qed

lemma alert_election_timeout:
  assumes "alert p"
  shows "alert (election_timeout p)"
proof (cases "state (pr_node p) = Leader")
  case True
  then show ?thesis
    using assms tm.fired[of "timers (pr_node p)"]
    by (simp add: election_timeout_def onElectionTimeout_def alert_def awake_def tm.beats_kept)
next
  case False
  let ?n = "(pr_node p)\<lparr>timers := fireElectionTimer (timers (pr_node p))\<rparr>"
  let ?c = "becomeCandidate ?n"
  have t: "timers_ok (timers ?n)" "electionCallback (timers ?n)" "heartbeatTimer (timers ?n) = None"
    using assms False tm.fired[of "timers (pr_node p)"] by (simp_all add: alert_def awake_def tm.quiet_kept)
  have c: "state ?c = Candidate" "timers ?c = timers ?n"
    by (simp_all add: becomeCandidate_def Let_def)
  have awake: "awake ?c" using t c by (simp add: awake_def)
  obtain n' el where r: "runElection ?n = (n', el)" by fastforce
  have p': "election_timeout p = p\<lparr>pr_node := n', pr_elections := pr_elections p @ (if el_pendingReplies el = 0 then [] else [el])\<rparr>"
    using False r by (simp add: election_timeout_def onElectionTimeout_def)
  show ?thesis
  proof (cases "my_peers ?c = []")
    case True
    then have "el_pendingReplies el = 0" "n' = becomeLeader ?c"
      using r c by (auto simp: runElection_def Let_def finalizeElection_def majority_def)
    then show ?thesis
      using assms p' awake_becomeLeader[OF awake] by (simp add: alert_def)
  next
    case False
    then have "n' = ?c" "undecided n' el" "0 < el_pendingReplies el"
      using r by (auto simp: runElection_def Let_def undecided_def)
    then show ?thesis
      using assms p' awake by (auto simp: alert_def)
  qed
qed

lemma alert_step: "process_step p p' \<Longrightarrow> alert p \<Longrightarrow> alert p'"
  by (elim process_stepE) (simp_all add: alert_election_timeout alert_vote_answer alert_calm calm_deliver
      calm_requestCatchUp catch_up_fires_def)

lemma alert_up:
  assumes "main_module env rnd d = Some (Inr p)"
  shows "alert (on_listening p)"
proof -
  obtain cfg n where n: "createApp cfg rnd d = Some n" and p: "p = \<lparr>pr_node = n, pr_elections = [], pr_catchUp = None\<rparr>"
    using assms by (auto simp: main_module_def split: sum.splits)
  have "state n = Follower" "timers n = new_timers (Some (cf_replicaId cfg)) rnd"
    using n by (auto simp: createApp_def Let_def new_RaftNode_opened opened_def split: option.splits)
  then have "awake (start n)"
    using tm.started[of "timers n"] by (simp add: awake_def start_def) (simp add: new_timers_def)
  moreover have "state (start n) = Follower" using \<open>state n = Follower\<close> by (simp add: start_def)
  ultimately show ?thesis by (simp add: alert_def on_listening_def p)
qed

lemma alert_running: "running p \<Longrightarrow> alert p"
  by (induction rule: running.induct) (auto intro: alert_up alert_step)


section \<open>A running replica\<close>

text \<open>C15: A replica that is up never falls asleep. Whatever it receives and however its elections end,
  a leader has its heartbeat timer set, and any other replica has none and will campaign: its
  election timer is pending, or it is a candidate with an election of its term that is undecided and
  still waits for an answer.\<close>
theorem running_replica_never_sleeps:
  assumes "running p"
  shows "heartbeatTimer (timers (pr_node p)) =
      (if state (pr_node p) = Leader then Some heartbeatIntervalMs else None) \<and>
    (state (pr_node p) = Leader \<or> electionPending (timers (pr_node p)) \<or>
     state (pr_node p) = Candidate \<and>
       (\<exists>el\<in>set (pr_elections p). \<not> el_settled el \<and> rv_term (el_args el) = currentTerm (pr_node p) \<and> 0 < el_pendingReplies el))"
proof -
  have "alert p" using assms by (rule alert_running)
  then show ?thesis by (cases "state (pr_node p)") (auto simp: alert_def awake_def undecided_def)
qed

definition sample_env :: environment where
  "sample_env = [''REPLICA_ID'' \<mapsto> ''a'', ''DATA_DIR'' \<mapsto> ''d'', ''PEERS'' \<mapsto> ''b,c'']"

definition booted :: raft_node where
  "booted = new_RaftNode
     \<lparr>replicaId = ''a'', peers = [''b'', ''c''], selfUrl = ''http://a:3001'', snapshotThreshold = 500, batchCap = 128\<rparr>
     (new_timers (Some ''a'') (\<lambda>i. 0)) new_metrics \<lparr>pkind = FilePersistence, disk = empty_disk, calls = []\<rparr>"

definition sample_process :: process where
  "sample_process = on_listening \<lparr>pr_node = booted, pr_elections = [], pr_catchUp = None\<rparr>"

lemma sample_main: "main_module sample_env (\<lambda>i. 0) empty_disk = Some (Inr \<lparr>pr_node = booted, pr_elections = [], pr_catchUp = None\<rparr>)"
proof -
  have "parseConfig sample_env = Inr \<lparr>cf_replicaId = ''a'', cf_port = 3001, cf_peers = [''b'', ''c''], cf_dataDir = Some ''d'',
      cf_snapshotThresholdEntries = None, cf_appendEntriesBatchCap = None, cf_advertisedUrl = ''http://a:3001''\<rparr>"
    by (simp add: parseConfig_def sample_env_def js_parseInt_def is_digit_def js_trim_def js_space_def Let_def
        digits_value_def env_int_def js_or_def show_int_def show_nat.simps digit_char_def) code_simp
  then show ?thesis
    by (simp add: main_module_def createApp_def node_config_of_def configured_nat_def booted_def raft_timing)
qed

lemma running_sample: "running sample_process"
  unfolding sample_process_def by (rule running.up[OF sample_main])

lemma booted_facts: "state booted = Follower" "currentTerm booted = 0" "my_peers booted = [''b'', ''c'']"
  by (simp_all add: booted_def new_RaftNode_opened) (simp_all add: opened_def persistence_ops empty_disk_def)

text \<open>The replica after its first election timeout.\<close>
definition campaigning :: process where
  "campaigning = election_timeout sample_process"

lemma running_campaigning: "running campaigning"
proof -
  have "state (pr_node sample_process) = Follower"
    using booted_facts by (simp add: sample_process_def on_listening_def start_def)
  then have "electionPending (timers (pr_node sample_process))"
    using alert_running[OF running_sample] by (simp add: alert_def awake_def)
  then show ?thesis
    unfolding campaigning_def by (rule running.step[OF running_sample process_step.timeout])
qed

lemma campaigning_state: "state (pr_node campaigning) = Candidate"
proof -
  have "my_peers (becomeCandidate n) = my_peers n" "state (becomeCandidate n) = Candidate" for n
    by (simp_all add: becomeCandidate_def Let_def)
  then show ?thesis
    using booted_facts by (simp add: campaigning_def election_timeout_def onElectionTimeout_def runElection_def
        sample_process_def on_listening_def start_def Let_def)
qed

theorem running_replica_never_sleeps_witness:
  "state (pr_node campaigning) = Candidate \<and> heartbeatTimer (timers (pr_node campaigning)) = None \<and>
   (electionPending (timers (pr_node campaigning)) \<or> list_ex (\<lambda>el. 0 < el_pendingReplies el) (pr_elections campaigning))"
  using running_replica_never_sleeps[OF running_campaigning] campaigning_state by (auto simp: list_ex_iff)

section \<open>Shutdown\<close>

text \<open>The shutdown is undone by the next message of a leader. \<open>stop\<close> clears both timers, as its
  comment says, but the callback of the election timer stays: a heartbeat on a connection that is
  still open sets the timer again, and the stopped replica will campaign.\<close>
theorem shutdown_is_undone:
  assumes "running p" and "currentTerm (pr_node p) \<le> hb_term args"
  shows "\<not> electionPending (timers (pr_node (shutdown p))) \<and> heartbeatTimer (timers (pr_node (shutdown p))) = None \<and>
    electionPending (timers (deliver (pr_node (shutdown p)) (Heartbeat args)))"
proof -
  let ?n = "pr_node (shutdown p)" and ?t = "timers (pr_node p)"
  have ready: "timers_ok ?t \<and> electionCallback ?t"
    using alert_running[OF assms(1)] by (simp add: alert_def awake_def)
  have t: "timers ?n = stopHeartbeat (stopElectionTimer ?t)" "currentTerm ?n = currentTerm (pr_node p)"
    by (simp_all add: shutdown_def stop_def)
  have "stopHeartbeat (timers ?n) = timers ?n" by (simp add: t stopHeartbeat_def)
  then have "electionPending (timers (accept_leader ?n (hb_term args) (hb_leaderId args) (hb_leaderAddr args)))"
    using t tm.revived[OF ready] by (simp add: accept_leader_def becomeFollower_timers Let_def)
  then show ?thesis
    using assms(2) t tm.halts[OF ready] by (simp add: handleHeartbeat_def Let_def)
qed

theorem shutdown_is_undone_witness:
  "electionPending (timers (deliver (pr_node (shutdown sample_process))
     (Heartbeat \<lparr>hb_term = 1, hb_leaderId = ''b'', hb_leaderAddr = None, hb_leaderCommit = 0\<rparr>)))"
proof -
  have "currentTerm (pr_node sample_process) = 0"
    using booted_facts by (simp add: sample_process_def on_listening_def start_def)
  then show ?thesis
    using shutdown_is_undone[OF running_sample, of "\<lparr>hb_term = 1, hb_leaderId = ''b'', hb_leaderAddr = None, hb_leaderCommit = 0\<rparr>"]
    by simp
qed

end
