(* ===== verification/Convergence.thy ===== *)
theory Convergence
  imports Leader_Props
begin

text \<open>
  How a follower that has fallen behind catches up: the rounds of \<open>driveReplication\<close> between a
  leader and one follower, when every message arrives and nothing else happens meanwhile. As long as
  the follower's log is a beginning of the leader's and no snapshot is due, the rounds end with the
  same log, commit index and boards on both, after a number of rounds that the length of the log and
  the batch cap bound.
\<close>

section \<open>Rounds\<close>

text \<open>One round: what the leader sends to \<open>v\<close>, answered by the follower, and settled.\<close>
definition catch_up_round :: "url \<Rightarrow> raft_node \<times> raft_node \<Rightarrow> raft_node \<times> raft_node" where
  "catch_up_round v p =
     (let (n, f) = p;
          (n1, sent) = driveReplication n v
      in case sent of
           NoSend \<Rightarrow> (n1, f)
         | SendAppend i args \<Rightarrow>
             (let (f', r) = handleAppendEntries f args
              in (replication_settled n1 v sent (AppendResult r), f'))
         | SendSnapshot args \<Rightarrow>
             (let (f', r) = handleInstallSnapshot f args
              in (replication_settled n1 v sent (SnapshotResult r), f')))"

text \<open>
  A follower \<open>f\<close> at \<open>v\<close> that lags behind a leader: its log is a beginning of the leader's, nobody has
  compacted and nobody will, and what the leader believes of the peer is not beyond its own log.
\<close>
definition lags :: "raft_node \<Rightarrow> url \<Rightarrow> raft_node \<Rightarrow> bool" where
  "lags n v f \<longleftrightarrow>
     state n = Leader \<and> v \<notin> replicating n \<and> currentTerm f \<le> currentTerm n \<and> 0 < batchCap (config n) \<and>
     lastIncludedIndex (raftLog n) = 0 \<and> lastIncludedIndex (raftLog f) = 0 \<and> loadSnapshot (store n) = None \<and> loadSnapshot (store f) = None \<and>
     getLastIndex (raftLog n) < snapshotThreshold (config f) \<and>
     entries (raftLog f) = take (getLastIndex (raftLog f)) (entries (raftLog n)) \<and>
     commitIndex f \<le> commitIndex n \<and>
     1 \<le> nullish (nextIndex n v) (getLastIndex (raftLog n) + 1) \<and>
     nullish (nextIndex n v) (getLastIndex (raftLog n) + 1) \<le> getLastIndex (raftLog n) + 1 \<and>
     nullish (matchIndex n v) 0 \<le> getLastIndex (raftLog n)"

section \<open>Merging a beginning of the leader's log\<close>

lemma ae_loop_prefix:
  assumes "lastIncludedIndex l = 0" and "entries l = take k E" and "k \<le> length E" and "s \<le> k"
    and "\<forall>j < length E. e_index (E ! j) = Suc j"
  shows "\<exists>l'. ae_loop 0 commit (take c (drop s E)) l = Inr l' \<and> lastIncludedIndex l' = 0 \<and>
    entries l' = take (max k (s + length (take c (drop s E)))) E \<and>
    pkind (persistence l') = pkind (persistence l) \<and> loadSnapshot (persistence l') = loadSnapshot (persistence l)"
  using assms(1-4)
proof (induction c arbitrary: l k s)
  case 0
  then show ?case by (simp add: max_absorb1)
next
  case (Suc c)
  show ?case
  proof (cases "s < length E")
    case False
    with Suc.prems show ?thesis by (simp add: max_absorb1)
  next
    case True
    let ?e = "E ! s"
    have es: "take (Suc c) (drop s E) = ?e # take c (drop (Suc s) E)"
      using True by (simp add: Cons_nth_drop_Suc[symmetric])
    have i: "e_index ?e = Suc s" using assms(5) True by simp
    show ?thesis
    proof (cases "s < k")
      case present: True
      have g: "getEntry l (e_index ?e) = Some ?e"
        using Suc.prems present i by (simp add: getEntry_def js_at_def)
      from Suc.IH[OF Suc.prems(1-3), of "Suc s"] present g i show ?thesis
        by (simp add: es rl.place_present)
    next
      case False
      with Suc.prems(4) have k: "k = s" by simp
      have g: "getEntry l (e_index ?e) = None"
        using Suc.prems k i True by (simp add: getEntry_def js_at_def)
      then have pl: "place l ?e = log_append l ?e" by (rule rl.place_absent)
      have "entries (log_append l ?e) = take (Suc s) E"
        using Suc.prems(2) k True by (simp add: log_append_def take_Suc_conv_app_nth)
      from Suc.IH[OF _ this, of "Suc s"] True Suc.prems(1) g i pl k place_store[of l ?e] show ?thesis
        by (auto simp: es max_def)
    qed
  qed
qed

lemma loadSnapshot_saveState [simp]: "loadSnapshot (saveState p s) = loadSnapshot p"
  by (cases "pkind p") (simp_all add: persistence_ops)

lemma follow_commit_quiet:
  assumes "commitIndex n \<le> getLastIndex (raftLog n)" and "lastIncludedIndex (raftLog n) = 0"
    and "getLastIndex (raftLog n) < snapshotThreshold (config n)"
  shows "entries (raftLog (follow_commit n c)) = entries (raftLog n)"
    and "lastIncludedIndex (raftLog (follow_commit n c)) = 0"
    and "loadSnapshot (store (follow_commit n c)) = loadSnapshot (store n)"
    and "pkind (store (follow_commit n c)) = pkind (store n)"
  using assms by (auto simp: follow_commit_def applyCommitted_def maybeSnapshot_def persistState_def)


lemma accept_leader_snapshot [simp]: "loadSnapshot (store (accept_leader n t l a)) = loadSnapshot (store n)"
  by (simp add: accept_leader_def becomeFollower_def persistState_def Let_def)

section \<open>One round\<close>

definition next_of :: "raft_node \<Rightarrow> url \<Rightarrow> nat" where
  "next_of n v = nullish (nextIndex n v) (getLastIndex (raftLog n) + 1)"

text \<open>What a round leaves as it is.\<close>
definition same_leader :: "raft_node \<Rightarrow> raft_node \<Rightarrow> bool" where
  "same_leader n n' \<longleftrightarrow> (\<exists>ni mi. n' = n\<lparr>nextIndex := ni, matchIndex := mi\<rparr>)"

lemma catch_up_round_settled:
  assumes "lags n v f" and "replicateOnce n v = SendAppend i args"
    and "handleAppendEntries f args = (f', r)" and "aer_term r \<le> currentTerm n"
  shows "catch_up_round v (n, f) = (appendEntries_settled n v i args r, f')"
proof -
  have v: "v \<notin> replicating n" using assms(1) by (simp add: lags_def)
  then have d: "driveReplication n v = (n\<lparr>replicating := insert v (replicating n)\<rparr>, SendAppend i args)"
    using assms(2) by (simp add: driveReplication_def)
  have "(n\<lparr>replicating := insert v (replicating n) - {v}\<rparr>) = n" using v by simp
  then show ?thesis
    using assms(3,4) d v by (auto simp: catch_up_round_def replication_settled_def appendEntries_settled_def Let_def)
qed

text \<open>The message of a lagging follower's round, and the follower after it took its sender for the leader.\<close>
definition round_args :: "raft_node \<Rightarrow> url \<Rightarrow> append_entries_args" where
  "round_args n v =
     \<lparr>ae_term = currentTerm n, ae_leaderId = my_id n, ae_leaderAddr = Some (selfUrl (config n)),
      ae_prevLogIndex = next_of n v - 1, ae_prevLogTerm = getTermAt (raftLog n) (next_of n v - 1),
      ae_entries = take (batchCap (config n)) (drop (next_of n v - 1) (entries (raftLog n))),
      ae_leaderCommit = commitIndex n\<rparr>"

lemma lags_sends: "lags n v f \<Longrightarrow> replicateOnce n v = SendAppend (next_of n v) (round_args n v)"
  by (auto simp: lags_def replicateOnce_def next_of_def round_args_def getEntriesFrom_def js_slice_def Let_def)

abbreviation told :: "raft_node \<Rightarrow> raft_node \<Rightarrow> raft_node" where
  "told n f \<equiv> accept_leader f (currentTerm n) (my_id n) (Some (selfUrl (config n)))"

lemma round_args_wf:
  assumes "lags n v f" and "node_inv n"
  shows "ae_wf (round_args n v)"
proof -
  have "log_wf (raftLog n)" and "lastIncludedIndex (raftLog n) < next_of n v"
    using assms by (auto simp: node_inv_def log_inv_def lags_def next_of_def)
  from entries_from_getEntriesFrom[OF this, of "batchCap (config n)"] assms(1)
  show ?thesis
    by (auto simp: ae_wf_def round_args_def lags_def next_of_def getEntriesFrom_def js_slice_def Let_def)
qed

lemma round_refused:
  assumes "lags n v f" and "getLastIndex (raftLog f) < next_of n v - 1"
  shows "handleAppendEntries f (round_args n v) = (told n f, append_reply (told n f) False)"
proof -
  have "getEntry (raftLog f) (next_of n v - 1) = None"
    using assms(2) by (simp add: getEntry_None_iff)
  then have "\<not> log_consistent (raftLog (told n f)) (round_args n v)"
    using assms by (auto simp: log_consistent_def round_args_def lags_def Let_def)
  then show ?thesis
    using assms(1) by (simp add: handleAppendEntries_def round_args_def lags_def Let_def)
qed

lemma lags_entry:
  assumes "lags n v f" and "0 < j" and "j \<le> getLastIndex (raftLog f)"
  shows "getEntry (raftLog f) j = getEntry (raftLog n) j"
proof -
  let ?k = "getLastIndex (raftLog f)"
  have e: "entries (raftLog f) = take ?k (entries (raftLog n))" and b: "lastIncludedIndex (raftLog f) = 0" "lastIncludedIndex (raftLog n) = 0"
    using assms(1) by (simp_all add: lags_def)
  have "getEntry (raftLog f) j = js_at (take ?k (entries (raftLog n))) (j - 1)"
    using assms(2) b e by (simp add: getEntry_def)
  also have "\<dots> = js_at (entries (raftLog n)) (j - 1)"
  proof -
    have "j - 1 < ?k" using assms(2,3) by linarith
    then show ?thesis by (simp add: js_at_take)
  qed
  also have "\<dots> = getEntry (raftLog n) j"
    using assms(2) b by (simp add: getEntry_def)
  finally show ?thesis .
qed

lemma round_consistent:
  assumes "lags n v f" and "next_of n v - 1 \<le> getLastIndex (raftLog f)"
  shows "log_consistent (raftLog (told n f)) (round_args n v)"
proof (cases "next_of n v - 1 = 0")
  case True
  with assms(1) show ?thesis by (simp add: log_consistent_def round_args_def lags_def Let_def)
next
  case False
  have b: "lastIncludedIndex (raftLog f) = 0" "lastIncludedIndex (raftLog n) = 0"
    using assms(1) by (simp_all add: lags_def)
  obtain e where e: "getEntry (raftLog f) (next_of n v - 1) = Some e"
    using getEntry_Some_iff[of "raftLog f" "next_of n v - 1"] False assms(2) b by auto
  moreover have "getEntry (raftLog n) (next_of n v - 1) = Some e"
    using lags_entry[OF assms(1) _ assms(2)] False e by simp
  ultimately show ?thesis
    using False b by (simp add: log_consistent_def round_args_def getTermAt_def Let_def)
qed

lemma round_accepted:
  assumes "lags n v f" and "node_inv n" and "next_of n v - 1 \<le> getLastIndex (raftLog f)"
  obtains l where "handleAppendEntries f (round_args n v) =
      (let f' = follow_commit ((told n f)\<lparr>raftLog := l\<rparr>) (commitIndex n) in (f', append_reply f' True))"
    and "lastIncludedIndex l = 0" and "loadSnapshot (persistence l) = None"
    and "pkind (persistence l) = pkind (store f)"
    and "entries l = take (max (getLastIndex (raftLog f)) (next_of n v - 1 + length (ae_entries (round_args n v)))) (entries (raftLog n))"
proof -
  let ?E = "entries (raftLog n)" and ?f = "told n f"
  have b: "lastIncludedIndex (raftLog n) = 0" "lastIncludedIndex (raftLog f) = 0" "loadSnapshot (store f) = None"
    and e: "entries (raftLog f) = take (getLastIndex (raftLog f)) ?E"
    and t: "\<not> currentTerm n < currentTerm f"
    using assms(1) by (simp_all add: lags_def)
  have "log_wf (raftLog n)" using assms(2) by (simp add: node_inv_def log_inv_def)
  then have idx: "\<forall>j < length ?E. e_index (?E ! j) = Suc j" using b by (simp add: log_wf_def)
  have "length (entries (raftLog f)) = getLastIndex (raftLog f)" using b by (simp add: getLastIndex_def)
  then have k: "getLastIndex (raftLog f) \<le> length ?E" using e by (metis length_take min.cobounded1)
  have lf: "lastIncludedIndex (raftLog ?f) = 0" "entries (raftLog ?f) = take (getLastIndex (raftLog f)) ?E"
    using b e by simp_all
  obtain l where l: "ae_loop 0 (commitIndex ?f) (take (batchCap (config n)) (drop (next_of n v - 1) ?E)) (raftLog ?f) = Inr l"
    "lastIncludedIndex l = 0" "loadSnapshot (persistence l) = None" "pkind (persistence l) = pkind (store f)"
    "entries l = take (max (getLastIndex (raftLog f)) (next_of n v - 1 +
       length (take (batchCap (config n)) (drop (next_of n v - 1) ?E)))) ?E"
    using ae_loop_prefix[OF lf k assms(3) idx, of "commitIndex ?f" "batchCap (config n)"] b(3) by auto
  have "handleAppendEntries f (round_args n v) =
      (let f' = follow_commit (?f\<lparr>raftLog := l\<rparr>) (commitIndex n) in (f', append_reply f' True))"
    using round_consistent[OF assms(1,3)] t l(1) lf(1)
    by (simp add: handleAppendEntries_def round_args_def Let_def)
  with l show ?thesis by (intro that) (simp_all add: round_args_def)
qed

text \<open>The follower's log after an accepted round, and the leader's view of it.\<close>
lemma catch_up_round_refused:
  assumes "lags n v f" and "getLastIndex (raftLog f) < next_of n v - 1"
  shows "catch_up_round v (n, f) = (n\<lparr>nextIndex := (nextIndex n)(v \<mapsto> getLastIndex (raftLog f) + 1)\<rparr>, told n f)"
proof -
  have t: "currentTerm f \<le> currentTerm n" and b: "lastIncludedIndex (raftLog f) = 0"
    using assms(1) by (simp_all add: lags_def)
  have "aer_term (append_reply (told n f) False) \<le> currentTerm n"
    using t by (simp add: append_reply_def currentTerm_accept_leader)
  from catch_up_round_settled[OF assms(1) lags_sends[OF assms(1)] round_refused[OF assms] this]
  show ?thesis
    using t b by (simp add: appendEntries_settled_def append_reply_def currentTerm_accept_leader getLength_def getLastIndex_def)
qed

lemma sent_length:
  assumes "lags n v f"
  shows "next_of n v - 1 + length (ae_entries (round_args n v)) =
    min (getLastIndex (raftLog n)) (next_of n v - 1 + batchCap (config n))"
  using assms by (auto simp: round_args_def lags_def next_of_def getLastIndex_def min_def)

lemma settled_success:
  assumes "aer_success r" and "aer_term r \<le> currentTerm n"
  shows "appendEntries_settled n v i args r =
    (if ae_entries args = []
     then n\<lparr>matchIndex := (matchIndex n)(v \<mapsto> max (nullish (matchIndex n v) 0) (ae_prevLogIndex args))\<rparr>
     else n\<lparr>nextIndex := (nextIndex n)(v \<mapsto> i + length (ae_entries args)),
            matchIndex := (matchIndex n)(v \<mapsto> i + length (ae_entries args) - 1)\<rparr>)"
  using assms by (simp add: appendEntries_settled_def Let_def)

lemma catch_up_round_accepted:
  assumes "lags n v f" and "node_inv n" and "node_inv f" and "next_of n v - 1 \<le> getLastIndex (raftLog f)"
  obtains ni mi f' where "catch_up_round v (n, f) = (n\<lparr>nextIndex := ni, matchIndex := mi\<rparr>, f')"
    and "nullish (ni v) (getLastIndex (raftLog n) + 1) = min (getLastIndex (raftLog n)) (next_of n v - 1 + batchCap (config n)) + 1"
    and "mi v = Some (min (getLastIndex (raftLog n)) (next_of n v - 1 + batchCap (config n)))"
    and "f' = fst (handleAppendEntries f (round_args n v))"
    and "lastIncludedIndex (raftLog f') = 0" and "loadSnapshot (store f') = None" and "config f' = config f"
    and "pkind (store f') = pkind (store f)" and "currentTerm f' = currentTerm n"
    and "entries (raftLog f') = take (max (getLastIndex (raftLog f))
      (min (getLastIndex (raftLog n)) (next_of n v - 1 + batchCap (config n)))) (entries (raftLog n))"
    and "commitIndex f' = max (commitIndex f) (min (commitIndex n) (getLastIndex (raftLog f')))"
proof -
  let ?L = "getLastIndex (raftLog n)" and ?m = "next_of n v"
  let ?top = "min ?L (?m - 1 + batchCap (config n))"
  have t: "currentTerm f \<le> currentTerm n" and small: "?L < snapshotThreshold (config f)" and cap: "0 < batchCap (config n)"
    and b: "lastIncludedIndex (raftLog n) = 0" "lastIncludedIndex (raftLog f) = 0"
    and m: "1 \<le> ?m" "?m \<le> ?L + 1" and ma: "nullish (matchIndex n v) 0 \<le> ?L"
    and e: "entries (raftLog f) = take (getLastIndex (raftLog f)) (entries (raftLog n))"
    using assms(1) by (simp_all add: lags_def next_of_def)
  have len: "?m - 1 + length (ae_entries (round_args n v)) = ?top" by (rule sent_length[OF assms(1)])
  obtain l where h: "handleAppendEntries f (round_args n v) =
      (let f' = follow_commit ((told n f)\<lparr>raftLog := l\<rparr>) (commitIndex n) in (f', append_reply f' True))"
    and l: "lastIncludedIndex l = 0" "loadSnapshot (persistence l) = None" "pkind (persistence l) = pkind (store f)"
      "entries l = take (max (getLastIndex (raftLog f)) ?top) (entries (raftLog n))"
    using round_accepted[OF assms(1,2,4)] len by metis
  define g where "g = (told n f)\<lparr>raftLog := l\<rparr>"
  have k: "getLastIndex (raftLog f) \<le> ?L"
    using e b by (metis add_0 getLastIndex_def length_take min.cobounded1)
  then have last: "getLastIndex (raftLog g) = max (getLastIndex (raftLog f)) ?top"
    using l(1,4) b(1) by (simp add: g_def getLastIndex_def)
  have cf: "commitIndex f \<le> getLastIndex (raftLog f)" using assms(3) by (simp add: node_inv_def log_inv_def)
  have q: "commitIndex g \<le> getLastIndex (raftLog g)" "lastIncludedIndex (raftLog g) = 0"
    "getLastIndex (raftLog g) < snapshotThreshold (config g)"
    using cf last k small l(1) by (auto simp: g_def)
  let ?f' = "follow_commit g (commitIndex n)"
  have f': "entries (raftLog ?f') = entries l" "lastIncludedIndex (raftLog ?f') = 0" "loadSnapshot (store ?f') = None"
    "pkind (store ?f') = pkind (store f)"
    using follow_commit_quiet[OF q, of "commitIndex n"] l by (simp_all add: g_def)
  have last': "getLastIndex (raftLog ?f') = getLastIndex (raftLog g)"
    using f'(1,2) l(1) by (simp add: getLastIndex_def g_def)
  have term': "currentTerm ?f' = currentTerm n" using t by (simp add: g_def currentTerm_accept_leader)
  have h': "handleAppendEntries f (round_args n v) = (?f', append_reply ?f' True)"
    using h by (simp add: g_def Let_def)
  have "aer_term (append_reply ?f' True) \<le> currentTerm n" using term' by (simp add: append_reply_def)
  note r = catch_up_round_settled[OF assms(1) lags_sends[OF assms(1)] h' this]
  let ?n' = "appendEntries_settled n v ?m (round_args n v) (append_reply ?f' True)"
  have "aer_success (append_reply ?f' True)" "aer_term (append_reply ?f' True) \<le> currentTerm n"
    using term' by (simp_all add: append_reply_def)
  note sh = settled_success[OF this, of v ?m "round_args n v"]
  have n': "?n' = n\<lparr>nextIndex := nextIndex ?n', matchIndex := matchIndex ?n'\<rparr>"
    "nullish (nextIndex ?n' v) (?L + 1) = ?top + 1 \<and> matchIndex ?n' v = Some ?top"
  proof -
    show "?n' = n\<lparr>nextIndex := nextIndex ?n', matchIndex := matchIndex ?n'\<rparr>" unfolding sh by simp
    show "nullish (nextIndex ?n' v) (?L + 1) = ?top + 1 \<and> matchIndex ?n' v = Some ?top"
    proof (cases "ae_entries (round_args n v) = []")
      case True
      with len m cap have "?m = ?L + 1" "?top = ?L" by auto
      with True ma show ?thesis unfolding sh by (simp add: next_of_def round_args_def)
    next
      case False
      with len m show ?thesis unfolding sh by simp
    qed
  qed
  have eq: "catch_up_round v (n, f) = (n\<lparr>nextIndex := nextIndex ?n', matchIndex := matchIndex ?n'\<rparr>, ?f')"
    using r n'(1) by (simp only: fst_conv snd_conv)
  have "config ?f' = config f" by (simp add: g_def)
  moreover have "commitIndex ?f' = max (commitIndex f) (min (commitIndex n) (getLastIndex (raftLog ?f')))"
    using follow_commit_commitIndex[OF q(1), of "commitIndex n"] last' by (simp add: g_def)
  moreover have "?f' = fst (handleAppendEntries f (round_args n v))" using h' by simp
  ultimately show ?thesis
    using n'(2) f' l(4) term' by (intro that[OF eq]) simp_all
qed

text \<open>A round keeps the follower lagging or level, and from the second on it moves the next index by the cap.\<close>
lemma catch_up_round_facts:
  assumes lg: "lags n v f" and inv: "node_inv n" "node_inv f" and r: "catch_up_round v (n, f) = (n', f')"
  shows "same_leader n n' \<and> node_inv f' \<and> lags n' v f' \<and> config f' = config f \<and> pkind (store f') = pkind (store f) \<and>
    next_of n' v \<le> getLastIndex (raftLog f') + 1 \<and>
    (next_of n v \<le> getLastIndex (raftLog f) + 1 \<longrightarrow>
       next_of n' v = min (getLastIndex (raftLog n)) (next_of n v - 1 + batchCap (config n)) + 1 \<and>
       matchIndex n' v = Some (next_of n' v - 1) \<and>
       min (commitIndex n) (next_of n' v - 1) \<le> commitIndex f')"
proof (cases "next_of n v - 1 \<le> getLastIndex (raftLog f)")
  case False
  then have "getLastIndex (raftLog f) < next_of n v - 1" by simp
  from catch_up_round_refused[OF lg this] r
  have n': "n' = n\<lparr>nextIndex := (nextIndex n)(v \<mapsto> getLastIndex (raftLog f) + 1)\<rparr>" and f': "f' = told n f" by simp_all
  have "currentTerm f' = currentTerm n" using lg by (simp add: f' lags_def currentTerm_accept_leader)
  then have "lags n' v f'"
    using lg False by (auto simp: lags_def n' f' next_of_def)
  moreover have "same_leader n n'"
    unfolding same_leader_def n' by (intro exI[of _ "(nextIndex n)(v \<mapsto> getLastIndex (raftLog f) + 1)"] exI[of _ "matchIndex n"]) simp
  moreover have "\<not> next_of n v \<le> getLastIndex (raftLog f) + 1" using False by simp
  moreover have "node_inv f'" unfolding f' by (rule node_inv_accept_leader[OF inv(2)])
  moreover have "next_of n' v = getLastIndex (raftLog f') + 1" by (simp add: f' n' next_of_def)
  moreover have "config f' = config f \<and> pkind (store f') = pkind (store f)" by (simp add: f')
  ultimately show ?thesis by (simp only: simp_thms order.refl)
next
  case True
  let ?L = "getLastIndex (raftLog n)"
  let ?top = "min ?L (next_of n v - 1 + batchCap (config n))"
  obtain ni mi g where c: "catch_up_round v (n, f) = (n\<lparr>nextIndex := ni, matchIndex := mi\<rparr>, g)" and
    sg: "nullish (ni v) (?L + 1) = ?top + 1" "mi v = Some ?top" "g = fst (handleAppendEntries f (round_args n v))"
    "lastIncludedIndex (raftLog g) = 0" "loadSnapshot (store g) = None" "config g = config f"
    "pkind (store g) = pkind (store f)" "currentTerm g = currentTerm n"
    "entries (raftLog g) = take (max (getLastIndex (raftLog f)) ?top) (entries (raftLog n))"
    "commitIndex g = max (commitIndex f) (min (commitIndex n) (getLastIndex (raftLog g)))"
    by (rule catch_up_round_accepted[OF lg inv True])
  have n': "n' = n\<lparr>nextIndex := ni, matchIndex := mi\<rparr>" and g: "g = f'" using c r by simp_all
  note s = sg[unfolded g]
  have e: "entries (raftLog f) = take (getLastIndex (raftLog f)) (entries (raftLog n))"
    and b: "lastIncludedIndex (raftLog n) = 0" "lastIncludedIndex (raftLog f) = 0"
    using lg by (simp_all add: lags_def)
  have k: "getLastIndex (raftLog f) \<le> ?L"
    using e b by (metis add_0 getLastIndex_def length_take min.cobounded1)
  have last: "getLastIndex (raftLog f') = max (getLastIndex (raftLog f)) ?top"
    using k s(4,9) b(1) by (simp add: getLastIndex_def)
  have next': "next_of n' v = ?top + 1" using s(1) by (simp add: n' next_of_def)
  have "node_inv f'"
    using node_inv_handleAppendEntries[OF inv(2) round_args_wf[OF lg inv(1)]] s(3) by simp
  moreover have "lags n' v f'"
  proof -
    define T where "T = ?top"
    have T: "T \<le> ?L" by (simp add: T_def)
    have x: "mi v = Some T" "nullish (ni v) (?L + 1) = T + 1"
      using s(1,2) by (simp_all add: T_def)
    have cm: "commitIndex f' \<le> commitIndex n" using s(10) lg by (simp add: lags_def)
    show ?thesis
      using lg s(4-6,8) s(9)[folded last] x T cm by (simp add: lags_def n')
  qed
  moreover have "same_leader n n'" unfolding same_leader_def n' by blast
  moreover have "next_of n' v \<le> getLastIndex (raftLog f') + 1" using next' last by simp
  moreover have "matchIndex n' v = Some (next_of n' v - 1)" using s(2) next' by (simp add: n')
  moreover have "min (commitIndex n) (next_of n' v - 1) \<le> commitIndex f'"
    unfolding s(10) last next' by (simp add: min_def max_def)
  ultimately show ?thesis
    using s(6,7) next' by simp
qed

section \<open>Many rounds\<close>

lemma same_leader_simps:
  assumes "same_leader n n'"
  shows "raftLog n' = raftLog n" "config n' = config n" "commitIndex n' = commitIndex n" "boards n' = boards n"
    "node_inv n' = node_inv n"
  using assms by (auto simp: same_leader_def)

lemma same_leader_refl: "same_leader n n"
  unfolding same_leader_def by (intro exI[of _ "nextIndex n"] exI[of _ "matchIndex n"]) simp

lemma same_leader_trans: "same_leader n n' \<Longrightarrow> same_leader n' n'' \<Longrightarrow> same_leader n n''"
proof -
  assume "same_leader n n'" "same_leader n' n''"
  then obtain a b c d where "n' = n\<lparr>nextIndex := a, matchIndex := b\<rparr>" "n'' = n'\<lparr>nextIndex := c, matchIndex := d\<rparr>"
    unfolding same_leader_def by blast
  then have "n'' = n\<lparr>nextIndex := c, matchIndex := d\<rparr>" by simp
  then show "same_leader n n''" unfolding same_leader_def by blast
qed

abbreviation rounds :: "url \<Rightarrow> nat \<Rightarrow> raft_node \<times> raft_node \<Rightarrow> raft_node \<times> raft_node" where
  "rounds v j \<equiv> catch_up_round v ^^ j"

text \<open>
  After the first round the follower's log reaches up to the next index; from then on the next index
  grows by the batch cap in each round until it is past the log.
\<close>
lemma rounds_facts:
  assumes "lags n v f" and "node_inv n" and "node_inv f"
  shows "\<exists>n' f'. rounds v j (n, f) = (n', f') \<and> same_leader n n' \<and> node_inv f' \<and> lags n' v f' \<and>
    pkind (store f') = pkind (store f) \<and>
    (1 \<le> j \<longrightarrow> next_of n' v \<le> getLastIndex (raftLog f') + 1 \<and>
       min (getLastIndex (raftLog n)) ((j - 1) * batchCap (config n)) \<le> next_of n' v - 1) \<and>
    (2 \<le> j \<longrightarrow> matchIndex n' v = Some (next_of n' v - 1) \<and> min (commitIndex n) (next_of n' v - 1) \<le> commitIndex f')"
proof (induction j)
  case 0
  then show ?case using assms same_leader_refl by simp
next
  case (Suc j)
  then obtain n1 f1 where h: "rounds v j (n, f) = (n1, f1)" "same_leader n n1" "node_inv f1" "lags n1 v f1"
      "pkind (store f1) = pkind (store f)"
    and p: "1 \<le> j \<Longrightarrow> next_of n1 v \<le> getLastIndex (raftLog f1) + 1 \<and>
       min (getLastIndex (raftLog n)) ((j - 1) * batchCap (config n)) \<le> next_of n1 v - 1"
    by blast
  note sl = same_leader_simps[OF h(2)]
  obtain n2 f2 where r: "catch_up_round v (n1, f1) = (n2, f2)" by (cases "catch_up_round v (n1, f1)")
  have "node_inv n1" using assms(2) sl by simp
  from catch_up_round_facts[OF h(4) this h(3) r]
  have f: "same_leader n1 n2" "node_inv f2" "lags n2 v f2" "pkind (store f2) = pkind (store f1)"
      "next_of n2 v \<le> getLastIndex (raftLog f2) + 1"
    and q: "next_of n1 v \<le> getLastIndex (raftLog f1) + 1 \<Longrightarrow>
       next_of n2 v = min (getLastIndex (raftLog n)) (next_of n1 v - 1 + batchCap (config n)) + 1 \<and>
       matchIndex n2 v = Some (next_of n2 v - 1) \<and> min (commitIndex n) (next_of n2 v - 1) \<le> commitIndex f2"
    by (auto simp: sl)
  have "min (getLastIndex (raftLog n)) (j * batchCap (config n)) \<le> next_of n2 v - 1"
  proof (cases j)
    case (Suc i)
    then show ?thesis using p q by auto
  qed simp
  moreover have "matchIndex n2 v = Some (next_of n2 v - 1) \<and> min (commitIndex n) (next_of n2 v - 1) \<le> commitIndex f2"
    if "1 \<le> j" using p[OF that] q by blast
  moreover have "rounds v (Suc j) (n, f) = (n2, f2)" using h(1) r by simp
  ultimately show ?case
    using f h(5) same_leader_trans[OF h(2) f(1)] by auto
qed

lemma boards_of_log:
  assumes "node_inv n" and "pkind (store n) = FilePersistence" and "loadSnapshot (store n) = None" and "b \<noteq> ''__proto__''"
  shows "getStrokes (boards n) b =
    getStrokes (foldl applyBoardEvent new_boards (map e_stroke (upto_index (raftLog n) (commitIndex n)))) b"
  using assms by (simp add: node_inv_def boards_inv_def same_boards_def replayed_def snapshot_state_def getStrokes_view)

text \<open>C14: A follower catches up: when a follower's log is a beginning of its leader's, every message
  between the two arrives and nobody has to compact, then after $2 + L \mathbin{div} cap$ rounds of
  replication (for a log of $L$ entries and batches of $cap$) and ever after, the follower holds the
  leader's log, has committed and applied what the leader has, shows the leader's boards, and the
  leader knows that it does.\<close>
theorem follower_catches_up:
  assumes "reachable n" and "reachable f" and "lags n v f"
    and "pkind (store n) = FilePersistence" and "pkind (store f) = FilePersistence"
    and "2 + getLastIndex (raftLog n) div batchCap (config n) \<le> j"
    and "(catch_up_round v ^^ j) (n, f) = (n', f')"
  shows "raftLog n' = raftLog n \<and> entries (raftLog f') = entries (raftLog n) \<and>
    commitIndex f' = commitIndex n \<and> lastApplied f' = commitIndex n \<and>
    matchIndex n' v = Some (getLastIndex (raftLog n)) \<and>
    (\<forall>b. b \<noteq> ''__proto__'' \<longrightarrow> getStrokes (boards f') b = getStrokes (boards n) b)"
proof -
  let ?L = "getLastIndex (raftLog n)" and ?cap = "batchCap (config n)"
  have inv: "node_inv n" "node_inv f" using assms(1,2) by (simp_all add: node_inv_reachable)
  have j: "1 \<le> j" "2 \<le> j" using assms(6) by simp_all
  from rounds_facts[OF assms(3) inv, of j] assms(7) j
  have f: "same_leader n n'" "node_inv f'" "lags n' v f'" "pkind (store f') = FilePersistence"
    "next_of n' v \<le> getLastIndex (raftLog f') + 1" "min ?L ((j - 1) * ?cap) \<le> next_of n' v - 1"
    "matchIndex n' v = Some (next_of n' v - 1)" "min (commitIndex n) (next_of n' v - 1) \<le> commitIndex f'"
    using assms(5) by auto
  note sl = same_leader_simps[OF f(1)]
  have cap: "0 < ?cap" using assms(3) by (simp add: lags_def)
  have "Suc (?L div ?cap) \<le> j - 1" using assms(6) by simp
  then have "Suc (?L div ?cap) * ?cap \<le> (j - 1) * ?cap" by (rule mult_le_mono1)
  moreover have "?L < Suc (?L div ?cap) * ?cap" using cap by (simp add: dividend_less_div_times)
  ultimately have "?L \<le> next_of n' v - 1" using f(6) by simp
  moreover have "next_of n' v \<le> ?L + 1" "1 \<le> next_of n' v"
    using f(3) by (simp_all add: lags_def sl next_of_def)
  ultimately have next': "next_of n' v = ?L + 1" by simp
  have e: "entries (raftLog f') = take (getLastIndex (raftLog f')) (entries (raftLog n))"
    and b: "lastIncludedIndex (raftLog n) = 0" "lastIncludedIndex (raftLog f') = 0" "loadSnapshot (store f') = None"
      "loadSnapshot (store n) = None" "commitIndex f' \<le> commitIndex n"
    using f(3) by (simp_all add: lags_def sl)
  have same: "entries (raftLog f') = entries (raftLog n)"
    using e f(5) next' b(1) by (simp add: getLastIndex_def)
  have "commitIndex n \<le> ?L" using inv(1) by (simp add: node_inv_def log_inv_def)
  then have commit: "commitIndex f' = commitIndex n" using f(8) next' b(5) by simp
  have "upto_index (raftLog f') (commitIndex f') = upto_index (raftLog n) (commitIndex n)"
    using same commit b by (simp add: upto_index_def)
  then have "getStrokes (boards f') x = getStrokes (boards n) x" if "x \<noteq> ''__proto__''" for x
    using boards_of_log[OF f(2,4) b(3) that] boards_of_log[OF inv(1) assms(4) b(4) that] by simp
  moreover have "lastApplied f' = commitIndex f'" using f(2) by (simp add: node_inv_def)
  ultimately show ?thesis using sl(1) same commit f(7) next' by simp
qed

text \<open>A follower that starts with an empty disk, and a leader of three entries with batches of two.\<close>
lemma sample_lags: "lags sample_leader ''http://replica2'' sample_node"
  unfolding lags_def by code_simp

theorem follower_catches_up_witness:
  "let f' = snd ((catch_up_round ''http://replica2'' ^^ 3) (sample_leader, sample_node))
   in entries (raftLog f') = entries (raftLog sample_leader) \<and> map e_index (entries (raftLog f')) = [1, 2, 3] \<and>
      commitIndex f' = commitIndex sample_leader"
proof -
  obtain n' f' where r: "(catch_up_round ''http://replica2'' ^^ 3) (sample_leader, sample_node) = (n', f')"
    by (cases "(catch_up_round ''http://replica2'' ^^ 3) (sample_leader, sample_node)")
  have "pkind (store sample_leader) = FilePersistence" "pkind (store sample_node) = FilePersistence"
    "2 + getLastIndex (raftLog sample_leader) div batchCap (config sample_leader) \<le> 3"
    "map e_index (entries (raftLog sample_leader)) = [1, 2, 3]"
    by code_simp+
  with follower_catches_up[OF reachable_leader reachable_sample sample_lags _ _ _ r] r show ?thesis
    by (simp add: Let_def)
qed

end
