(* ===== verification/Rpc_Client.thy ===== *)
theory Rpc_Client
  imports Replica_Service Convergence
begin

text \<open>
  The calls between replicas, \<open>replica/src/rpcClient.ts\<close>. What \<open>fetch\<close> gives for a POST of a body to
  a URL is an argument: a status and the body of the answer, or nothing when the request fails or
  the timeout aborts it. A call gives the answer, or nothing when it throws. The lemmas put the
  routes of \<open>Replica_Service\<close> behind the URLs, so that a call is the handler of the replica that is
  called; a round of replication over HTTP is then the round of \<open>Convergence\<close>.
\<close>

section \<open>HttpRpcClient\<close>

type_synonym fetch = "url \<Rightarrow> request \<Rightarrow> (nat \<times> body) option"

text \<open>\<open>res.ok\<close>\<close>
definition ok_status :: "nat \<Rightarrow> bool" where
  "ok_status s \<longleftrightarrow> 200 \<le> s \<and> s < 300"

definition rpc_post :: "fetch \<Rightarrow> url \<Rightarrow> request \<Rightarrow> body option" where
  "rpc_post fetch url req =
     (case fetch url req of
        None \<Rightarrow> None
      | Some (status, body) \<Rightarrow> if \<not> ok_status status then None else Some body)"

text \<open>
  The five calls. The code casts the parsed answer to the type it expects; a body of another type,
  which no route of a replica gives to the call, counts as a failure here.
\<close>
definition rpc_requestVote :: "fetch \<Rightarrow> url \<Rightarrow> request_vote_args \<Rightarrow> request_vote_result option" where
  "rpc_requestVote fetch peer args =
     (case rpc_post fetch (peer @ ''/request-vote'') (Post_request_vote args) of Some (VoteBody r) \<Rightarrow> Some r | _ \<Rightarrow> None)"

definition rpc_appendEntries :: "fetch \<Rightarrow> url \<Rightarrow> append_entries_args \<Rightarrow> append_entries_result option" where
  "rpc_appendEntries fetch peer args =
     (case rpc_post fetch (peer @ ''/append-entries'') (Post_append_entries args) of Some (AppendBody r) \<Rightarrow> Some r | _ \<Rightarrow> None)"

definition rpc_sendHeartbeat :: "fetch \<Rightarrow> url \<Rightarrow> heartbeat_args \<Rightarrow> heartbeat_result option" where
  "rpc_sendHeartbeat fetch peer args =
     (case rpc_post fetch (peer @ ''/heartbeat'') (Post_heartbeat args) of Some (HeartbeatBody r) \<Rightarrow> Some r | _ \<Rightarrow> None)"

definition rpc_syncLog :: "fetch \<Rightarrow> url \<Rightarrow> sync_log_args \<Rightarrow> sync_log_result option" where
  "rpc_syncLog fetch peer args =
     (case rpc_post fetch (peer @ ''/sync-log'') (Post_sync_log args) of Some (SyncBody r) \<Rightarrow> Some r | _ \<Rightarrow> None)"

definition rpc_installSnapshot :: "fetch \<Rightarrow> url \<Rightarrow> install_snapshot_args \<Rightarrow> install_snapshot_result option" where
  "rpc_installSnapshot fetch peer args =
     (case rpc_post fetch (peer @ ''/install-snapshot'') (Post_install_snapshot args) of Some (SnapshotBody r) \<Rightarrow> Some r | _ \<Rightarrow> None)"

lemmas rpc_defs = rpc_post_def ok_status_def rpc_requestVote_def rpc_appendEntries_def rpc_sendHeartbeat_def
  rpc_syncLog_def rpc_installSnapshot_def

section \<open>A replica behind a URL\<close>

text \<open>The path under which \<open>createRpcRouter\<close> and \<open>createApp\<close> serve a request.\<close>
definition request_path :: "request \<Rightarrow> string" where
  "request_path req =
     (case req of
        Get_health \<Rightarrow> ''/health'' | Get_ready \<Rightarrow> ''/ready'' | Post_request_vote _ \<Rightarrow> ''/request-vote''
      | Post_append_entries _ \<Rightarrow> ''/append-entries'' | Post_heartbeat _ \<Rightarrow> ''/heartbeat'' | Post_sync_log _ \<Rightarrow> ''/sync-log''
      | Post_install_snapshot _ \<Rightarrow> ''/install-snapshot'' | Post_client_write _ \<Rightarrow> ''/client-write''
      | Get_status \<Rightarrow> ''/status'' | Get_metrics \<Rightarrow> ''/metrics'' | Get_board_state _ \<Rightarrow> ''/board-state'')"

text \<open>Node \<open>f\<close> is at \<open>peer\<close>, and no one else answers.\<close>
definition fetch_node :: "url \<Rightarrow> raft_node \<Rightarrow> peer_answers \<Rightarrow> fetch" where
  "fetch_node peer f pa url req = (if url = peer @ request_path req then Some (snd (serve f pa req)) else None)"

lemma called_handlers:
  "rpc_requestVote (fetch_node peer f pa) peer va = Some (snd (handleRequestVote f va))"
  "rpc_appendEntries (fetch_node peer f pa) peer aa = Some (snd (handleAppendEntries f aa))"
  "rpc_sendHeartbeat (fetch_node peer f pa) peer ha = Some (snd (handleHeartbeat f ha))"
  "rpc_syncLog (fetch_node peer f pa) peer sa = Some (snd (handleSyncLog f sa))"
  "rpc_installSnapshot (fetch_node peer f pa) peer ia = Some (snd (handleInstallSnapshot f ia))"
  by (simp_all add: rpc_defs fetch_node_def request_path_def serve_def split_beta Let_def)

text \<open>The node after the request that a sending makes.\<close>
definition served :: "raft_node \<Rightarrow> peer_answers \<Rightarrow> replication \<Rightarrow> raft_node" where
  "served f pa sent =
     (case sent of
        NoSend \<Rightarrow> f
      | SendAppend i args \<Rightarrow> fst (serve f pa (Post_append_entries args))
      | SendSnapshot args \<Rightarrow> fst (serve f pa (Post_install_snapshot args)))"

text \<open>What the call of a sending gives its continuation.\<close>
definition rpc_answer :: "fetch \<Rightarrow> url \<Rightarrow> replication \<Rightarrow> rpc_outcome" where
  "rpc_answer fetch peer sent =
     (case sent of
        NoSend \<Rightarrow> RpcFailed
      | SendAppend i args \<Rightarrow> (case rpc_appendEntries fetch peer args of Some r \<Rightarrow> AppendResult r | None \<Rightarrow> RpcFailed)
      | SendSnapshot args \<Rightarrow> (case rpc_installSnapshot fetch peer args of Some r \<Rightarrow> SnapshotResult r | None \<Rightarrow> RpcFailed))"

text \<open>Replication over HTTP is the round of the two nodes.\<close>
lemma http_round:
  assumes "v \<notin> replicating n"
  shows "catch_up_round v (n, f) =
    (let (n1, sent) = driveReplication n v
     in (replication_settled n1 v sent (rpc_answer (fetch_node v f pa) v sent), served f pa sent))"
proof (cases "replicateOnce n v")
  case NoSend
  with assms have "replicating n - {v} = replicating n" by simp
  with NoSend assms show ?thesis
    by (simp add: catch_up_round_def driveReplication_def served_def replication_settled_def)
next
  case (SendAppend i args)
  with assms show ?thesis
    by (simp add: catch_up_round_def driveReplication_def served_def rpc_answer_def called_handlers serve_def split_beta Let_def)
next
  case (SendSnapshot args)
  with assms show ?thesis
    by (simp add: catch_up_round_def driveReplication_def served_def rpc_answer_def called_handlers serve_def split_beta Let_def)
qed

text \<open>A call that is refused or fails changes nothing but the mark of the send in flight.\<close>
lemma failed_call_settles:
  assumes "fetch = (\<lambda>url req. None)" and "v \<notin> replicating n" and "driveReplication n v = (n1, sent)"
  shows "replication_settled n1 v sent (rpc_answer fetch v sent) = n"
proof -
  have "replicating n - {v} = replicating n" using assms(2) by simp
  then show ?thesis
    using assms by (cases sent)
      (auto simp: driveReplication_def rpc_answer_def rpc_defs replication_settled_def Let_def split: if_splits)
qed

end
