(* ===== verification/Gateway.thy ===== *)
theory Gateway
  imports Board_Manager Security
begin

text \<open>
  One gateway: the admission of connections and their end (\<open>gateway/src/wsServer.ts\<close>) and the
  handling of the messages of a connection (\<open>gateway/src/messageHandler.ts\<close>). The two handlers
  that await the Raft client are cut at the await: the first half returns what the client is asked
  and the continuation, the second half takes the answer. What is sent is returned as a list in
  order; which sockets are open, and the time, are arguments.
\<close>

section \<open>State\<close>

text \<open>\<open>ConnectionInfo\<close>: whose connection it is, and its rate limit window.\<close>
record connection_info =
  ci_boardId :: string
  ci_userId :: string
  ci_strokeCount :: nat
  ci_windowStart :: int

text \<open>
  \<open>maxUsersPerBoard\<close> is \<open>None\<close> when the configured text is not a number: \<open>parseInt\<close> gives \<open>NaN\<close>,
  and no count is at least \<open>NaN\<close>.
\<close>
record gateway =
  g_boards :: board_manager
  g_connections :: "socket \<rightharpoonup> connection_info"
  g_maxUsersPerBoard :: "int option"
  g_authToken :: "string option"

definition new_gateway :: "int option \<Rightarrow> string option \<Rightarrow> gateway" where
  "new_gateway maxUsers token =
     \<lparr>g_boards = [], g_connections = Map.empty, g_maxUsersPerBoard = maxUsers, g_authToken = token\<rparr>"

abbreviation error_message :: "string \<Rightarrow> server_message" where
  "error_message text \<equiv> ErrorMessage text None None None"

section \<open>Connections\<close>

text \<open>What becomes of a new socket: the comparison of the tokens may throw.\<close>
datatype admission =
    Thrown range_error
  | Unauthorized
  | Rejected server_message
  | Admitted

definition onConnection ::
    "gateway \<Rightarrow> socket \<Rightarrow> string option \<Rightarrow> string option \<Rightarrow> string option \<Rightarrow> int \<Rightarrow> gateway \<times> admission" where
  "onConnection gw ws boardParam userParam token now =
     (case tokensMatch token (g_authToken gw) of
        Inl err \<Rightarrow> (gw, Thrown err)
      | Inr False \<Rightarrow> (gw, Unauthorized)
      | Inr True \<Rightarrow>
          if \<not> js_truthy boardParam \<or> \<not> js_truthy userParam
          then (gw, Rejected (error_message ''Missing boardId or userId query parameter''))
          else
            let bid = the boardParam; uid = the userParam;
                userAlreadyConnected = hasUser (g_boards gw) bid uid
            in if \<not> userAlreadyConnected \<and>
                  (case g_maxUsersPerBoard gw of
                     None \<Rightarrow> False
                   | Some limit \<Rightarrow> limit \<le> int (getUserCount (g_boards gw) bid))
               then (gw, Rejected (error_message ''Board user limit reached''))
               else (gw\<lparr>g_connections := (g_connections gw)
                        (ws \<mapsto> \<lparr>ci_boardId = bid, ci_userId = uid, ci_strokeCount = 0, ci_windowStart = now\<rparr>)\<rparr>,
                     Admitted))"

definition onClose ::
    "gateway \<Rightarrow> (socket \<Rightarrow> bool) \<Rightarrow> socket \<Rightarrow> gateway \<times> (socket \<times> server_message) list" where
  "onClose gw is_open ws =
     (case g_connections gw ws of
        None \<Rightarrow> (gw, [])
      | Some info \<Rightarrow>
          let (boards, fullyDisconnected) = leaveBoard (g_boards gw) (ci_boardId info) (ci_userId info) ws;
              gw1 = gw\<lparr>g_connections := (g_connections gw)(ws := None), g_boards := boards\<rparr>
          in (gw1,
              if fullyDisconnected
              then broadcast boards is_open (ci_boardId info) (UserLeft (ci_userId info)) (Some ws)
              else []))"

section \<open>Messages\<close>

text \<open>
  What the text of a message is: not JSON, \<open>null\<close>, a value with no type (or a false one), one of
  the two messages of the interface, or a value with another type. The text of the type in the
  last answer is a string. A stroke message may lack its stroke; the ids of a join are the strings
  the interface says.
\<close>
datatype client_text =
    NotJson
  | JsonNull
  | Typeless
  | JoinMessage string string
  | StrokeMessage "json option"
  | OtherType string

text \<open>What the Raft client is asked, with what the continuation needs.\<close>
datatype pending =
    AwaitStrokes socket string string bool
  | AwaitSubmit socket string stroke

text \<open>The fixed window of a connection: the next state, and whether the stroke is let through.\<close>
definition rate_limit :: "connection_info \<Rightarrow> int \<Rightarrow> connection_info \<times> bool" where
  "rate_limit info now =
     (let info1 = (if now - ci_windowStart info \<ge> rateLimitWindowMs
                   then info\<lparr>ci_windowStart := now, ci_strokeCount := 0\<rparr> else info);
          info2 = info1\<lparr>ci_strokeCount := ci_strokeCount info1 + 1\<rparr>
      in (info2, \<not> strokeRateLimitPerSec < ci_strokeCount info2))"

definition handleJoin ::
    "gateway \<Rightarrow> socket \<Rightarrow> string \<Rightarrow> string \<Rightarrow> gateway \<times> pending" where
  "handleJoin gw ws bid uid =
     (let isExistingUser = hasUser (g_boards gw) bid uid;
          gw1 = gw\<lparr>g_boards := fst (joinBoard (g_boards gw) bid uid ws)\<rparr>
      in (gw1, AwaitStrokes ws bid uid isExistingUser))"

definition handleStroke ::
    "gateway \<Rightarrow> (socket \<Rightarrow> bool) \<Rightarrow> socket \<Rightarrow> json option \<Rightarrow> connection_info \<Rightarrow> int \<Rightarrow>
     gateway \<times> (socket \<times> server_message) list \<times> pending option" where
  "handleStroke gw is_open ws stroke info now =
     (case validateStroke stroke (ci_boardId info) (ci_userId info) of
        Inl reason \<Rightarrow> (gw, sendTo is_open ws (error_message reason), None)
      | Inr _ \<Rightarrow>
          let s = stroke_of (the stroke);
              (info1, allowed) = rate_limit info now;
              gw1 = gw\<lparr>g_connections := (g_connections gw)(ws \<mapsto> info1)\<rparr>
          in if \<not> allowed
             then (gw1,
                   sendTo is_open ws
                     (ErrorMessage ''Rate limit exceeded'' (Some ''RATE_LIMITED'') (Some (strokeId s)) (Some True)),
                   None)
             else (gw1, [], Some (AwaitSubmit ws (ci_boardId info1) s)))"

definition handleMessage ::
    "gateway \<Rightarrow> (socket \<Rightarrow> bool) \<Rightarrow> socket \<Rightarrow> client_text \<Rightarrow> int \<Rightarrow>
     gateway \<times> (socket \<times> server_message) list \<times> pending option" where
  "handleMessage gw is_open ws data now =
     (case g_connections gw ws of
        None \<Rightarrow> (gw, [], None)
      | Some info \<Rightarrow>
          (case data of
             NotJson \<Rightarrow> (gw, sendTo is_open ws (error_message ''Invalid JSON''), None)
           | JsonNull \<Rightarrow> (gw, sendTo is_open ws (error_message ''Internal server error''), None)
           | Typeless \<Rightarrow> (gw, sendTo is_open ws (error_message ''Missing message type''), None)
           | JoinMessage bid uid \<Rightarrow> (let (gw1, p) = handleJoin gw ws bid uid in (gw1, [], Some p))
           | StrokeMessage stroke \<Rightarrow> handleStroke gw is_open ws stroke info now
           | OtherType t \<Rightarrow> (gw, sendTo is_open ws (error_message (''Unknown message type: '' @ t)), None)))"

text \<open>The rest of \<open>handleJoin\<close>, with the strokes the Raft client returned.\<close>
definition join_settled ::
    "gateway \<Rightarrow> (socket \<Rightarrow> bool) \<Rightarrow> socket \<Rightarrow> string \<Rightarrow> string \<Rightarrow> bool \<Rightarrow> stroke list \<Rightarrow>
     (socket \<times> server_message) list" where
  "join_settled gw is_open ws bid uid isExistingUser strokes =
     sendTo is_open ws (JoinAck bid strokes)
     @ (if \<not> isExistingUser then broadcast (g_boards gw) is_open bid (UserJoined uid) (Some ws) else [])"

text \<open>The rest of \<open>handleStroke\<close>, with the success the Raft client returned.\<close>
definition submit_settled ::
    "gateway \<Rightarrow> (socket \<Rightarrow> bool) \<Rightarrow> socket \<Rightarrow> string \<Rightarrow> stroke \<Rightarrow> bool \<Rightarrow> (socket \<times> server_message) list" where
  "submit_settled gw is_open ws bid stroke success =
     (if \<not> success
      then sendTo is_open ws
             (ErrorMessage ''Failed to submit stroke'' (Some ''RAFT_WRITE_FAILED'') (Some (strokeId stroke)) (Some True))
      else broadcast (g_boards gw) is_open bid (StrokeBroadcast stroke) (Some ws))"

section \<open>The Raft client\<close>

text \<open>
  The calls of \<open>RaftClient\<close> and the second halves of the handlers that wait for them:
  \<open>gateway_of\<close> is the gateway as it is when a call that leaves the client in a state is settled.
\<close>
definition settle ::
    "('s \<Rightarrow> stroke \<Rightarrow> 's \<times> bool) \<Rightarrow> ('s \<Rightarrow> string \<Rightarrow> 's \<times> stroke list) \<Rightarrow> ('s \<Rightarrow> gateway) \<Rightarrow> (socket \<Rightarrow> bool) \<Rightarrow>
     's \<Rightarrow> pending \<Rightarrow> 's \<times> (socket \<times> server_message) list" where
  "settle submit get gateway_of is_open c p =
     (case p of
        AwaitStrokes ws bid uid existing \<Rightarrow>
          (let (c1, strokes) = get c bid
           in (c1, join_settled (gateway_of c1) is_open ws bid uid existing strokes))
      | AwaitSubmit ws bid stroke \<Rightarrow>
          (let (c1, success) = submit c stroke
           in (c1, submit_settled (gateway_of c1) is_open ws bid stroke success)))"

text \<open>
  What the handlers rely on: a call that reports success has written the stroke, and the strokes
  that are read are those of the board. What written means and which board it is, is the provider's.
\<close>
locale raft_client =
  fixes submit :: "'s \<Rightarrow> stroke \<Rightarrow> 's \<times> bool"
    and get :: "'s \<Rightarrow> string \<Rightarrow> 's \<times> stroke list"
    and written :: "'s \<Rightarrow> 's \<Rightarrow> stroke \<Rightarrow> bool"
    and board_shows :: "'s \<Rightarrow> string \<Rightarrow> stroke list \<Rightarrow> bool"
  assumes submit_written: "submit c s = (c', True) \<Longrightarrow> written c c' s"
    and get_shown: "get c bid = (c', strokes) \<Longrightarrow> board_shows c bid strokes"
begin

lemma settled_broadcast:
  assumes "settle submit get gateway_of is_open c p = (c', out)" and "StrokeBroadcast s \<in> snd ` set out"
  shows "(\<exists>ws bid. p = AwaitSubmit ws bid s) \<and> written c c' s"
proof (cases p)
  case (AwaitStrokes ws bid uid existing)
  then show ?thesis
    using assms by (auto simp: settle_def join_settled_def split_beta Let_def
        split: if_splits dest!: sendTo_messages broadcast_messages)
next
  case (AwaitSubmit ws bid stroke)
  obtain c1 ok where r: "submit c stroke = (c1, ok)" by fastforce
  then have c1: "c1 = c'" and out: "out = submit_settled (gateway_of c') is_open ws bid stroke ok"
    using assms(1) AwaitSubmit by (auto simp: settle_def)
  have "ok" and "stroke = s"
    using assms(2) unfolding out
    by (auto simp: submit_settled_def split: if_splits dest!: sendTo_messages broadcast_messages)
  with r c1 AwaitSubmit submit_written show ?thesis by simp
qed

lemma settled_join:
  assumes "settle submit get gateway_of is_open c p = (c', out)" and "JoinAck bid strokes \<in> snd ` set out"
  shows "board_shows c bid strokes"
  using assms get_shown[OF prod.collapse[symmetric]]
  by (cases p) (auto simp: settle_def join_settled_def submit_settled_def split_beta Let_def
      split: if_splits dest!: sendTo_messages broadcast_messages)

text \<open>Only the author of a stroke hears that its write failed.\<close>
lemma settled_error:
  assumes "settle submit get gateway_of is_open c p = (c', out)" and "(w, ErrorMessage t code sid retryable) \<in> set out"
  shows "\<exists>bid s. p = AwaitSubmit w bid s \<and> \<not> snd (submit c s) \<and> sid = Some (strokeId s) \<and> code = Some ''RAFT_WRITE_FAILED''"
  using assms
  by (cases p) (auto simp: settle_def join_settled_def submit_settled_def split_beta Let_def
      split: if_splits dest!: sendTo_messages broadcast_messages)

end

section \<open>A gateway without replicas\<close>

text \<open>The stroke is on its board at once, and the board of the rooms is the board that is read.\<close>
interpretation local_client: raft_client local_submitStroke "\<lambda>m bid. (m, local_getStrokes m bid)"
    "\<lambda>m m' s. manager_view m' (boardId s) = view_step (manager_view m (boardId s)) s"
    "\<lambda>m bid strokes. strokes = bv_visible (manager_view m bid)"
  by unfold_locales (auto simp: local_submitStroke_def local_getStrokes_def manager_view_addStroke bm_getStrokes_view)

text \<open>
  With \<open>LocalRaftClient\<close> both calls of the client run when they are made and their promises are
  settled, so nothing comes between the two halves of a handler.
\<close>
definition settle_local ::
    "gateway \<Rightarrow> (socket \<Rightarrow> bool) \<Rightarrow> pending \<Rightarrow> gateway \<times> (socket \<times> server_message) list" where
  "settle_local gw is_open p =
     (let (boards, out) = settle local_submitStroke (\<lambda>m bid. (m, local_getStrokes m bid)) (\<lambda>m. gw\<lparr>g_boards := m\<rparr>)
            is_open (g_boards gw) p
      in (gw\<lparr>g_boards := boards\<rparr>, out))"

definition serve_local ::
    "gateway \<Rightarrow> (socket \<Rightarrow> bool) \<Rightarrow> socket \<Rightarrow> client_text \<Rightarrow> int \<Rightarrow> gateway \<times> (socket \<times> server_message) list" where
  "serve_local gw is_open ws data now =
     (case handleMessage gw is_open ws data now of
        (gw1, out, None) \<Rightarrow> (gw1, out)
      | (gw1, out, Some p) \<Rightarrow> (let (gw2, out2) = settle_local gw1 is_open p in (gw2, out @ out2)))"

text \<open>The first half of a handler sends errors only.\<close>
lemma handleMessage_sends_errors:
  assumes "handleMessage gw is_open ws data now = (gw1, out, p)" and "m \<in> snd ` set out"
  shows "\<exists>text code sid retryable. m = ErrorMessage text code sid retryable"
  using assms
  by (auto simp: handleMessage_def handleStroke_def Let_def split_beta
      split: option.splits client_text.splits sum.splits if_splits dest!: sendTo_messages)

text \<open>What the rooms are told was put on the board that they are in.\<close>
lemma local_broadcast_on_board:
  assumes "serve_local gw is_open ws data now = (gw', out)" and "StrokeBroadcast s \<in> snd ` set out"
  shows "s \<in> set (bv_events (manager_view (g_boards gw') (boardId s)))"
proof -
  obtain gw1 first p where h: "handleMessage gw is_open ws data now = (gw1, first, p)" by (cases "handleMessage gw is_open ws data now")
  have no: "StrokeBroadcast s \<notin> snd ` set first" using handleMessage_sends_errors[OF h] by blast
  then obtain q where p: "p = Some q" using assms h by (cases p) (auto simp: serve_local_def)
  obtain m second where q: "settle local_submitStroke (\<lambda>m bid. (m, local_getStrokes m bid)) (\<lambda>m. gw1\<lparr>g_boards := m\<rparr>)
      is_open (g_boards gw1) q = (m, second)" by fastforce
  then have "out = first @ second" "g_boards gw' = m"
    using assms(1) h p by (auto simp: serve_local_def settle_local_def)
  with no assms(2) have "StrokeBroadcast s \<in> snd ` set second" by auto
  with local_client.settled_broadcast[OF q] \<open>g_boards gw' = m\<close> show ?thesis by simp
qed

end
