(* ===== verification/Gateway_Inv.thy ===== *)
theory Gateway_Inv
  imports Gateway
begin

text \<open>
  Runs of a gateway: every interleaving of connections, messages and closings of its sockets, with
  either Raft client. The invariant says that the rooms are well formed and, for clients that
  join under the name they connected with, that exactly the connected sockets that have joined are in
  them. The last section is about the rate limit of one connection.
\<close>

section \<open>Steps\<close>

text \<open>A client that joins only the board it connected to, as the user it connected as.\<close>
definition honest_text :: "gateway \<Rightarrow> socket \<Rightarrow> client_text \<Rightarrow> bool" where
  "honest_text gw ws data =
     (case (data, g_connections gw ws) of
        (JoinMessage bid uid, Some info) \<Rightarrow> bid = ci_boardId info \<and> uid = ci_userId info
      | _ \<Rightarrow> True)"

text \<open>
  The flag \<open>h\<close> restricts the run to honest clients. The answer of a remote client changes no
  state of the gateway, so it is not a step.
\<close>
inductive gw_step :: "bool \<Rightarrow> gateway \<Rightarrow> gateway \<Rightarrow> bool" for h where
  connect: "g_connections gw ws = None \<Longrightarrow> gw_step h gw (fst (onConnection gw ws b u t now))"
| receive: "(h \<Longrightarrow> honest_text gw ws data) \<Longrightarrow> gw_step h gw (fst (handleMessage gw is_open ws data now))"
| receive_local: "(h \<Longrightarrow> honest_text gw ws data) \<Longrightarrow> gw_step h gw (fst (serve_local gw is_open ws data now))"
| close: "gw_step h gw (fst (onClose gw is_open ws))"

inductive_cases gw_stepE: "gw_step h gw gw'"

inductive gw_reachable :: "bool \<Rightarrow> int option \<Rightarrow> string option \<Rightarrow> gateway \<Rightarrow> bool" for h limit token where
  start: "gw_reachable h limit token (new_gateway limit token)"
| step: "gw_reachable h limit token gw \<Longrightarrow> gw_step h gw gw' \<Longrightarrow> gw_reachable h limit token gw'"

section \<open>The invariant\<close>

definition members_connected :: "gateway \<Rightarrow> bool" where
  "members_connected gw \<longleftrightarrow>
     (\<forall>b u ws. in_room (g_boards gw) b u ws \<longrightarrow>
        (\<exists>info. g_connections gw ws = Some info \<and> ci_boardId info = b \<and> ci_userId info = u))"

definition gw_inv :: "bool \<Rightarrow> gateway \<Rightarrow> bool" where
  "gw_inv h gw \<longleftrightarrow> rooms_ok (g_boards gw) \<and> (h \<longrightarrow> members_connected gw)"

lemma gw_inv_start: "gw_inv h (new_gateway limit token)"
  by (simp add: gw_inv_def new_gateway_def members_connected_def in_room_def)

text \<open>A change that leaves the rooms alone and every connection under its name.\<close>
lemma gw_inv_same_rooms:
  assumes "gw_inv h gw" and "rooms_ok (g_boards gw')"
    and "\<And>b u ws. in_room (g_boards gw') b u ws \<Longrightarrow> in_room (g_boards gw) b u ws"
    and "\<And>ws info. g_connections gw ws = Some info \<Longrightarrow>
      \<exists>info'. g_connections gw' ws = Some info' \<and> ci_boardId info' = ci_boardId info \<and> ci_userId info' = ci_userId info"
  shows "gw_inv h gw'"
  using assms unfolding gw_inv_def members_connected_def by metis

lemma onConnection_inv:
  assumes inv: "gw_inv h gw" and new: "g_connections gw ws = None"
  shows "gw_inv h (fst (onConnection gw ws b u t now))"
proof (rule gw_inv_same_rooms[OF inv])
  have g: "g_boards (fst (onConnection gw ws b u t now)) = g_boards gw"
    by (simp add: onConnection_def Let_def split: sum.split bool.split)
  then show "rooms_ok (g_boards (fst (onConnection gw ws b u t now)))"
    and "\<And>b' u' ws'. in_room (g_boards (fst (onConnection gw ws b u t now))) b' u' ws' \<Longrightarrow> in_room (g_boards gw) b' u' ws'"
    using inv by (simp_all add: gw_inv_def)
  show "\<exists>info'. g_connections (fst (onConnection gw ws b u t now)) w = Some info' \<and>
      ci_boardId info' = ci_boardId info \<and> ci_userId info' = ci_userId info"
    if "g_connections gw w = Some info" for w info
    using that new by (auto simp: onConnection_def Let_def split: sum.split bool.split)
qed

lemma rate_limit_ids [simp]:
  "ci_boardId (fst (rate_limit info now)) = ci_boardId info"
  "ci_userId (fst (rate_limit info now)) = ci_userId info"
  by (simp_all add: rate_limit_def Let_def)

lemma handleStroke_inv:
  assumes inv: "gw_inv h gw" and ws: "g_connections gw ws = Some info"
  shows "gw_inv h (fst (handleStroke gw is_open ws stroke info now))"
proof (rule gw_inv_same_rooms[OF inv])
  have g: "g_boards (fst (handleStroke gw is_open ws stroke info now)) = g_boards gw"
    by (simp add: handleStroke_def Let_def split_beta split: sum.split)
  then show "rooms_ok (g_boards (fst (handleStroke gw is_open ws stroke info now)))"
    and "\<And>b u w. in_room (g_boards (fst (handleStroke gw is_open ws stroke info now))) b u w \<Longrightarrow> in_room (g_boards gw) b u w"
    using inv by (simp_all add: gw_inv_def)
  show "\<exists>info''. g_connections (fst (handleStroke gw is_open ws stroke info now)) w = Some info'' \<and>
      ci_boardId info'' = ci_boardId info' \<and> ci_userId info'' = ci_userId info'"
    if "g_connections gw w = Some info'" for w info'
    using that ws by (auto simp: handleStroke_def Let_def split_beta split: sum.split)
qed

lemma handleJoin_inv:
  assumes inv: "gw_inv h gw" and ws: "g_connections gw ws = Some info"
    and honest: "h \<Longrightarrow> b = ci_boardId info \<and> u = ci_userId info"
  shows "gw_inv h (fst (handleJoin gw ws b u))"
  using assms by (auto simp: gw_inv_def handleJoin_def Let_def joinBoard_ok members_connected_def in_room_joinBoard)

lemma handleMessage_inv:
  assumes inv: "gw_inv h gw" and honest: "h \<Longrightarrow> honest_text gw ws data"
  shows "gw_inv h (fst (handleMessage gw is_open ws data now))"
proof (cases "g_connections gw ws")
  case (Some info)
  show ?thesis
  proof (cases data)
    case (JoinMessage b u)
    then have "h \<Longrightarrow> b = ci_boardId info \<and> u = ci_userId info"
      using honest Some by (simp add: honest_text_def)
    from handleJoin_inv[OF inv Some this] JoinMessage Some show ?thesis
      by (simp add: handleMessage_def split_beta Let_def)
  qed (use Some inv handleStroke_inv[OF inv Some] in \<open>simp_all add: handleMessage_def\<close>)
qed (use inv in \<open>simp add: handleMessage_def\<close>)

lemma settle_local_inv:
  assumes "gw_inv h gw"
  shows "gw_inv h (fst (settle_local gw is_open p))"
  using assms by (cases p) (auto simp: settle_local_def settle_def local_submitStroke_def gw_inv_def addStroke_ok
      members_connected_def in_room_addStroke Let_def)

lemma serve_local_inv:
  assumes "gw_inv h gw" and "h \<Longrightarrow> honest_text gw ws data"
  shows "gw_inv h (fst (serve_local gw is_open ws data now))"
  using handleMessage_inv[OF assms, of is_open now] settle_local_inv
  by (auto simp: serve_local_def split_beta Let_def split: prod.split option.split)

lemma onClose_inv:
  assumes inv: "gw_inv h gw"
  shows "gw_inv h (fst (onClose gw is_open ws))"
proof (cases "g_connections gw ws")
  case (Some info)
  have r: "in_room (g_boards (fst (onClose gw is_open ws))) b u w \<longleftrightarrow>
      in_room (g_boards gw) b u w \<and> \<not> (b = ci_boardId info \<and> u = ci_userId info \<and> w = ws)" for b u w
    using Some by (simp add: onClose_def split_beta Let_def in_room_leaveBoard)
  have c: "g_connections (fst (onClose gw is_open ws)) = (g_connections gw)(ws := None)"
    using Some by (simp add: onClose_def split_beta Let_def)
  have "rooms_ok (g_boards (fst (onClose gw is_open ws)))"
    using Some inv by (simp add: onClose_def split_beta Let_def leaveBoard_ok gw_inv_def)
  moreover have "members_connected (fst (onClose gw is_open ws))" if h
    using inv that Some unfolding gw_inv_def members_connected_def r c by fastforce
  ultimately show ?thesis by (simp add: gw_inv_def)
qed (use inv in \<open>simp add: onClose_def\<close>)

lemma gw_step_inv: "gw_step h gw gw' \<Longrightarrow> gw_inv h gw \<Longrightarrow> gw_inv h gw'"
  by (elim gw_stepE) (simp_all add: onConnection_inv handleMessage_inv serve_local_inv onClose_inv)

lemma gw_reachable_inv: "gw_reachable h limit token gw \<Longrightarrow> gw_inv h gw"
  by (induction rule: gw_reachable.induct) (auto simp: gw_inv_start gw_step_inv)

section \<open>Who is in the rooms\<close>

text \<open>
  The runs of honest clients once more, with the set of the sockets whose join was handled and which have not
  closed since.
\<close>
definition joins :: "gateway \<Rightarrow> socket \<Rightarrow> client_text \<Rightarrow> bool" where
  "joins gw ws data \<longleftrightarrow> (case data of JoinMessage bid uid \<Rightarrow> g_connections gw ws \<noteq> None | _ \<Rightarrow> False)"

abbreviation joined_after :: "socket set \<Rightarrow> gateway \<Rightarrow> socket \<Rightarrow> client_text \<Rightarrow> socket set" where
  "joined_after J gw ws data \<equiv> (if joins gw ws data then insert ws J else J)"

inductive gw_run :: "int option \<Rightarrow> string option \<Rightarrow> socket set \<Rightarrow> gateway \<Rightarrow> bool" for limit token where
  start: "gw_run limit token {} (new_gateway limit token)"
| connect: "gw_run limit token J gw \<Longrightarrow> g_connections gw ws = None \<Longrightarrow>
    gw_run limit token J (fst (onConnection gw ws b u t now))"
| receive: "gw_run limit token J gw \<Longrightarrow> honest_text gw ws data \<Longrightarrow>
    gw_run limit token (joined_after J gw ws data) (fst (handleMessage gw is_open ws data now))"
| receive_local: "gw_run limit token J gw \<Longrightarrow> honest_text gw ws data \<Longrightarrow>
    gw_run limit token (joined_after J gw ws data) (fst (serve_local gw is_open ws data now))"
| close: "gw_run limit token J gw \<Longrightarrow> gw_run limit token (J - {ws}) (fst (onClose gw is_open ws))"

definition named :: "gateway \<Rightarrow> socket \<Rightarrow> (string \<times> string) option" where
  "named gw ws = map_option (\<lambda>info. (ci_boardId info, ci_userId info)) (g_connections gw ws)"

lemma named_connected: "g_connections gw ws \<noteq> None \<longleftrightarrow> named gw ws \<noteq> None"
  by (simp add: named_def)

definition rooms_exact :: "socket set \<Rightarrow> gateway \<Rightarrow> bool" where
  "rooms_exact J gw \<longleftrightarrow> (\<forall>b u ws. in_room (g_boards gw) b u ws \<longleftrightarrow> ws \<in> J \<and> named gw ws = Some (b, u)) \<and>
     (\<forall>ws\<in>J. g_connections gw ws \<noteq> None)"

text \<open>A change that leaves the rooms alone and every connection under its name.\<close>
lemma rooms_exact_same:
  assumes "rooms_exact J gw" and "\<And>b u ws. in_room (g_boards gw') b u ws \<longleftrightarrow> in_room (g_boards gw) b u ws"
    and "\<And>ws. ws \<in> J \<Longrightarrow> named gw' ws = named gw ws"
  shows "rooms_exact J gw'"
proof -
  have "g_connections gw' ws \<noteq> None" if "ws \<in> J" for ws
    using assms(1) assms(3)[OF that] that unfolding rooms_exact_def named_connected by simp
  then show ?thesis using assms unfolding rooms_exact_def by metis
qed

lemma rooms_exact_connect:
  assumes "rooms_exact J gw" and "g_connections gw ws = None"
  shows "rooms_exact J (fst (onConnection gw ws b u t now))"
proof (rule rooms_exact_same[OF assms(1)])
  have "ws \<notin> J" using assms by (auto simp: rooms_exact_def)
  then show "named (fst (onConnection gw ws b u t now)) w = named gw w" if "w \<in> J" for w
    using that by (auto simp: onConnection_def named_def Let_def split: sum.split bool.split)
qed (simp add: onConnection_def Let_def split: sum.split bool.split)

lemma rooms_exact_message:
  assumes "rooms_exact J gw" and "honest_text gw ws data"
  shows "rooms_exact (joined_after J gw ws data) (fst (handleMessage gw is_open ws data now))"
proof (cases "g_connections gw ws")
  case None
  then show ?thesis using assms(1) by (cases data) (simp_all add: joins_def handleMessage_def)
next
  case (Some info)
  show ?thesis
  proof (cases data)
    case (JoinMessage b u)
    then have "b = ci_boardId info" "u = ci_userId info" using assms(2) Some by (simp_all add: honest_text_def)
    then have "named gw ws = Some (b, u)" using Some by (simp add: named_def)
    moreover have g: "fst (handleMessage gw is_open ws data now) = gw\<lparr>g_boards := fst (joinBoard (g_boards gw) b u ws)\<rparr>"
      using Some JoinMessage by (simp add: handleMessage_def handleJoin_def Let_def)
    moreover have "named (gw\<lparr>g_boards := m\<rparr>) = named gw" for m by (simp add: named_def fun_eq_iff)
    ultimately show ?thesis
      using assms(1) Some JoinMessage by (auto simp: rooms_exact_def joins_def in_room_joinBoard)
  next
    case (StrokeMessage v)
    have "rooms_exact J (fst (handleStroke gw is_open ws v info now))"
    proof (rule rooms_exact_same[OF assms(1)])
      show "named (fst (handleStroke gw is_open ws v info now)) w = named gw w" for w
        using Some by (auto simp: handleStroke_def named_def Let_def split_beta split: sum.split)
    qed (simp add: handleStroke_def Let_def split_beta split: sum.split)
    then show ?thesis using Some StrokeMessage by (simp add: joins_def handleMessage_def)
  qed (use assms(1) Some in \<open>simp_all add: joins_def handleMessage_def\<close>)
qed

lemma rooms_exact_settle_local: "rooms_exact J gw \<Longrightarrow> rooms_exact J (fst (settle_local gw is_open p))"
  by (rule rooms_exact_same, assumption)
    (cases p; auto simp: settle_local_def settle_def local_submitStroke_def in_room_addStroke named_def Let_def)+

lemma rooms_exact_serve_local:
  assumes "rooms_exact J gw" and "honest_text gw ws data"
  shows "rooms_exact (joined_after J gw ws data) (fst (serve_local gw is_open ws data now))"
  using rooms_exact_message[OF assms, of is_open now] rooms_exact_settle_local
  by (auto simp: serve_local_def split_beta Let_def split: prod.split option.split)

lemma rooms_exact_close:
  assumes "rooms_exact J gw"
  shows "rooms_exact (J - {ws}) (fst (onClose gw is_open ws))"
proof (cases "g_connections gw ws")
  case None
  then have "ws \<notin> J" using assms by (auto simp: rooms_exact_def)
  then show ?thesis using assms None by (simp add: onClose_def)
next
  case (Some info)
  have r: "in_room (g_boards (fst (onClose gw is_open ws))) b u w \<longleftrightarrow>
      in_room (g_boards gw) b u w \<and> \<not> (b = ci_boardId info \<and> u = ci_userId info \<and> w = ws)" for b u w
    using Some by (simp add: onClose_def split_beta Let_def in_room_leaveBoard)
  have c: "g_connections (fst (onClose gw is_open ws)) = (g_connections gw)(ws := None)"
    using Some by (simp add: onClose_def split_beta Let_def)
  have n: "named gw ws = Some (ci_boardId info, ci_userId info)" using Some by (simp add: named_def)
  show ?thesis
    using assms n unfolding rooms_exact_def r c by (auto simp: named_def c split: if_splits)
qed

lemma gw_run_exact: "gw_run limit token J gw \<Longrightarrow> rooms_exact J gw"
proof (induction rule: gw_run.induct)
  case start
  then show ?case by (simp add: rooms_exact_def new_gateway_def in_room_def)
qed (simp_all only: rooms_exact_connect rooms_exact_message rooms_exact_serve_local rooms_exact_close)

lemma gw_run_reachable: "gw_run limit token J gw \<Longrightarrow> gw_reachable True limit token gw"
proof (induction rule: gw_run.induct)
  case start
  then show ?case by (rule gw_reachable.start)
qed (blast intro: gw_reachable.step gw_step.intros)+

section \<open>The rate limit of a connection\<close>

text \<open>The times at which the messages of a connection get a stroke to the Raft client.\<close>
fun submissions :: "gateway \<Rightarrow> (socket \<Rightarrow> bool) \<Rightarrow> socket \<Rightarrow> (client_text \<times> int) list \<Rightarrow> int list" where
  "submissions gw is_open ws [] = []"
| "submissions gw is_open ws ((data, now) # rest) =
     (case handleMessage gw is_open ws data now of (gw1, _, p) \<Rightarrow>
        (case p of Some (AwaitSubmit _ _ _) \<Rightarrow> [now] | _ \<Rightarrow> []) @ submissions gw1 is_open ws rest)"

text \<open>The strokes the window lets through, of those that arrive at the given times.\<close>
fun admitted :: "connection_info \<Rightarrow> int list \<Rightarrow> int list" where
  "admitted info [] = []"
| "admitted info (now # rest) =
     (if snd (rate_limit info now) then [now] else []) @ admitted (fst (rate_limit info now)) rest"

definition carries_stroke :: "connection_info \<Rightarrow> client_text \<Rightarrow> bool" where
  "carries_stroke info data =
     (case data of StrokeMessage v \<Rightarrow> validateStroke v (ci_boardId info) (ci_userId info) = Inr () | _ \<Rightarrow> False)"

lemma handleMessage_info:
  assumes "g_connections gw ws = Some info" and "handleMessage gw is_open ws data now = (gw1, out, p)"
  shows "if carries_stroke info data
    then g_connections gw1 ws = Some (fst (rate_limit info now)) \<and>
      (\<exists>b s. p = (if snd (rate_limit info now) then Some (AwaitSubmit ws b s) else None))
    else g_connections gw1 ws = Some info \<and> (\<forall>w b s. p \<noteq> Some (AwaitSubmit w b s))"
  using assms
  by (cases data) (auto simp: handleMessage_def handleStroke_def handleJoin_def carries_stroke_def Let_def split_beta
      split: sum.splits if_splits)

lemma submissions_admitted:
  assumes "g_connections gw ws = Some info"
  shows "submissions gw is_open ws msgs = admitted info (map snd (filter (carries_stroke info \<circ> fst) msgs))"
  using assms
proof (induction msgs arbitrary: gw info)
  case (Cons m msgs)
  obtain data now where m: "m = (data, now)" by (cases m)
  obtain gw1 out p where h: "handleMessage gw is_open ws data now = (gw1, out, p)"
    by (cases "handleMessage gw is_open ws data now")
  note i = handleMessage_info[OF Cons.prems h]
  have same: "carries_stroke (fst (rate_limit info now)) = carries_stroke info"
    by (simp add: carries_stroke_def fun_eq_iff split: client_text.split)
  show ?case
  proof (cases "carries_stroke info data")
    case True
    with i have "g_connections gw1 ws = Some (fst (rate_limit info now))" by simp
    from Cons.IH[OF this] i True show ?thesis
      by (auto simp: m h same)
  next
    case False
    with i have "g_connections gw1 ws = Some info" by simp
    from Cons.IH[OF this] i False show ?thesis
      by (auto simp: m h split: option.split pending.split)
  qed
qed simp

lemma rate_limit_cases:
  "rate_limit info now =
     (if ci_windowStart info + rateLimitWindowMs \<le> now
      then (info\<lparr>ci_windowStart := now, ci_strokeCount := 1\<rparr>, True)
      else (info\<lparr>ci_strokeCount := ci_strokeCount info + 1\<rparr>, ci_strokeCount info < strokeRateLimitPerSec))"
  by (auto simp: rate_limit_def Let_def gateway_security)

lemma set_admitted: "set (admitted info ts) \<subseteq> set ts"
  by (induction ts arbitrary: info) (auto split: if_splits)

text \<open>How many are let through before a time: none that arrive later, at most a window's worth in the
  current window, at most two up to the end of the next.\<close>
lemma admitted_after:
  assumes "sorted ts" and "\<forall>t\<in>set ts. hi \<le> t"
  shows "filter (\<lambda>t. t < hi) (admitted info ts) = []"
  using assms
proof (induction ts arbitrary: info)
  case (Cons t ts)
  then show ?case by (cases ts) auto
qed simp

lemma admitted_this_window:
  assumes "sorted ts" and "hi \<le> ci_windowStart info + rateLimitWindowMs"
  shows "length (filter (\<lambda>t. t < hi) (admitted info ts)) \<le> strokeRateLimitPerSec - ci_strokeCount info"
  using assms
proof (induction ts arbitrary: info)
  case (Cons t ts)
  show ?case
  proof (cases "t < hi")
    case True
    with Cons.prems have old: "\<not> ci_windowStart info + rateLimitWindowMs \<le> t" by simp
    have "length (filter (\<lambda>t. t < hi) (admitted (fst (rate_limit info t)) ts))
        \<le> strokeRateLimitPerSec - (ci_strokeCount info + 1)"
      using Cons.IH[of "fst (rate_limit info t)"] Cons.prems old by (simp add: rate_limit_cases)
    with old show ?thesis by (auto simp: rate_limit_cases)
  next
    case False
    then have "\<forall>t'\<in>set (t # ts). hi \<le> t'" using Cons.prems(1) by auto
    from admitted_after[OF Cons.prems(1) this] show ?thesis by simp
  qed
qed simp

lemma admitted_next_window:
  assumes "sorted ts" and "hi \<le> ci_windowStart info + 2 * rateLimitWindowMs"
  shows "length (filter (\<lambda>t. t < hi) (admitted info ts))
    \<le> (strokeRateLimitPerSec - ci_strokeCount info) + strokeRateLimitPerSec"
  using assms
proof (induction ts arbitrary: info)
  case (Cons t ts)
  show ?case
  proof (cases "ci_windowStart info + rateLimitWindowMs \<le> t")
    case True
    have "length (filter (\<lambda>t. t < hi) (admitted (fst (rate_limit info t)) ts)) \<le> strokeRateLimitPerSec - 1"
      using admitted_this_window[of ts hi "fst (rate_limit info t)"] Cons.prems True
      by (simp add: rate_limit_cases)
    with True show ?thesis by (simp add: rate_limit_cases gateway_security)
  next
    case False
    have "length (filter (\<lambda>t. t < hi) (admitted (fst (rate_limit info t)) ts))
        \<le> (strokeRateLimitPerSec - (ci_strokeCount info + 1)) + strokeRateLimitPerSec"
      using Cons.IH[of "fst (rate_limit info t)"] Cons.prems False by (simp add: rate_limit_cases)
    with False show ?thesis by (auto simp: rate_limit_cases)
  qed
qed simp

lemma admitted_any_span:
  assumes "sorted ts"
  shows "length (filter (\<lambda>t. lo \<le> t \<and> t < lo + rateLimitWindowMs) (admitted info ts)) \<le> 2 * strokeRateLimitPerSec"
  using assms
proof (induction ts arbitrary: info)
  case (Cons t ts)
  show ?case
  proof (cases "t < lo")
    case True
    with Cons show ?thesis by auto
  next
    case False
    let ?hi = "lo + rateLimitWindowMs"
    have "\<forall>x\<in>set (admitted info (t # ts)). lo \<le> x"
      using False Cons.prems set_admitted[of info "t # ts"] by fastforce
    then have all: "filter (\<lambda>t. lo \<le> t \<and> t < ?hi) (admitted info (t # ts)) = filter (\<lambda>t. t < ?hi) (admitted info (t # ts))"
      by (intro filter_cong) auto
    show ?thesis
    proof (cases "ci_windowStart info + rateLimitWindowMs \<le> t")
      case True
      have "length (filter (\<lambda>t. t < ?hi) (admitted (fst (rate_limit info t)) ts)) \<le> strokeRateLimitPerSec - 1"
        using admitted_this_window[of ts ?hi "fst (rate_limit info t)"] Cons.prems True False
        by (simp add: rate_limit_cases)
      with True show ?thesis unfolding all by (simp add: rate_limit_cases gateway_security)
    next
      case new: False
      then show ?thesis
        unfolding all using admitted_next_window[OF Cons.prems, of ?hi info] False by simp
    qed
  qed
qed simp

end
