(* ===== verification/Remote_Client.thy ===== *)
theory Remote_Client
  imports Replica_Types "HOL-Library.Sublist"
begin

text \<open>
  The gateway's client of the replicas, \<open>gateway/src/remoteRaftClient.ts\<close>: writes that look for the
  leader, follow hints and retry with growing delays, and reads that accept only a confirmed
  answer. The network and the replicas behind it are an argument: what each request of a run is
  answered, and what other calls of the same client do to the remembered leader while this one
  awaits. The lemmas bound a write and say what its answer means.
\<close>

section \<open>Timing\<close>

definition maxWriteAttempts :: nat where "maxWriteAttempts = 5"
definition writeRetryBaseDelayMs :: nat where "writeRetryBaseDelayMs = 120"
definition writeRetryMaxDelayMs :: nat where "writeRetryMaxDelayMs = 1200"

lemmas gateway_timing = maxWriteAttempts_def writeRetryBaseDelayMs_def writeRetryMaxDelayMs_def

section \<open>State\<close>

text \<open>The body of an answer to \<open>/board-state\<close>; the strokes count only with status 200.\<close>
record board_state_body =
  bsb_strokes :: "stroke list"
  bsb_leaderHint :: "url option"

text \<open>
  What the \<open>i\<close>-th await of a run gives. A request is answered, or \<open>None\<close>: it failed, timed out, or
  (for a post) had a status other than 2xx, which are the exceptions of the code. \<open>net_meanwhile\<close>
  is the effect of other calls on \<open>currentLeader\<close>.
\<close>
record network =
  net_post :: "nat \<Rightarrow> url \<Rightarrow> stroke \<Rightarrow> client_write_result option"
  net_get :: "nat \<Rightarrow> url \<Rightarrow> string \<Rightarrow> (nat \<times> board_state_body) option"
  net_meanwhile :: "nat \<Rightarrow> url option \<Rightarrow> url option"

text \<open>The client with the trace of one call: the posts and their answers, the reads, the delays.\<close>
record remote_client =
  rc_peers :: "url list"
  rc_currentLeader :: "url option"
  rc_posts :: "(url \<times> client_write_result option) list"
  rc_gets :: "(url \<times> (nat \<times> board_state_body) option) list"
  rc_delays :: "nat list"

definition new_RemoteRaftClient :: "url list \<Rightarrow> remote_client" where
  "new_RemoteRaftClient peers =
     \<lparr>rc_peers = peers, rc_currentLeader = None, rc_posts = [], rc_gets = [], rc_delays = []\<rparr>"

definition awaits :: "remote_client \<Rightarrow> nat" where
  "awaits c = length (rc_posts c) + length (rc_gets c) + length (rc_delays c)"

definition resumed :: "network \<Rightarrow> remote_client \<Rightarrow> remote_client" where
  "resumed net c = c\<lparr>rc_currentLeader := net_meanwhile net (awaits c) (rc_currentLeader c)\<rparr>"

definition post :: "network \<Rightarrow> remote_client \<Rightarrow> url \<Rightarrow> stroke \<Rightarrow> remote_client \<times> client_write_result option" where
  "post net c peer stroke =
     (let answer = net_post net (awaits c) peer stroke
      in (resumed net (c\<lparr>rc_posts := rc_posts c @ [(peer, answer)]\<rparr>), answer))"

definition getRaw :: "network \<Rightarrow> remote_client \<Rightarrow> url \<Rightarrow> string \<Rightarrow> remote_client \<times> (nat \<times> board_state_body) option" where
  "getRaw net c peer bid =
     (let answer = net_get net (awaits c) peer bid
      in (resumed net (c\<lparr>rc_gets := rc_gets c @ [(peer, answer)]\<rparr>), answer))"

definition delay :: "network \<Rightarrow> remote_client \<Rightarrow> nat \<Rightarrow> remote_client" where
  "delay net c ms = resumed net (c\<lparr>rc_delays := rc_delays c @ [ms]\<rparr>)"

text \<open>The known leader first, then all other peers.\<close>
definition targets :: "remote_client \<Rightarrow> url list" where
  "targets c =
     (if js_truthy (rc_currentLeader c)
      then the (rc_currentLeader c) # filter (\<lambda>p. Some p \<noteq> rc_currentLeader c) (rc_peers c)
      else rc_peers c)"

section \<open>Writes\<close>

text \<open>The loop over the targets of one attempt: the client, whether it returned true, and \<open>shouldRetry\<close>.\<close>
fun try_targets :: "network \<Rightarrow> stroke \<Rightarrow> url list \<Rightarrow> bool \<Rightarrow> remote_client \<Rightarrow> remote_client \<times> bool \<times> bool" where
  "try_targets net stroke [] shouldRetry c = (c, False, shouldRetry)"
| "try_targets net stroke (peer # rest) shouldRetry c =
     (case post net c peer stroke of
        (c1, None) \<Rightarrow> try_targets net stroke rest True c1
      | (c1, Some result) \<Rightarrow>
          if cw_success result then (c1\<lparr>rc_currentLeader := Some peer\<rparr>, True, shouldRetry)
          else if js_truthy (cw_leaderHint result) then
            (case post net (c1\<lparr>rc_currentLeader := cw_leaderHint result\<rparr>) (the (cw_leaderHint result)) stroke of
               (c2, None) \<Rightarrow> try_targets net stroke rest True c2
             | (c2, Some retry) \<Rightarrow>
                 if cw_success retry then (c2, True, True) else try_targets net stroke rest True c2)
          else try_targets net stroke rest True c1)"

function write_attempts :: "network \<Rightarrow> stroke \<Rightarrow> nat \<Rightarrow> remote_client \<Rightarrow> remote_client \<times> bool" where
  "write_attempts net stroke attempt c =
     (if maxWriteAttempts \<le> attempt then (c, False)
      else
        case try_targets net stroke (targets c) False c of
          (c1, True, _) \<Rightarrow> (c1, True)
        | (c1, False, shouldRetry) \<Rightarrow>
            if \<not> shouldRetry \<or> attempt = maxWriteAttempts - 1 then (c1, False)
            else write_attempts net stroke (attempt + 1)
                   (delay net c1 (min (writeRetryBaseDelayMs * 2 ^ attempt) writeRetryMaxDelayMs)))"
  by pat_completeness auto
termination by (relation "measure (\<lambda>(_, _, attempt, _). maxWriteAttempts - attempt)") auto

declare write_attempts.simps [simp del]

definition submitStroke :: "network \<Rightarrow> remote_client \<Rightarrow> stroke \<Rightarrow> remote_client \<times> bool" where
  "submitStroke net c stroke = write_attempts net stroke 0 c"

section \<open>Reads\<close>

text \<open>A second call follows one hint; \<open>followHint\<close> is false there.\<close>
function tryGetStrokes :: "network \<Rightarrow> url \<Rightarrow> string \<Rightarrow> bool \<Rightarrow> remote_client \<Rightarrow> remote_client \<times> stroke list option" where
  "tryGetStrokes net peer bid followHint c =
     (case getRaw net c peer bid of
        (c1, None) \<Rightarrow> (c1, None)
      | (c1, Some (status, body)) \<Rightarrow>
          if status = 200 then (c1\<lparr>rc_currentLeader := Some peer\<rparr>, Some (bsb_strokes body))
          else if status = 421 \<and> js_truthy (bsb_leaderHint body) \<and> followHint
          then tryGetStrokes net (the (bsb_leaderHint body)) bid False (c1\<lparr>rc_currentLeader := bsb_leaderHint body\<rparr>)
          else (c1, None))"
  by pat_completeness auto
termination by (relation "measure (\<lambda>(_, _, _, followHint, _). if followHint then 1 else 0)") auto

declare tryGetStrokes.simps [simp del]

fun get_from :: "network \<Rightarrow> string \<Rightarrow> url list \<Rightarrow> remote_client \<Rightarrow> remote_client \<times> stroke list" where
  "get_from net bid [] c = (c, [])"
| "get_from net bid (peer # rest) c =
     (case tryGetStrokes net peer bid True c of
        (c1, Some strokes) \<Rightarrow> (c1, strokes)
      | (c1, None) \<Rightarrow> get_from net bid rest c1)"

definition remote_getStrokes :: "network \<Rightarrow> remote_client \<Rightarrow> string \<Rightarrow> remote_client \<times> stroke list" where
  "remote_getStrokes net c bid = get_from net bid (targets c) c"

section \<open>The trace of a call\<close>

lemma client_fields [simp]:
  "rc_posts (fst (post net c p s)) = rc_posts c @ [(p, snd (post net c p s))]"
  "rc_delays (fst (post net c p s)) = rc_delays c"
  "rc_peers (fst (post net c p s)) = rc_peers c"
  "rc_posts (delay net c ms) = rc_posts c"
  "rc_delays (delay net c ms) = rc_delays c @ [ms]"
  "rc_peers (delay net c ms) = rc_peers c"
  "rc_gets (fst (getRaw net c p b)) = rc_gets c @ [(p, snd (getRaw net c p b))]"
  by (simp_all add: post_def delay_def getRaw_def resumed_def Let_def)

lemma post_eqD:
  assumes "post net c p s = (c1, r)"
  shows "rc_posts c1 = rc_posts c @ [(p, r)]" "rc_delays c1 = rc_delays c" "rc_peers c1 = rc_peers c"
  using assms client_fields(1-3)[of net c p s] by simp_all

definition acked :: "(url \<times> client_write_result option) list \<Rightarrow> bool" where
  "acked ps \<longleftrightarrow> (\<exists>u r. (u, Some r) \<in> set ps \<and> cw_success r)"

lemma acked_simps [simp]: "\<not> acked []" "acked (ps @ qs) \<longleftrightarrow> acked ps \<or> acked qs"
    "acked ((u, None) # ps) \<longleftrightarrow> acked ps" "acked ((u, Some r) # ps) \<longleftrightarrow> cw_success r \<or> acked ps"
  by (auto simp: acked_def)

text \<open>Every answer was given by the network.\<close>
definition answered :: "network \<Rightarrow> stroke \<Rightarrow> (url \<times> client_write_result option) list \<Rightarrow> bool" where
  "answered net s ps \<longleftrightarrow> (\<forall>u a. (u, a) \<in> set ps \<longrightarrow> (\<exists>i. a = net_post net i u s))"

lemma answered_simps [simp]: "answered net s []" "answered net s (ps @ qs) \<longleftrightarrow> answered net s ps \<and> answered net s qs"
  by (auto simp: answered_def)

text \<open>From \<open>c\<close> to \<open>c'\<close> there were at most \<open>n\<close> posts and no delay, and one was acknowledged just if \<open>ok\<close>.\<close>
definition traced :: "network \<Rightarrow> stroke \<Rightarrow> remote_client \<Rightarrow> remote_client \<Rightarrow> nat \<Rightarrow> bool \<Rightarrow> bool" where
  "traced net s c c' n ok \<longleftrightarrow>
     (\<exists>ps. rc_posts c' = rc_posts c @ ps \<and> length ps \<le> n \<and> answered net s ps \<and> (ok \<longleftrightarrow> acked ps)) \<and>
     rc_delays c' = rc_delays c \<and> rc_peers c' = rc_peers c"

lemma traced_refl: "traced net s c c n False"
  by (auto simp: traced_def intro!: exI[of _ "[]"])

lemma traced_leader [simp]:
  "traced net s (c\<lparr>rc_currentLeader := l\<rparr>) c' n ok \<longleftrightarrow> traced net s c c' n ok"
  "traced net s c (c'\<lparr>rc_currentLeader := l\<rparr>) n ok \<longleftrightarrow> traced net s c c' n ok"
  by (simp_all add: traced_def)

lemma post_answer: "\<exists>i. snd (post net c p s) = net_post net i p s"
  by (auto simp: post_def Let_def)

lemma traced_post:
  assumes "post net c p s = (c1, a)"
  shows "traced net s c c1 1 (\<exists>r. a = Some r \<and> cw_success r)"
  using post_eqD[OF assms] post_answer[of net c p s] assms
  by (cases a) (auto simp: traced_def answered_def)

lemma traced_trans:
  assumes "traced net s c c1 n1 b" and "traced net s c1 c2 n2 ok" and "n1 + n2 \<le> n"
  shows "traced net s c c2 n (b \<or> ok)"
proof -
  obtain ps qs where "rc_posts c1 = rc_posts c @ ps" "length ps \<le> n1" "answered net s ps" "b \<longleftrightarrow> acked ps"
    and "rc_posts c2 = rc_posts c1 @ qs" "length qs \<le> n2" "answered net s qs" "ok \<longleftrightarrow> acked qs"
    using assms(1,2) unfolding traced_def by blast
  then have "rc_posts c2 = rc_posts c @ (ps @ qs) \<and> length (ps @ qs) \<le> n \<and> answered net s (ps @ qs) \<and>
      (b \<or> ok \<longleftrightarrow> acked (ps @ qs))"
    using assms(3) by simp
  then show ?thesis using assms(1,2) unfolding traced_def by metis
qed

text \<open>One attempt: at most two posts per target, and true exactly if one was acknowledged.\<close>
lemma try_targets_trace:
  assumes "try_targets net s ts b c = (c', ok, r)"
  shows "traced net s c c' (2 * length ts) ok"
  using assms
proof (induction net s ts b c rule: try_targets.induct)
  case (1 net s b c)
  then show ?case by (simp add: traced_refl)
next
  case (2 net s p ts b c)
  obtain c1 a where a: "post net c p s = (c1, a)" by (cases "post net c p s")
  note t1 = traced_post[OF a]
  show ?case
  proof (cases a)
    case None
    have "traced net s c1 c' (2 * length ts) ok"
      using "2.IH"(1)[OF a[symmetric] None] "2.prems" a None by simp
    from traced_trans[OF t1 this, of "2 * length (p # ts)"] None show ?thesis by simp
  next
    case (Some result)
    consider (ok) "cw_success result" | (no) "\<not> cw_success result" "\<not> js_truthy (cw_leaderHint result)"
      | (hint) "\<not> cw_success result" "js_truthy (cw_leaderHint result)" by blast
    then show ?thesis
    proof cases
      case ok
      with t1 a Some "2.prems" traced_trans[OF t1 traced_refl, of 0 "2 * length (p # ts)"] show ?thesis by auto
    next
      case no
      have "traced net s c1 c' (2 * length ts) ok"
        using "2.IH"(4)[OF a[symmetric] Some no] "2.prems" a Some no by simp
      from traced_trans[OF t1 this, of "2 * length (p # ts)"] Some no show ?thesis by simp
    next
      case hint
      let ?c1 = "c1\<lparr>rc_currentLeader := cw_leaderHint result\<rparr>" and ?h = "the (cw_leaderHint result)"
      obtain c2 a2 where a2: "post net ?c1 ?h s = (c2, a2)" by (cases "post net ?c1 ?h s")
      have t2: "traced net s c c2 2 (\<exists>r. a2 = Some r \<and> cw_success r)"
        using traced_trans[OF t1 traced_post[OF a2, simplified], of 2] Some hint by simp
      show ?thesis
      proof (cases "\<exists>retry. a2 = Some retry \<and> cw_success retry")
        case True
        with a a2 Some hint "2.prems" have "c' = c2" "ok" by auto
        with traced_trans[OF t2 traced_refl, of 0 "2 * length (p # ts)"] True show ?thesis by simp
      next
        case False
        have "traced net s c2 c' (2 * length ts) ok"
          using "2.IH"(2)[OF a[symmetric] Some hint a2[symmetric]] "2.IH"(3)[OF a[symmetric] Some hint a2[symmetric]]
            "2.prems" a Some hint a2 False by (cases a2) auto
        from traced_trans[OF t2 this, of "2 * length (p # ts)"] False show ?thesis by simp
      qed
    qed
  qed
qed

lemma length_targets: "length (targets c) \<le> length (rc_peers c) + 1"
  by (simp add: targets_def)

text \<open>The delays still to come, from an attempt on.\<close>
definition delays_from :: "nat \<Rightarrow> nat list" where
  "delays_from attempt =
     map (\<lambda>k. min (writeRetryBaseDelayMs * 2 ^ k) writeRetryMaxDelayMs) [attempt..<maxWriteAttempts - 1]"

lemma write_attempts_trace:
  assumes "write_attempts net s attempt c = (c', ok)"
  shows "\<exists>ps ds. rc_posts c' = rc_posts c @ ps \<and>
    length ps \<le> (maxWriteAttempts - attempt) * (2 * (length (rc_peers c) + 1)) \<and>
    answered net s ps \<and> (ok \<longleftrightarrow> acked ps) \<and> rc_delays c' = rc_delays c @ ds \<and> prefix ds (delays_from attempt)"
  using assms
proof (induction net s attempt c rule: write_attempts.induct)
  case (1 net s attempt c)
  show ?case
  proof (cases "maxWriteAttempts \<le> attempt")
    case True
    then show ?thesis using "1.prems" by (simp add: write_attempts.simps)
  next
    case more: False
    obtain c1 fin retry where t: "try_targets net s (targets c) False c = (c1, fin, retry)"
      by (cases "try_targets net s (targets c) False c") auto
    from try_targets_trace[OF t] obtain ps where ps: "rc_posts c1 = rc_posts c @ ps"
        "length ps \<le> 2 * length (targets c)" "answered net s ps" "fin \<longleftrightarrow> acked ps" "rc_delays c1 = rc_delays c" "rc_peers c1 = rc_peers c"
      unfolding traced_def by blast
    have len: "length ps \<le> 2 * (length (rc_peers c) + 1)"
      using ps(2) length_targets[of c] by simp
    have once: "length ps \<le> (maxWriteAttempts - attempt) * (2 * (length (rc_peers c) + 1))"
      using len more by (metis Suc_leI le_trans mult_le_mono1 nat_mult_1 not_le zero_less_diff One_nat_def)
    show ?thesis
    proof (cases "fin \<or> \<not> retry \<or> attempt = maxWriteAttempts - 1")
      case True
      then have "c' = c1" "ok = fin"
        using "1.prems" t more by (auto simp: write_attempts.simps[of net s attempt] split: if_splits bool.splits)
      with ps once show ?thesis by auto
    next
      case False
      let ?d = "min (writeRetryBaseDelayMs * 2 ^ attempt) writeRetryMaxDelayMs"
      have rec: "write_attempts net s (attempt + 1) (delay net c1 ?d) = (c', ok)"
        using "1.prems" t more False by (simp add: write_attempts.simps[of net s attempt])
      obtain qs ds where qs: "rc_posts c' = rc_posts c1 @ qs"
          "length qs \<le> (maxWriteAttempts - (attempt + 1)) * (2 * (length (rc_peers c1) + 1))"
          "answered net s qs" "ok \<longleftrightarrow> acked qs" "rc_delays c' = rc_delays c1 @ ?d # ds" "prefix ds (delays_from (attempt + 1))"
        using "1.IH"[OF more t[symmetric] refl _ _ rec] False by auto
      have "delays_from attempt = ?d # delays_from (attempt + 1)"
        using more False upt_conv_Cons[of attempt "maxWriteAttempts - 1"] by (auto simp: delays_from_def)
      moreover have "length (ps @ qs) \<le> (maxWriteAttempts - attempt) * (2 * (length (rc_peers c) + 1))"
      proof -
        have "maxWriteAttempts - attempt = Suc (maxWriteAttempts - (attempt + 1))"
          using more by simp
        then show ?thesis using len qs(2) ps(6) by simp
      qed
      ultimately show ?thesis
        using ps qs False by (intro exI[of _ "ps @ qs"] exI[of _ "?d # ds"]) simp
    qed
  qed
qed

text \<open>A write that succeeded was acknowledged by the network's answer to one of its posts.\<close>
lemma submitStroke_acknowledged:
  assumes "submitStroke net c s = (c', True)"
  shows "\<exists>i u r. net_post net i u s = Some r \<and> cw_success r"
proof -
  obtain ps where "answered net s ps" "acked ps"
    using write_attempts_trace[of net s 0 c c' True] assms by (auto simp: submitStroke_def)
  then show ?thesis unfolding acked_def answered_def by metis
qed

text \<open>A peer that acknowledges whenever it is asked is found in the first attempt.\<close>
lemma try_targets_finds:
  assumes "p \<in> set ts" and "\<And>i. \<exists>r. net_post net i p s = Some r \<and> cw_success r"
  shows "fst (snd (try_targets net s ts b c))"
  using assms(1)
proof (induction ts arbitrary: b c)
  case (Cons t ts)
  show ?case
  proof (cases "t = p")
    case True
    obtain r where "net_post net (awaits c) p s = Some r" "cw_success r" using assms(2) by blast
    with True show ?thesis by (simp add: post_def Let_def)
  next
    case False
    with Cons show ?thesis by (auto split: option.split prod.split)
  qed
qed simp

lemma submitStroke_finds:
  assumes "p \<in> set (rc_peers c)" and "\<And>i. \<exists>r. net_post net i p s = Some r \<and> cw_success r"
  shows "snd (submitStroke net c s)"
proof -
  have "p \<in> set (targets c)" using assms(1) by (cases "rc_currentLeader c") (auto simp: targets_def)
  then have "fst (snd (try_targets net s (targets c) False c))"
    using assms(2) by (rule try_targets_finds)
  then show ?thesis
    by (auto simp: submitStroke_def write_attempts.simps[of net s 0] maxWriteAttempts_def split_beta split: bool.split)
qed

section \<open>Reads give confirmed strokes or none\<close>

definition given :: "network \<Rightarrow> string \<Rightarrow> (url \<times> (nat \<times> board_state_body) option) list \<Rightarrow> bool" where
  "given net bid gs \<longleftrightarrow> (\<forall>u a. (u, a) \<in> set gs \<longrightarrow> (\<exists>i. a = net_get net i u bid))"

definition confirmed :: "(url \<times> (nat \<times> board_state_body) option) list \<Rightarrow> stroke list \<Rightarrow> bool" where
  "confirmed gs strokes \<longleftrightarrow> (\<exists>u body. (u, Some (200, body)) \<in> set gs \<and> bsb_strokes body = strokes)"

definition none_confirmed :: "(url \<times> (nat \<times> board_state_body) option) list \<Rightarrow> bool" where
  "none_confirmed gs \<longleftrightarrow> (\<forall>u status body. (u, Some (status, body)) \<in> set gs \<longrightarrow> status \<noteq> 200)"

lemma read_trace_simps [simp]:
  "given net bid []" "given net bid (gs @ hs) \<longleftrightarrow> given net bid gs \<and> given net bid hs"
  "confirmed (gs @ hs) strokes \<longleftrightarrow> confirmed gs strokes \<or> confirmed hs strokes"
  by (auto simp: given_def confirmed_def)

lemma none_confirmed_simps [simp]:
  "none_confirmed []" "none_confirmed (gs @ hs) \<longleftrightarrow> none_confirmed gs \<and> none_confirmed hs"
  by (simp add: none_confirmed_def) (unfold none_confirmed_def set_append Un_iff, blast)

lemma tryGetStrokes_trace:
  assumes "tryGetStrokes net p bid follow c = (c', r)"
  shows "\<exists>gs. rc_gets c' = rc_gets c @ gs \<and> length gs \<le> (if follow then 2 else 1) \<and> given net bid gs \<and>
    (case r of Some strokes \<Rightarrow> confirmed gs strokes | None \<Rightarrow> none_confirmed gs)"
  using assms
proof (induction net p bid follow c rule: tryGetStrokes.induct)
  case (1 net p bid follow c)
  obtain c1 a where a: "getRaw net c p bid = (c1, a)" by (cases "getRaw net c p bid")
  have g: "rc_gets c1 = rc_gets c @ [(p, a)]" using a client_fields(7)[of net c p bid] by simp
  have a_given: "given net bid [(p, a)]"
    using a by (auto simp: getRaw_def Let_def given_def)
  note run = "1.prems"[unfolded tryGetStrokes.simps[of net p bid follow c] a prod.case]
  show ?case
  proof (cases "\<exists>body. a = Some (421, body) \<and> js_truthy (bsb_leaderHint body) \<and> follow")
    case True
    then obtain body where b: "a = Some (421, body)" "js_truthy (bsb_leaderHint body)" "follow" by blast
    have "tryGetStrokes net (the (bsb_leaderHint body)) bid False (c1\<lparr>rc_currentLeader := bsb_leaderHint body\<rparr>) = (c', r)"
      using run b by simp
    from "1.IH"[OF a[symmetric] b(1) refl _ _ this] b obtain gs where gs: "rc_gets c' = rc_gets c1 @ gs"
        "length gs \<le> 1" "given net bid gs" "case r of Some strokes \<Rightarrow> confirmed gs strokes | None \<Rightarrow> none_confirmed gs"
      by auto
    have "none_confirmed [(p, a)]" using b(1) by (simp add: none_confirmed_def)
    then have "given net bid ((p, a) # gs)" "none_confirmed ((p, a) # gs) \<longleftrightarrow> none_confirmed gs"
      "\<And>x. confirmed gs x \<Longrightarrow> confirmed ((p, a) # gs) x"
      using gs(3) a_given read_trace_simps(2)[of net bid "[(p, a)]" gs] none_confirmed_simps(2)[of "[(p, a)]" gs]
        read_trace_simps(3)[of "[(p, a)]" gs] by simp_all
    with g gs b(3) show ?thesis
      by (intro exI[of _ "(p, a) # gs"]) (auto split: option.splits)
  next
    case False
    with run g a_given show ?thesis
      by (cases a) (auto simp: confirmed_def none_confirmed_def split: if_splits)
  qed
qed

lemma get_from_trace:
  assumes "get_from net bid ts c = (c', strokes)"
  shows "\<exists>gs. rc_gets c' = rc_gets c @ gs \<and> length gs \<le> 2 * length ts \<and> given net bid gs \<and>
    (confirmed gs strokes \<or> none_confirmed gs \<and> strokes = [])"
  using assms
proof (induction ts arbitrary: c)
  case Nil
  then show ?case by (auto intro!: exI[of _ "[]"])
next
  case (Cons p ts)
  obtain c1 r where t: "tryGetStrokes net p bid True c = (c1, r)" by (cases "tryGetStrokes net p bid True c")
  from tryGetStrokes_trace[OF t] obtain gs where gs: "rc_gets c1 = rc_gets c @ gs" "length gs \<le> 2" "given net bid gs"
      "case r of Some strokes \<Rightarrow> confirmed gs strokes | None \<Rightarrow> none_confirmed gs" by auto
  show ?case
  proof (cases r)
    case (Some x)
    with Cons.prems t gs show ?thesis by auto
  next
    case None
    with Cons.prems t have "get_from net bid ts c1 = (c', strokes)" by simp
    from Cons.IH[OF this] obtain hs where "rc_gets c' = rc_gets c1 @ hs" "length hs \<le> 2 * length ts" "given net bid hs"
      "confirmed hs strokes \<or> none_confirmed hs \<and> strokes = []" by blast
    with gs None show ?thesis
      by (intro exI[of _ "gs @ hs"]) auto
  qed
qed

text \<open>Strokes that a read returns are those of an answer with status 200, or there are none.\<close>
lemma remote_getStrokes_given:
  assumes "remote_getStrokes net c bid = (c', strokes)"
  shows "strokes = [] \<or> (\<exists>i u body. net_get net i u bid = Some (200, body) \<and> bsb_strokes body = strokes)"
  using get_from_trace[OF assms[unfolded remote_getStrokes_def]]
  unfolding confirmed_def given_def by metis

end
