(* ===== verification/Gateway_Props.thy ===== *)
theory Gateway_Props
  imports Boards Gateway_Inv Remote_Client
begin

text \<open>
  The properties of the gateway: its rooms show what the replicas' boards show, only well-formed
  strokes of the connection get through and not too many of them, who is in a room, who is let
  in, and what the client of the replicas may be trusted with.
\<close>

section \<open>Rooms\<close>

text \<open>C27: A gateway without replicas shows the same strokes as a replica: after the same events, in the same
  order, its room and the replica's board hold the same strokes in the same order.\<close>
theorem gateway_same_board:
  "local_getStrokes (foldl (\<lambda>m s. fst (local_submitStroke m s)) [] evs) b =
     getStrokes (foldl applyBoardEvent new_boards evs) b"
proof -
  have e: "manager_view [] b = empty_view" "board_view_of new_boards b = empty_view"
    by (simp_all add: manager_view_def)
  have f: "(\<lambda>m s. fst (local_submitStroke m s)) = (\<lambda>m s. addStroke m (boardId s) s)"
    by (simp add: local_submitStroke_def fun_eq_iff)
  show ?thesis
    using gateway_boards.view_replay[of "[]" b evs] replica_boards.view_replay[of new_boards b evs] e
    by (simp add: local_getStrokes_def bm_getStrokes_view getStrokes_view f)
qed

section \<open>Strokes\<close>

text \<open>The validation accepts, of the strokes a client can send, exactly the well-formed ones of the
  connection, and what it passes on is the stroke that was sent.\<close>
theorem stroke_validation:
  "(validateStroke (Some (json_of_stroke s)) bid uid = Inr () \<longleftrightarrow>
      well_formed_stroke s \<and> boardId s = bid \<and> userId s = uid) \<and>
   stroke_of (json_of_stroke s) = s"
  by (simp add: validateStroke_json_of)

text \<open>C20: Whatever a client sends, what reaches the Raft client is the stroke that it sent, it names the board
  and the user of the connection, so that no connection writes to another board or in another name, and its id,
  colour and timestamp are in their bounds. A drawing also has a width and up to 2000 points that are pairs of
  finite numbers, and an undo or redo has a text as its target; the width and points of an undo or redo are
  what the client sent, unchecked. Until the client answers nothing is sent and no room changes.\<close>
theorem submitted_stroke_is_own:
  assumes "g_connections gw ws = Some info"
    and "handleMessage gw is_open ws data now = (gw1, out, Some (AwaitSubmit ws' bid s))"
  shows "ws' = ws \<and> bid = ci_boardId info \<and> boardId s = ci_boardId info \<and> userId s = ci_userId info \<and>
    well_formed_stroke s \<and> (\<exists>v. data = StrokeMessage (Some v) \<and> s = stroke_of v) \<and>
    g_boards gw1 = g_boards gw \<and> out = []"
proof -
  obtain v where v: "data = StrokeMessage v" and h: "handleStroke gw is_open ws v info now = (gw1, out, Some (AwaitSubmit ws' bid s))"
    using assms by (cases data) (auto simp: handleMessage_def handleJoin_def Let_def)
  have ok: "validateStroke v (ci_boardId info) (ci_userId info) = Inr ()"
    using h by (auto simp: handleStroke_def split: sum.splits)
  from validateStroke_sound[OF ok] obtain x where x: "v = Some x" "well_formed_stroke (stroke_of x)"
    "boardId (stroke_of x) = ci_boardId info" "userId (stroke_of x) = ci_userId info" .
  with h ok have "ws' = ws" "bid = ci_boardId info" "s = stroke_of x" "g_boards gw1 = g_boards gw" "out = []"
    by (auto simp: handleStroke_def Let_def split_beta split: if_splits)
  with x v show ?thesis by simp
qed

definition tidy_stroke :: stroke where
  "tidy_stroke = \<lparr>strokeId = ''s'', boardId = ''b'', userId = ''u'', color = ''#00ff00'', width = json_width (whole 3),
     points = json_points [(whole 0, whole 0), (whole 1, Finite 3 1)], timestamp = whole 0, action = None, targetStrokeId = None\<rparr>"

definition one_connection :: gateway where
  "one_connection = fst (onConnection (new_gateway (Some 50) None) 7 (Some ''b'') (Some ''u'') None 0)"

theorem submitted_stroke_is_own_witness:
  "well_formed_stroke tidy_stroke \<and> boardId tidy_stroke = ''b''"
proof -
  have c: "g_connections one_connection 7 =
      Some \<lparr>ci_boardId = ''b'', ci_userId = ''u'', ci_strokeCount = 0, ci_windowStart = 0\<rparr>"
    by (simp add: one_connection_def onConnection_def new_gateway_def hasUser_def getUserCount_def Let_def)
  have w: "well_formed_stroke tidy_stroke"
    by (simp add: well_formed_stroke_def tidy_stroke_def json_width_def json_points_def maxStrokePoints_def HEX_COLOR_def
        is_hex_def is_digit_def)
  have v: "validateStroke (Some (json_of_stroke tidy_stroke)) ''b'' ''u'' = Inr ()"
    using w by (simp add: validateStroke_json_of) (simp add: tidy_stroke_def)
  obtain gw1 where "handleMessage one_connection (\<lambda>_. True) 7 (StrokeMessage (Some (json_of_stroke tidy_stroke))) 5 =
      (gw1, [], Some (AwaitSubmit 7 ''b'' tidy_stroke))"
    using c v by (simp add: handleMessage_def handleStroke_def rate_limit_cases gateway_security)
  from submitted_stroke_is_own[OF c this] show ?thesis by simp
qed

text \<open>C26: The rate limit: whatever a connection sends, in no second do more than 120 of its strokes reach
  the Raft client, twice the limit of a window (the clock does not go back).\<close>
theorem rate_limit_bound:
  assumes "g_connections gw ws = Some info" and "sorted (map snd msgs)"
  shows "length (filter (\<lambda>t. lo \<le> t \<and> t < lo + 1000) (submissions gw is_open ws msgs)) \<le> 120"
proof -
  have "sorted (map snd (filter (carries_stroke info \<circ> fst) msgs))"
    using assms(2) by (rule sorted_filter)
  from admitted_any_span[OF this, of lo info] show ?thesis
    by (simp add: submissions_admitted[OF assms(1)] gateway_security)
qed

theorem rate_limit_bound_witness:
  "length (filter (\<lambda>t. 5 \<le> t \<and> t < 5 + 1000)
     (submissions one_connection (\<lambda>_. True) 7 [(NotJson, 3), (StrokeMessage (Some (json_of_stroke tidy_stroke)), 8)])) \<le> 120"
  by (rule rate_limit_bound[of one_connection 7 "\<lparr>ci_boardId = ''b'', ci_userId = ''u'', ci_strokeCount = 0, ci_windowStart = 0\<rparr>"])
    (simp_all add: one_connection_def onConnection_def new_gateway_def hasUser_def getUserCount_def Let_def)

section \<open>Connections\<close>

text \<open>C25: Who is in the rooms. As long as clients join the board and in the name they connected with, the room of
  a board holds a socket under a user exactly if it is a connection of that user to that board
  whose join was handled and which has not closed since; a user is counted exactly if a socket is there, and
  boards and users are kept once. This holds through every sequence of connections, messages and closings.\<close>
theorem rooms_track_connections:
  assumes "gw_run limit token J gw"
  shows "rooms_ok (g_boards gw) \<and> (\<forall>ws\<in>J. g_connections gw ws \<noteq> None) \<and>
    (\<forall>bid uid ws. in_room (g_boards gw) bid uid ws \<longleftrightarrow>
       ws \<in> J \<and> (\<exists>info. g_connections gw ws = Some info \<and> ci_boardId info = bid \<and> ci_userId info = uid)) \<and>
    (\<forall>bid uid. hasUser (g_boards gw) bid uid \<longleftrightarrow> (\<exists>ws. in_room (g_boards gw) bid uid ws))"
proof -
  have "rooms_ok (g_boards gw)" using gw_reachable_inv[OF gw_run_reachable[OF assms]] by (simp add: gw_inv_def)
  then show ?thesis
    using gw_run_exact[OF assms] hasUser_in_room by (auto simp: rooms_exact_def named_def)
qed

definition joined_gateway :: gateway where
  "joined_gateway = fst (serve_local one_connection (\<lambda>_. True) 7 (JoinMessage ''b'' ''u'') 1)"

theorem rooms_track_connections_witness:
  "rooms_ok (g_boards joined_gateway) \<and> in_room (g_boards joined_gateway) ''b'' ''u'' 7"
proof -
  have c: "g_connections one_connection 7 =
      Some \<lparr>ci_boardId = ''b'', ci_userId = ''u'', ci_strokeCount = 0, ci_windowStart = 0\<rparr>"
    by (simp add: one_connection_def onConnection_def new_gateway_def hasUser_def getUserCount_def Let_def)
  have "gw_run (Some 50) None {} one_connection"
    unfolding one_connection_def by (rule gw_run.connect[OF gw_run.start]) (simp add: new_gateway_def)
  moreover have "honest_text one_connection 7 (JoinMessage ''b'' ''u'')" by (simp add: honest_text_def c)
  ultimately have "gw_run (Some 50) None (joined_after {} one_connection 7 (JoinMessage ''b'' ''u'')) joined_gateway"
    unfolding joined_gateway_def by (rule gw_run.receive_local)
  moreover have "g_connections joined_gateway 7 = g_connections one_connection 7"
    using c by (simp add: joined_gateway_def serve_local_def handleMessage_def handleJoin_def settle_local_def settle_def Let_def)
  ultimately show ?thesis
    using rooms_track_connections[of "Some 50" None "{7}" joined_gateway] c by (simp add: joins_def)
qed

text \<open>C28: Who is let in: exactly a client with the configured token (any client if none is configured) that
  names a board and a user, and is on the board already or finds fewer users there than the limit.
  The check throws, in the handler of the socket, exactly for a token of the right number of
  characters but another number of bytes.\<close>
theorem admission_rule:
  "(snd (onConnection gw ws bidParam uidParam token now) = Admitted \<longleftrightarrow>
      (g_authToken gw = None \<or> token = g_authToken gw \<and> token \<noteq> Some []) \<and>
      js_truthy bidParam \<and> js_truthy uidParam \<and>
      (hasUser (g_boards gw) (the bidParam) (the uidParam) \<or>
       (case g_maxUsersPerBoard gw of None \<Rightarrow> True
        | Some limit \<Rightarrow> int (getUserCount (g_boards gw) (the bidParam)) < limit))) \<and>
   ((\<exists>err. snd (onConnection gw ws bidParam uidParam token now) = Thrown err) \<longleftrightarrow>
      (\<exists>q t. token = Some q \<and> g_authToken gw = Some t \<and> q \<noteq> [] \<and> length q = length t \<and>
         length (utf8 q) \<noteq> length (utf8 t)))"
proof (intro conjI)
  show "snd (onConnection gw ws bidParam uidParam token now) = Admitted \<longleftrightarrow>
      (g_authToken gw = None \<or> token = g_authToken gw \<and> token \<noteq> Some []) \<and>
      js_truthy bidParam \<and> js_truthy uidParam \<and>
      (hasUser (g_boards gw) (the bidParam) (the uidParam) \<or>
       (case g_maxUsersPerBoard gw of None \<Rightarrow> True
        | Some limit \<Rightarrow> int (getUserCount (g_boards gw) (the bidParam)) < limit))"
    unfolding tokensMatch_True[symmetric]
    by (auto simp: onConnection_def Let_def split: sum.splits bool.splits option.splits)
  show "(\<exists>err. snd (onConnection gw ws bidParam uidParam token now) = Thrown err) \<longleftrightarrow>
      (\<exists>q t. token = Some q \<and> g_authToken gw = Some t \<and> q \<noteq> [] \<and> length q = length t \<and>
         length (utf8 q) \<noteq> length (utf8 t))"
    unfolding tokensMatch_throws[symmetric]
    by (auto simp: onConnection_def Let_def split: sum.splits bool.splits)
qed

text \<open>An unauthenticated client can make the check throw.\<close>
lemma token_check_throws:
  "snd (onConnection (new_gateway (Some 50) (Some ''secret'')) 1 None None (Some [CHR ''s'', CHR ''e'', CHR ''c'', CHR ''r'', CHR ''e'', CHR 0xE9]) 0) =
     Thrown InputBuffersMustHaveSameLength"
  by code_simp

text \<open>A join is not held to the connection it comes on: a client that joins another board, or in another name,
  stays in that room after its socket has closed.\<close>
lemma join_escapes_the_connection:
  assumes "g_connections gw ws = Some info" and "(bid, uid) \<noteq> (ci_boardId info, ci_userId info)"
    and "gw1 = fst (handleMessage gw is_open ws (JoinMessage bid uid) now)" and "gw2 = fst (onClose gw1 is_open ws)"
  shows "g_connections gw2 ws = None \<and> in_room (g_boards gw2) bid uid ws"
proof -
  have gw1: "gw1 = gw\<lparr>g_boards := fst (joinBoard (g_boards gw) bid uid ws)\<rparr>"
    using assms(1,3) by (simp add: handleMessage_def handleJoin_def Let_def)
  then have "g_connections gw1 ws = Some info" using assms(1) by simp
  then show ?thesis
    using assms(2,4) by (auto simp: gw1 onClose_def split_beta Let_def in_room_leaveBoard in_room_joinBoard)
qed

text \<open>The limit of users counts those in the room, so clients that connect before any of them joins pass it.\<close>
lemma user_limit_is_passed:
  "(let gw1 = fst (onConnection (new_gateway (Some 1) None) 1 (Some ''b'') (Some ''u'') None 0);
        (gw2, admission) = onConnection gw1 2 (Some ''b'') (Some ''v'') None 0;
        gw3 = fst (serve_local gw2 (\<lambda>_. True) 1 (JoinMessage ''b'' ''u'') 1);
        gw4 = fst (serve_local gw3 (\<lambda>_. True) 2 (JoinMessage ''b'' ''v'') 1)
    in admission = Admitted \<and> getUserCount (g_boards gw4) ''b'' = 2)"
  by code_simp

section \<open>The client of the replicas\<close>

text \<open>C22: A write through the gateway ends: at most five attempts, each with at most two posts for every peer
  and the remembered leader, with delays of 120, 240, 480 and 960 milliseconds between them; and it
  reports success exactly if one of its posts was acknowledged, whatever the network and the other
  calls of the client do.\<close>
theorem submit_stroke_contract:
  assumes "submitStroke net (new_RemoteRaftClient peers) s = (c, ok)"
  shows "length (rc_posts c) \<le> 10 * (length peers + 1) \<and> prefix (rc_delays c) [120, 240, 480, 960] \<and>
    (ok \<longleftrightarrow> (\<exists>peer r. (peer, Some r) \<in> set (rc_posts c) \<and> cw_success r))"
proof -
  have d: "delays_from 0 = [120, 240, 480, 960]"
    by (simp add: delays_from_def gateway_timing upt_rec)
  from write_attempts_trace[OF assms[unfolded submitStroke_def]] show ?thesis
    by (auto simp: new_RemoteRaftClient_def d maxWriteAttempts_def acked_def)
qed

definition leader_hint_net :: network where
  "leader_hint_net = \<lparr>
     net_post = (\<lambda>i peer s. if peer = ''c'' then (if i < 3 then None else Some \<lparr>cw_success = True, cw_leaderHint = None\<rparr>)
       else if peer = ''a'' then Some \<lparr>cw_success = False, cw_leaderHint = Some ''c''\<rparr> else None),
     net_get = (\<lambda>i peer b. if peer = ''c'' then Some (200, \<lparr>bsb_strokes = [tidy_stroke], bsb_leaderHint = None\<rparr>)
       else if peer = ''a'' then Some (421, \<lparr>bsb_strokes = [], bsb_leaderHint = Some ''c''\<rparr>) else None),
     net_meanwhile = (\<lambda>i l. l)\<rparr>"

theorem submit_stroke_contract_witness:
  "let (c, ok) = submitStroke leader_hint_net (new_RemoteRaftClient [''a'', ''b'']) tidy_stroke
   in ok \<and> length (rc_posts c) \<le> 30 \<and> prefix (rc_delays c) [120, 240, 480, 960]"
proof -
  obtain c ok where r: "submitStroke leader_hint_net (new_RemoteRaftClient [''a'', ''b'']) tidy_stroke = (c, ok)"
    by (cases "submitStroke leader_hint_net (new_RemoteRaftClient [''a'', ''b'']) tidy_stroke")
  have "snd (submitStroke leader_hint_net (new_RemoteRaftClient [''a'', ''b'']) tidy_stroke)"
    by code_simp
  with r submit_stroke_contract[OF r] show ?thesis by simp
qed

text \<open>A leader among the peers is found: if some peer acknowledges the stroke whenever it is asked, the
  write succeeds, whatever the others answer and whichever leader the client remembers.\<close>
theorem leader_is_found:
  assumes "p \<in> set (rc_peers c)" and "\<forall>i. \<exists>r. net_post net i p s = Some r \<and> cw_success r"
  shows "snd (submitStroke net c s)"
  using assms by (intro submitStroke_finds[of p]) auto

theorem leader_is_found_witness:
  "snd (submitStroke (leader_hint_net\<lparr>net_post := (\<lambda>i peer s. if peer = ''b'' then Some \<lparr>cw_success = True, cw_leaderHint = None\<rparr> else None)\<rparr>)
     ((new_RemoteRaftClient [''a'', ''b''])\<lparr>rc_currentLeader := Some ''gone''\<rparr>) tidy_stroke)"
  by (rule leader_is_found[of "''b''"]) (simp_all add: new_RemoteRaftClient_def)

text \<open>A read through the gateway makes at most two requests for every peer and the remembered leader, and
  returns the strokes of an answer with status 200 it received, or none at all if there was no such
  answer: an unconfirmed answer is never shown, but it looks like an empty board.\<close>
theorem read_is_confirmed_or_empty:
  assumes "remote_getStrokes net (new_RemoteRaftClient peers) bid = (c, strokes)"
  shows "length (rc_gets c) \<le> 2 * (length peers + 1) \<and>
    ((\<exists>peer body. (peer, Some (200, body)) \<in> set (rc_gets c) \<and> bsb_strokes body = strokes) \<or>
     (\<forall>peer status body. (peer, Some (status, body)) \<in> set (rc_gets c) \<longrightarrow> status \<noteq> 200) \<and> strokes = [])"
  using get_from_trace[OF assms[unfolded remote_getStrokes_def]]
  by (auto simp: new_RemoteRaftClient_def targets_def confirmed_def none_confirmed_def)

theorem read_is_confirmed_or_empty_witness:
  "let (c, strokes) = remote_getStrokes leader_hint_net (new_RemoteRaftClient [''a'', ''b'']) ''b''
   in map strokeId strokes = [''s''] \<and> length (rc_gets c) \<le> 6"
proof -
  obtain c strokes where r: "remote_getStrokes leader_hint_net (new_RemoteRaftClient [''a'', ''b'']) ''b'' = (c, strokes)"
    by (cases "remote_getStrokes leader_hint_net (new_RemoteRaftClient [''a'', ''b'']) ''b''")
  have "map strokeId (snd (remote_getStrokes leader_hint_net (new_RemoteRaftClient [''a'', ''b'']) ''b'')) = [''s'']"
    by code_simp
  with r read_is_confirmed_or_empty[OF r] show ?thesis by simp
qed

end
