(* ===== verification/Gateway_Service.thy ===== *)
theory Gateway_Service
  imports Gateway Remote_Client Metrics
begin

text \<open>
  The gateway as a service: its configuration (\<open>gateway/src/config.ts\<close>), the status it collects from
  the replicas (\<open>gateway/src/clusterStatus.ts\<close>) and its HTTP server (\<open>gateway/src/index.ts\<close>). What
  the replicas answer to the status requests, and the time as text, are arguments; the headers of a
  response are a list in the order they are set.
\<close>

section \<open>Configuration\<close>

record gateway_config =
  gc_port :: "int option"
  gc_raftPeers :: "url list"
  gc_maxUsersPerBoard :: "int option"
  gc_authToken :: "string option"
  gc_allowedOrigins :: "string list"

definition comma_list :: "string \<Rightarrow> string list" where
  "comma_list s = filter (\<lambda>p. length p > 0) (map js_trim (js_split (CHR '','') s))"

definition parseGatewayConfig :: "(string \<rightharpoonup> string) \<Rightarrow> gateway_config" where
  "parseGatewayConfig env =
     \<lparr>gc_port = js_parseInt (nullish (env ''PORT'') ''8080''),
      gc_raftPeers = comma_list (nullish (env ''RAFT_PEERS'') []),
      gc_maxUsersPerBoard = js_parseInt (nullish (env ''MAX_USERS_PER_BOARD'') ''50''),
      gc_authToken = (if js_truthy (env ''AUTH_TOKEN'') then env ''AUTH_TOKEN'' else None),
      gc_allowedOrigins = comma_list (nullish (env ''ALLOWED_ORIGINS'') ''http://localhost:5173'')\<rparr>"

text \<open>
  \<open>createWsServer\<close> reads the environment itself: the rooms and connections are new, and the client
  of the replicas is remote exactly if there are peers.
\<close>
definition createWsServer :: "(string \<rightharpoonup> string) \<Rightarrow> gateway \<times> remote_client option" where
  "createWsServer env =
     (let cfg = parseGatewayConfig env
      in (new_gateway (gc_maxUsersPerBoard cfg) (gc_authToken cfg),
          if length (gc_raftPeers cfg) > 0 then Some (new_RemoteRaftClient (gc_raftPeers cfg)) else None))"

section \<open>Cluster status\<close>

record replica_health =
  rh_status :: "string option"
  rh_replicaId :: "string option"

record replica_cluster_status =
  rs_peer :: url
  rs_healthy :: bool
  rs_replicaId :: string
  rs_state :: "node_state option"
  rs_currentTerm :: "nat option"
  rs_leaderId :: "string option"
  rs_logLength :: "nat option"
  rs_commitIndex :: "nat option"
  rs_lastApplied :: "nat option"
  rs_error :: "string option"

record cluster_status =
  cs_generatedAt :: string
  cs_totalReplicas :: nat
  cs_healthyReplicas :: nat
  cs_majority :: nat
  cs_leaderReplicaId :: "string option"
  cs_leaderCount :: nat
  cs_replicas :: "replica_cluster_status list"

text \<open>
  What \<open>fetch\<close> gives for a URL, with the milliseconds it takes: a status and a body, or the message it
  throws. An abort throws too; the timeout has fired by then or is cleared.
\<close>
type_synonym 'a fetched = "nat \<times> (string + nat \<times> 'a)"

record status_fetch =
  sf_health :: "url \<Rightarrow> replica_health fetched"
  sf_status :: "url \<Rightarrow> replica_status fetched"

definition STATUS_TIMEOUT_MS :: nat where "STATUS_TIMEOUT_MS = 1500"

definition abort_text :: string where "abort_text = ''This operation was aborted''"

text \<open>When the promise is settled, and how.\<close>
definition fetchJson :: "'a fetched \<Rightarrow> nat \<Rightarrow> nat \<times> (string + 'a)" where
  "fetchJson answer timeoutMs =
     (if timeoutMs \<le> fst answer then (timeoutMs, Inl abort_text)
      else (fst answer,
            case snd answer of
              Inl message \<Rightarrow> Inl message
            | Inr (status, body) \<Rightarrow>
                if \<not> (200 \<le> status \<and> status < 300) then Inl (''HTTP '' @ show_nat status) else Inr body))"

text \<open>\<open>Promise.all\<close> of two: both values, or the rejection that comes first.\<close>
definition promise_all :: "nat \<times> (string + 'a) \<Rightarrow> nat \<times> (string + 'b) \<Rightarrow> string + 'a \<times> 'b" where
  "promise_all x y =
     (case (snd x, snd y) of
        (Inr a, Inr b) \<Rightarrow> Inr (a, b)
      | (Inl e, Inr b) \<Rightarrow> Inl e
      | (Inr a, Inl e) \<Rightarrow> Inl e
      | (Inl e, Inl e') \<Rightarrow> Inl (if fst x \<le> fst y then e else e'))"

definition fetchReplicaClusterStatus :: "status_fetch \<Rightarrow> url \<Rightarrow> replica_cluster_status" where
  "fetchReplicaClusterStatus net peer =
     (case promise_all (fetchJson (sf_health net (peer @ ''/health'')) STATUS_TIMEOUT_MS)
             (fetchJson (sf_status net (peer @ ''/status'')) STATUS_TIMEOUT_MS) of
        Inr (health, status) \<Rightarrow>
          \<lparr>rs_peer = peer, rs_healthy = (rh_status health = Some ''ok''), rs_replicaId = st_replicaId status,
           rs_state = Some (st_state status), rs_currentTerm = Some (st_currentTerm status),
           rs_leaderId = st_leaderId status, rs_logLength = Some (st_logLength status),
           rs_commitIndex = Some (st_commitIndex status), rs_lastApplied = Some (st_lastApplied status), rs_error = None\<rparr>
      | Inl message \<Rightarrow>
          \<lparr>rs_peer = peer, rs_healthy = False, rs_replicaId = peer, rs_state = None, rs_currentTerm = None,
           rs_leaderId = None, rs_logLength = None, rs_commitIndex = None, rs_lastApplied = None, rs_error = Some message\<rparr>)"

definition collectClusterStatus :: "status_fetch \<Rightarrow> url list \<Rightarrow> string \<Rightarrow> cluster_status" where
  "collectClusterStatus net peers now =
     (let replicas = map (fetchReplicaClusterStatus net) peers;
          leaders = filter (\<lambda>r. rs_state r = Some Leader) replicas
      in \<lparr>cs_generatedAt = now, cs_totalReplicas = length peers,
          cs_healthyReplicas = length (filter rs_healthy replicas),
          cs_majority = length peers div 2 + 1,
          cs_leaderReplicaId = map_option rs_replicaId (js_at leaders 0),
          cs_leaderCount = length leaders, cs_replicas = replicas\<rparr>)"

section \<open>The HTTP server\<close>

record http_request =
  rq_method :: string
  rq_url :: string
  rq_origin :: "string option"
  rq_authorization :: "string option"

datatype http_body =
    NoBody
  | HealthOk
  | ErrorText string
  | ClusterStatusBody cluster_status
  | Banner

record http_response =
  rp_status :: nat
  rp_headers :: "(string \<times> string) list"
  rp_body :: http_body

definition writeCors :: "gateway_config \<Rightarrow> http_request \<Rightarrow> (string \<times> string) list" where
  "writeCors cfg req =
     (if ''*'' \<in> set (gc_allowedOrigins cfg) then [(''Access-Control-Allow-Origin'', ''*'')]
      else if js_truthy (rq_origin req) \<and> the (rq_origin req) \<in> set (gc_allowedOrigins cfg)
      then [(''Access-Control-Allow-Origin'', the (rq_origin req)), (''Vary'', ''Origin'')]
      else [])
     @ [(''Access-Control-Allow-Methods'', ''GET,OPTIONS''),
        (''Access-Control-Allow-Headers'', ''Content-Type, Authorization'')]"

definition bearer :: string where "bearer = ''Bearer ''"

definition isAuthorized :: "gateway_config \<Rightarrow> http_request \<Rightarrow> range_error + bool" where
  "isAuthorized cfg req =
     (let header = rq_authorization req;
          token = (case header of
                     Some h \<Rightarrow> if take (length bearer) h = bearer then Some (drop (length bearer) h) else None
                   | None \<Rightarrow> None)
      in tokensMatch token (gc_authToken cfg))"

definition sendJson :: "gateway_config \<Rightarrow> http_request \<Rightarrow> nat \<Rightarrow> http_body \<Rightarrow> http_response" where
  "sendJson cfg req statusCode payload =
     \<lparr>rp_status = statusCode, rp_headers = writeCors cfg req @ [(''Content-Type'', ''application/json'')], rp_body = payload\<rparr>"

text \<open>The text of an error that is thrown and answered with status 500.\<close>
definition range_error_text :: string where
  "range_error_text = ''Input buffers must have the same byte length''"

definition http_serve ::
    "gateway_config \<Rightarrow> http_request \<Rightarrow> status_fetch \<Rightarrow> string \<Rightarrow> http_response" where
  "http_serve cfg req net now =
     (if rq_method req = ''OPTIONS'' then \<lparr>rp_status = 204, rp_headers = writeCors cfg req, rp_body = NoBody\<rparr>
      else if rq_url req = ''/health'' then sendJson cfg req 200 HealthOk
      else if rq_url req = ''/cluster-status'' then
        (case isAuthorized cfg req of
           Inl _ \<Rightarrow> sendJson cfg req 500 (ErrorText range_error_text)
         | Inr False \<Rightarrow> sendJson cfg req 401 (ErrorText ''Unauthorized'')
         | Inr True \<Rightarrow>
             if length (gc_raftPeers cfg) = 0 then sendJson cfg req 503 (ErrorText ''RAFT_PEERS not configured'')
             else sendJson cfg req 200 (ClusterStatusBody (collectClusterStatus net (gc_raftPeers cfg) now)))
      else \<lparr>rp_status = 200, rp_headers = writeCors cfg req @ [(''Content-Type'', ''text/plain'')], rp_body = Banner\<rparr>)"

section \<open>The main module\<close>

text \<open>
  \<open>createGatewayServer\<close>: the HTTP server has the configuration it is given, the WebSocket server
  the one of the environment. The main module parses the environment for both.
\<close>
record gateway_server =
  gs_config :: gateway_config
  gs_gateway :: gateway
  gs_client :: "remote_client option"

definition createGatewayServer :: "gateway_config \<Rightarrow> (string \<rightharpoonup> string) \<Rightarrow> gateway_server" where
  "createGatewayServer cfg env =
     \<lparr>gs_config = cfg, gs_gateway = fst (createWsServer env), gs_client = snd (createWsServer env)\<rparr>"

definition gateway_main :: "(string \<rightharpoonup> string) \<Rightarrow> gateway_server \<times> int option" where
  "gateway_main env =
     (let cfg = parseGatewayConfig env in (createGatewayServer cfg env, gc_port cfg))"

section \<open>What the service answers\<close>

text \<open>In the main module both servers ask for the same token.\<close>
lemma main_token: "g_authToken (gs_gateway (fst (gateway_main env))) = gc_authToken (gs_config (fst (gateway_main env)))"
  by (simp add: gateway_main_def createGatewayServer_def createWsServer_def new_gateway_def Let_def)

text \<open>A token that is only in the configuration, not in the environment, does not guard the WebSocket.\<close>
lemma token_not_passed_on:
  assumes "\<not> js_truthy (env ''AUTH_TOKEN'')"
  shows "g_authToken (gs_gateway (createGatewayServer cfg env)) = None"
  using assms by (simp add: createGatewayServer_def createWsServer_def new_gateway_def parseGatewayConfig_def Let_def)

text \<open>The collection of the status ends within the timeout of one request.\<close>
lemma fetchJson_in_time: "fst (fetchJson answer t) \<le> t"
  by (simp add: fetchJson_def)

text \<open>A replica that answers in time is shown as it is; one of which a request fails is not healthy.\<close>
lemma status_of_replica:
  assumes "sf_health net (peer @ ''/health'') = (t, Inr (200, h))" and "sf_status net (peer @ ''/status'') = (t', Inr (200, st))"
    and "t < STATUS_TIMEOUT_MS" and "t' < STATUS_TIMEOUT_MS"
  shows "rs_state (fetchReplicaClusterStatus net peer) = Some (st_state st)"
    and "rs_healthy (fetchReplicaClusterStatus net peer) \<longleftrightarrow> rh_status h = Some ''ok''"
  using assms by (simp_all add: fetchReplicaClusterStatus_def promise_all_def fetchJson_def)

lemma status_of_silent_replica:
  assumes "STATUS_TIMEOUT_MS \<le> fst (sf_status net (peer @ ''/status''))"
  shows "\<not> rs_healthy (fetchReplicaClusterStatus net peer)" and "rs_error (fetchReplicaClusterStatus net peer) \<noteq> None"
proof -
  obtain e where "promise_all (fetchJson (sf_health net (peer @ ''/health'')) STATUS_TIMEOUT_MS)
      (fetchJson (sf_status net (peer @ ''/status'')) STATUS_TIMEOUT_MS) = Inl e"
    using assms by (cases "snd (fetchJson (sf_health net (peer @ ''/health'')) STATUS_TIMEOUT_MS)")
      (auto simp: promise_all_def fetchJson_def[of "sf_status net (peer @ ''/status'')"])
  then show "\<not> rs_healthy (fetchReplicaClusterStatus net peer)" "rs_error (fetchReplicaClusterStatus net peer) \<noteq> None"
    by (simp_all add: fetchReplicaClusterStatus_def)
qed

lemma comma_list_nonempty: "p \<in> set (comma_list s) \<Longrightarrow> p \<noteq> []"
  by (simp add: comma_list_def)

text \<open>The majority in the status is the one the replicas use, for a status of the whole cluster.\<close>
lemma status_majority:
  "peers \<noteq> [] \<Longrightarrow> cs_majority (collectClusterStatus net peers now) = majority (length peers - 1)"
  by (cases peers) (simp_all add: collectClusterStatus_def majority_def Let_def)

lemma status_counts:
  "cs_healthyReplicas (collectClusterStatus net peers now) \<le> cs_totalReplicas (collectClusterStatus net peers now)"
  "cs_leaderCount (collectClusterStatus net peers now) \<le> cs_totalReplicas (collectClusterStatus net peers now)"
  by (simp_all add: collectClusterStatus_def Let_def)

text \<open>The status of the cluster is given only with the token, if one is configured.\<close>
lemma cluster_status_needs_token:
  assumes "rp_body (http_serve cfg req net now) = ClusterStatusBody st"
  shows "gc_authToken cfg = None \<or>
    (\<exists>t. gc_authToken cfg = Some t \<and> t \<noteq> [] \<and> rq_authorization req = Some (bearer @ t))"
proof -
  have "isAuthorized cfg req = Inr True"
    using assms by (auto simp: http_serve_def sendJson_def split: if_splits sum.splits bool.splits)
  then consider "gc_authToken cfg = None"
    | h where "rq_authorization req = Some h" "take (length bearer) h = bearer"
        "gc_authToken cfg = Some (drop (length bearer) h)" "drop (length bearer) h \<noteq> []"
    by (auto simp: isAuthorized_def tokensMatch_True Let_def split: option.splits if_splits)
  then show ?thesis
    by cases (metis append_take_drop_id)+
qed

text \<open>An origin that is not listed is never allowed, unless every origin is.\<close>
lemma cors_listed:
  assumes "(''Access-Control-Allow-Origin'', origin) \<in> set (rp_headers (http_serve cfg req net now))"
  shows "origin \<in> set (gc_allowedOrigins cfg)"
  using assms by (auto simp: http_serve_def sendJson_def writeCors_def split: if_splits sum.splits bool.splits)

end
