(* ===== verification/Frontend_Socket.thy ===== *)
theory Frontend_Socket
  imports Prelude
begin

text \<open>
  The reconnecting socket of a browser, \<open>frontend/src/hooks/useWebSocket.ts\<close>: the sockets the hook has
  made, each with its ready state, the one in the reference, the counter of attempts and the timers
  that run. The browser's events (opened, closed, failed, timer) and the calls of the component
  (send, effect, cleanup) are the operations; incoming messages go to the board and change nothing here.
\<close>

section \<open>State\<close>

datatype ready_state = CONNECTING | OPEN | CLOSING | CLOSED

datatype connection_status = Connecting | Connected | Disconnected

text \<open>
  \<open>wh_timers\<close> are the timers that have not fired or been cleared, by number, with their delays;
  \<open>reconnectTimerRef\<close> holds the number of the last one. \<open>wh_sent\<close> is what was sent: the
  socket, and whether it was the join message.
\<close>
record ws_hook =
  wh_status :: connection_status
  wh_sockets :: "ready_state list"
  wh_ref :: "nat option"
  wh_reconnectAttempt :: nat
  wh_timers :: "(nat \<times> nat) list"
  wh_timerRef :: "nat option"
  wh_nextTimer :: nat
  wh_sent :: "(nat \<times> bool) list"

definition RECONNECT_BASE_DELAY :: nat where "RECONNECT_BASE_DELAY = 1000"
definition RECONNECT_MAX_DELAY :: nat where "RECONNECT_MAX_DELAY = 30000"

definition new_hook :: ws_hook where
  "new_hook = \<lparr>wh_status = Disconnected, wh_sockets = [], wh_ref = None, wh_reconnectAttempt = 0,
     wh_timers = [], wh_timerRef = None, wh_nextTimer = 0, wh_sent = []\<rparr>"

text \<open>\<open>wsRef.current?.readyState\<close>\<close>
definition ref_state :: "ws_hook \<Rightarrow> ready_state option" where
  "ref_state h = (case wh_ref h of None \<Rightarrow> None | Some i \<Rightarrow> js_at (wh_sockets h) i)"

lemma ref_state_timers [simp]: "ref_state (h\<lparr>wh_timers := ts\<rparr>) = ref_state h"
  by (simp add: ref_state_def split: option.split)

section \<open>Operations\<close>

definition hook_send :: "ws_hook \<Rightarrow> bool \<Rightarrow> ws_hook \<times> bool" where
  "hook_send h is_join =
     (if ref_state h = Some OPEN then (h\<lparr>wh_sent := wh_sent h @ [(the (wh_ref h), is_join)]\<rparr>, True)
      else (h, False))"

definition connect :: "ws_hook \<Rightarrow> ws_hook" where
  "connect h =
     (if ref_state h = Some OPEN \<or> ref_state h = Some CONNECTING then h
      else h\<lparr>wh_status := Connecting, wh_ref := Some (length (wh_sockets h)), wh_sockets := wh_sockets h @ [CONNECTING]\<rparr>)"

text \<open>\<open>ws.close()\<close>\<close>
definition close_socket :: "ws_hook \<Rightarrow> nat \<Rightarrow> ws_hook" where
  "close_socket h i =
     (if js_at (wh_sockets h) i \<in> {Some CONNECTING, Some OPEN} then h\<lparr>wh_sockets := (wh_sockets h)[i := CLOSING]\<rparr> else h)"

definition onopen :: "ws_hook \<Rightarrow> nat \<Rightarrow> ws_hook" where
  "onopen h i =
     (let h1 = h\<lparr>wh_sockets := (wh_sockets h)[i := OPEN]\<rparr>;
          h2 = h1\<lparr>wh_status := Connected, wh_reconnectAttempt := 0\<rparr>
      in fst (hook_send h2 True))"

definition reconnect_delay :: "nat \<Rightarrow> nat" where
  "reconnect_delay attempt = min (RECONNECT_BASE_DELAY * 2 ^ attempt) RECONNECT_MAX_DELAY"

definition onclose :: "ws_hook \<Rightarrow> nat \<Rightarrow> ws_hook" where
  "onclose h i =
     (let h1 = h\<lparr>wh_sockets := (wh_sockets h)[i := CLOSED], wh_status := Disconnected\<rparr>;
          attempt = wh_reconnectAttempt h1;
          n = wh_nextTimer h1
      in h1\<lparr>wh_reconnectAttempt := attempt + 1, wh_timers := wh_timers h1 @ [(n, reconnect_delay attempt)],
            wh_timerRef := Some n, wh_nextTimer := n + 1\<rparr>)"

definition onerror :: "ws_hook \<Rightarrow> nat \<Rightarrow> ws_hook" where
  "onerror h i = close_socket h i"

definition timer_fires :: "ws_hook \<Rightarrow> nat \<Rightarrow> ws_hook" where
  "timer_fires h n =
     (if n \<in> fst ` set (wh_timers h) then connect (h\<lparr>wh_timers := filter (\<lambda>t. fst t \<noteq> n) (wh_timers h)\<rparr>) else h)"

text \<open>The cleanup of the effect, when the component goes away or joins another board.\<close>
definition cleanup :: "ws_hook \<Rightarrow> ws_hook" where
  "cleanup h =
     (let h1 = (case wh_timerRef h of None \<Rightarrow> h | Some n \<Rightarrow> h\<lparr>wh_timers := filter (\<lambda>t. fst t \<noteq> n) (wh_timers h)\<rparr>)
      in case wh_ref h1 of None \<Rightarrow> h1 | Some i \<Rightarrow> close_socket h1 i)"

section \<open>Steps\<close>

text \<open>
  What the browser and the component may do: a socket opens while it connects, may fail,
  closes unless it is closed; a timer that runs fires; the component sends.
\<close>
inductive hook_step :: "ws_hook \<Rightarrow> ws_hook \<Rightarrow> bool" where
  opened: "js_at (wh_sockets h) i = Some CONNECTING \<Longrightarrow> hook_step h (onopen h i)"
| failed: "hook_step h (onerror h i)"
| closed: "i < length (wh_sockets h) \<Longrightarrow> js_at (wh_sockets h) i \<noteq> Some CLOSED \<Longrightarrow> hook_step h (onclose h i)"
| fired: "hook_step h (timer_fires h n)"
| sends: "hook_step h (fst (hook_send h False))"

text \<open>A mounted hook: the effect has connected and no cleanup ran.\<close>
inductive mounted :: "ws_hook \<Rightarrow> bool" where
  mount: "mounted (connect new_hook)"
| step: "mounted h \<Longrightarrow> hook_step h h' \<Longrightarrow> mounted h'"

section \<open>The invariant of a mounted hook\<close>

text \<open>
  Only the referenced socket, the last one, can be live; the numbers of the timers are in order
  and below the next; and unless a socket is live or closing, the last timer runs.
\<close>
definition hook_inv :: "ws_hook \<Rightarrow> bool" where
  "hook_inv h \<longleftrightarrow>
     wh_sockets h \<noteq> [] \<and> wh_ref h = Some (length (wh_sockets h) - 1) \<and>
     (\<forall>i < length (wh_sockets h) - 1. wh_sockets h ! i = CLOSED) \<and>
     (if last (wh_sockets h) = CLOSED
      then wh_nextTimer h > 0 \<and> map fst (wh_timers h) = [wh_nextTimer h - 1] \<and> wh_timerRef h = Some (wh_nextTimer h - 1)
      else wh_timers h = []) \<and>
     (\<forall>t\<in>set (wh_timers h). RECONNECT_BASE_DELAY \<le> snd t \<and> snd t \<le> RECONNECT_MAX_DELAY)"

lemma reconnect_delay_bounds:
  "RECONNECT_BASE_DELAY \<le> reconnect_delay n" "reconnect_delay n \<le> RECONNECT_MAX_DELAY"
  by (simp_all add: reconnect_delay_def RECONNECT_BASE_DELAY_def RECONNECT_MAX_DELAY_def)

lemma ref_state_last:
  assumes "hook_inv h"
  shows "ref_state h = Some (last (wh_sockets h))"
  using assms by (auto simp: hook_inv_def ref_state_def js_at_def last_conv_nth)

lemma hook_inv_mount: "hook_inv (connect new_hook)"
  by (simp add: connect_def new_hook_def ref_state_def hook_inv_def)

lemma live_is_last:
  assumes "hook_inv h" and "i < length (wh_sockets h)" and "wh_sockets h ! i \<noteq> CLOSED"
  shows "i = length (wh_sockets h) - 1"
  using assms unfolding hook_inv_def by (metis Suc_diff_1 length_greater_0_conv less_SucE)

lemma hook_inv_set_last:
  assumes inv: "hook_inv h" and i: "i = length (wh_sockets h) - 1" and live: "last (wh_sockets h) \<noteq> CLOSED"
    and st: "st \<noteq> CLOSED"
  shows "hook_inv (h\<lparr>wh_sockets := (wh_sockets h)[i := st]\<rparr>)"
proof -
  have ne: "wh_sockets h \<noteq> []" using inv by (simp add: hook_inv_def)
  then have "last ((wh_sockets h)[i := st]) = st" by (simp add: i last_list_update)
  with inv live st ne show ?thesis by (simp add: hook_inv_def i)
qed

lemma hook_inv_fields:
  "hook_inv h \<Longrightarrow> hook_inv (h\<lparr>wh_status := s, wh_reconnectAttempt := n\<rparr>)"
  "hook_inv h \<Longrightarrow> hook_inv (fst (hook_send h b))"
  by (simp_all add: hook_inv_def hook_send_def)

lemma hook_step_inv:
  assumes "hook_step h h'" and inv: "hook_inv h"
  shows "hook_inv h'"
  using assms(1)
proof cases
  case (opened i)
  then have i: "i = length (wh_sockets h) - 1" "last (wh_sockets h) \<noteq> CLOSED"
    using live_is_last[OF inv, of i] inv by (auto simp: js_at_Some_iff hook_inv_def last_conv_nth)
  have "hook_inv (h\<lparr>wh_sockets := (wh_sockets h)[i := OPEN]\<rparr>)"
    by (rule hook_inv_set_last[OF inv i]) simp
  from hook_inv_fields(2)[OF hook_inv_fields(1)[OF this]] opened(1) show ?thesis
    by (simp add: onopen_def Let_def)
next
  case (failed i)
  show ?thesis
  proof (cases "js_at (wh_sockets h) i \<in> {Some CONNECTING, Some OPEN}")
    case True
    then have i: "i = length (wh_sockets h) - 1" "last (wh_sockets h) \<noteq> CLOSED"
      using live_is_last[OF inv, of i] inv by (auto simp: js_at_Some_iff hook_inv_def last_conv_nth)
    have "hook_inv (h\<lparr>wh_sockets := (wh_sockets h)[i := CLOSING]\<rparr>)"
      by (rule hook_inv_set_last[OF inv i]) simp
    with failed True show ?thesis by (simp add: onerror_def close_socket_def)
  qed (use failed inv in \<open>simp add: onerror_def close_socket_def\<close>)
next
  case (closed i)
  then have i: "i = length (wh_sockets h) - 1" "last (wh_sockets h) \<noteq> CLOSED"
    using live_is_last[OF inv, of i] inv by (auto simp: js_at_def hook_inv_def last_conv_nth)
  have ne: "wh_sockets h \<noteq> []" using inv by (simp add: hook_inv_def)
  then have "last ((wh_sockets h)[i := CLOSED]) = CLOSED" by (simp add: i(1) last_list_update)
  with inv i ne closed(1) reconnect_delay_bounds show ?thesis
    by (simp add: onclose_def Let_def hook_inv_def)
next
  case (fired n)
  show ?thesis
  proof (cases "n \<in> fst ` set (wh_timers h)")
    case False
    then have "h' = h" using fired by (simp add: timer_fires_def)
    with inv show ?thesis by simp
  next
    case True
    then have closed: "last (wh_sockets h) = CLOSED" and n: "map fst (wh_timers h) = [n]"
      using inv by (auto simp: hook_inv_def image_set[symmetric] split: if_splits simp flip: set_map)
    let ?h = "h\<lparr>wh_timers := filter (\<lambda>t. fst t \<noteq> n) (wh_timers h)\<rparr>"
    have none: "filter (\<lambda>t. fst t \<noteq> n) (wh_timers h) = []"
      using n by (auto simp: filter_empty_conv map_eq_Cons_conv)
    have "ref_state ?h = Some CLOSED"
      using ref_state_last[OF inv] closed by simp
    then have h': "h' = ?h\<lparr>wh_status := Connecting, wh_ref := Some (length (wh_sockets h)), wh_sockets := wh_sockets h @ [CONNECTING]\<rparr>"
      using fired True by (simp add: timer_fires_def connect_def)
    have "\<forall>i < length (wh_sockets h). wh_sockets h ! i = CLOSED"
      using live_is_last[OF inv] closed inv by (metis hook_inv_def last_conv_nth)
    with inv none show ?thesis
      unfolding h' by (simp add: hook_inv_def nth_append)
  qed
next
  case sends
  with inv show ?thesis by (simp add: hook_inv_fields)
qed

lemma mounted_inv: "mounted h \<Longrightarrow> hook_inv h"
  by (induction rule: mounted.induct) (auto simp: hook_inv_mount hook_step_inv)

end
