(* ===== verification/Frontend_Props.thy ===== *)
theory Frontend_Props
  imports Boards Frontend_Canvas Frontend_Socket
begin

text \<open>
  The properties of the browser's side: a client that joins a board and receives its events shows
  what the board shows, a failed write is taken back, what is drawn passes the gateway, and one
  socket at a time is kept alive. Where the code falls short of this, the theorem shows how.
\<close>

section \<open>The strokes of a client\<close>

lemma replay_on_board:
  assumes "\<forall>e\<in>set evs. boardId e = b"
  shows "board_view_of (foldl applyBoardEvent new_boards evs) b = replay_view evs"
  using assms replica_boards.view_replay[of new_boards b evs] by (simp add: filter_id_conv)

lemma joined_client_strokes:
  assumes "\<forall>e\<in>set (earlier @ later). boardId e = b"
    and "fresh_draws empty_view (earlier @ later)"
    and "redos_known (strokeId ` set (getStrokes (foldl applyBoardEvent new_boards earlier) b)) later"
  shows "cl_strokes (foldl client_message c
      (JoinAck b (getStrokes (foldl applyBoardEvent new_boards earlier) b) # map StrokeBroadcast later)) =
    getStrokes (foldl applyBoardEvent new_boards (earlier @ later)) b"
proof -
  let ?v = "replay_view earlier"
  have joined: "getStrokes (foldl applyBoardEvent new_boards earlier) b = bv_visible ?v"
    using assms(1) by (simp add: getStrokes_view replay_on_board)
  have now: "getStrokes (foldl applyBoardEvent new_boards (earlier @ later)) b = bv_visible (foldl view_step ?v later)"
    using replay_on_board[OF assms(1)] by (simp add: getStrokes_view replay_view_append)
  have fresh: "fresh_draws empty_view earlier" "fresh_draws ?v later"
    using assms(2) by (simp_all add: fresh_draws_append replay_view_def)
  have "visible_drawn ?v"
    unfolding replay_view_def by (rule visible_drawn_foldl[OF _ fresh(1)]) (simp add: visible_drawn_def empty_view_def)
  then have "follows_board (client_message c (JoinAck b (bv_visible ?v))) ?v (strokeId ` set (bv_visible ?v))"
    by (rule join_follows)
  from follows_board_foldl[OF this view_ok_replay fresh(2)] assms(3)
  show ?thesis unfolding joined now by (simp add: client_message_broadcasts)
qed

text \<open>A client shows what the replicas show: a client that joins a board, whatever it showed before, and
  then receives the later events of the board in order shows exactly the strokes of the replica's board,
  in the same order, provided that drawings have fresh ids and that the redone strokes were drawn
  after it joined or visible when it did.\<close>
theorem client_shows_board:
  assumes "\<forall>e\<in>set (earlier @ later). boardId e = b"
    and "fresh_draws empty_view (earlier @ later)"
    and "redos_known (strokeId ` set (getStrokes (foldl applyBoardEvent new_boards earlier) b)) later"
  shows "cl_strokes (foldl client_message c
      (JoinAck b (getStrokes (foldl applyBoardEvent new_boards earlier) b) # map StrokeBroadcast later)) =
    getStrokes (foldl applyBoardEvent new_boards (earlier @ later)) b"
  using assms by (rule joined_client_strokes)

definition drawn :: "string \<Rightarrow> stroke" where
  "drawn sid = createStroke ''b'' ''u'' DEFAULT_COLOR BRUSH_WIDTH [(0, 0), (1, 1)] sid 0"

definition undone :: "string \<Rightarrow> string \<Rightarrow> stroke" where
  "undone newId sid = pointer_event (new_client ''b'' ''u'') newId (whole 0) ActUndo sid"

definition redone :: "string \<Rightarrow> string \<Rightarrow> stroke" where
  "redone newId sid = pointer_event (new_client ''b'' ''u'') newId (whole 0) ActRedo sid"

theorem client_shows_board_witness:
  "let earlier = [drawn ''s'', drawn ''t'']; later = [undone ''x'' ''s'', drawn ''w'', redone ''y'' ''s''];
       shown = cl_strokes (foldl client_message (new_client ''b'' ''v'')
         (JoinAck ''b'' (getStrokes (foldl applyBoardEvent new_boards earlier) ''b'') # map StrokeBroadcast later))
   in shown = getStrokes (foldl applyBoardEvent new_boards (earlier @ later)) ''b'' \<and>
      map strokeId shown = [''t'', ''w'', ''s'']"
proof -
  let ?e = "[drawn ''s'', drawn ''t'']" and ?l = "[undone ''x'' ''s'', drawn ''w'', redone ''y'' ''s'']"
  have "list_all (\<lambda>e. boardId e = ''b'') (?e @ ?l)" by code_simp
  then have on: "\<forall>e\<in>set (?e @ ?l). boardId e = ''b''" by (simp add: list_all_iff)
  have fresh: "fresh_draws empty_view (?e @ ?l)" by code_simp
  have known: "redos_known (strokeId ` set (getStrokes (foldl applyBoardEvent new_boards ?e) ''b'')) ?l" by code_simp
  have ids: "map strokeId (getStrokes (foldl applyBoardEvent new_boards (?e @ ?l)) ''b'') = [''t'', ''w'', ''s'']" by code_simp
  from client_shows_board[OF on fresh known] ids show ?thesis unfolding Let_def by simp
qed

text \<open>Where a client departs from the board. A client that joins while a stroke is undone misses its redo:
  the board shows the stroke again, the client, whose archive is made of what was visible when it
  joined, does not.\<close>
lemma late_joiner_misses_redo:
  assumes "\<forall>e\<in>set earlier. boardId e = b" and "boardId r = b" and "request_of r = Redo sid"
    and "s \<in> set earlier" and "draws sid s"
    and "\<not> displays (getStrokes (foldl applyBoardEvent new_boards earlier) b) sid"
  shows "displays (getStrokes (foldl applyBoardEvent new_boards (earlier @ [r])) b) sid"
    and "\<not> displays (cl_strokes (foldl client_message (new_client b u)
      [JoinAck b (getStrokes (foldl applyBoardEvent new_boards earlier) b), StrokeBroadcast r])) sid"
proof -
  let ?v = "replay_view earlier"
  have joined: "getStrokes (foldl applyBoardEvent new_boards earlier) b = bv_visible ?v"
    using assms(1) by (simp add: getStrokes_view replay_on_board)
  have now: "getStrokes (foldl applyBoardEvent new_boards (earlier @ [r])) b = bv_visible (view_step ?v r)"
    using replay_on_board[of "earlier @ [r]" b] assms(1,2) by (simp add: getStrokes_view replay_view_append)
  have ev: "bv_events ?v = earlier"
    by simp
  obtain t where t: "List.find (draws sid) (earlier @ [r]) = Some t" "strokeId t = sid"
    using assms(4,5) find_Some_exI[of s "earlier @ [r]" "draws sid"] by (auto dest: find_draws_id)
  show "displays (getStrokes (foldl applyBoardEvent new_boards (earlier @ [r])) b) sid"
    using assms(3,6) t unfolding joined now
    by (auto simp: view_step_def Let_def ev displays_iff draws_def split: option.splits)
  have "archive_of (filter P (bv_visible ?v)) sid = None" for P
  proof -
    have "foldl (\<lambda>m s. m(strokeId s \<mapsto> s)) m ss sid = m sid" if "\<forall>s\<in>set ss. strokeId s \<noteq> sid" for ss and m :: "string \<rightharpoonup> stroke"
      using that by (induction ss arbitrary: m) auto
    then show ?thesis using assms(6) unfolding joined by (auto simp: archive_of_def displays_iff)
  qed
  then show "\<not> displays (cl_strokes (foldl client_message (new_client b u)
      [JoinAck b (getStrokes (foldl applyBoardEvent new_boards earlier) b), StrokeBroadcast r])) sid"
    using assms(3,6) unfolding joined by (simp add: client_message_def applyStrokeEvent_request)
qed

text \<open>A stroke that the gateway refused for its rate limit or its size, so that no replica ever saw it, stays on
  the screen of its author: only the code of a failed write takes it back.\<close>
lemma refused_stroke_stays:
  assumes "request_of s = Draw" and "\<not> displays (cl_strokes c) (strokeId s)" and "code \<noteq> Some ''RAFT_WRITE_FAILED''"
  shows "cl_strokes (client_message (client_addStroke c s True) (ErrorMessage text code sid retryable)) = cl_strokes c @ [s]"
  using assms
  by (simp add: client_message_def client_addStroke_def applyStrokeEvent_request submitStrokeMessage_def trackPending_def Let_def)

section \<open>The picture\<close>



text \<open>A browser that joins again with as many strokes as it had painted keeps its old picture: its list is
  the board's, but nothing is cleared or painted, so strokes that were undone while it was away
  stay on the canvas and those drawn meanwhile are missing.\<close>
theorem rejoin_keeps_old_picture:
  assumes "in_sync cv (cl_strokes c)" and "length strokes = length (cl_strokes c)"
  shows "let s = screen_step (c, cv) (Received (JoinAck b strokes))
    in cl_strokes (fst s) = strokes \<and> cv_ctx (snd s) = cv_ctx cv"
  using assms canvas_effect_same_length by (simp add: screen_step_def client_message_def Let_def)

text \<open>The stroke that was shown is undone and another one drawn while the browser is away.\<close>
theorem rejoin_keeps_old_picture_witness:
  "let away = drawn ''s''; returned = createStroke ''b'' ''u'' DEFAULT_COLOR BRUSH_WIDTH [(5, 5), (9, 9)] ''t'' 0;
       s0 = foldl screen_step (new_client ''b'' ''v'', new_canvas) [Received (JoinAck ''b'' [away])];
       s = screen_step s0 (Received (JoinAck ''b'' [returned]))
   in cl_strokes (fst s) = [returned] \<and> cv_ctx (snd s) = picture [away] \<and> picture [away] \<noteq> picture [returned]"
proof -
  let ?away = "drawn ''s''" and ?new = "createStroke ''b'' ''u'' DEFAULT_COLOR BRUSH_WIDTH [(5, 5), (9, 9)] ''t'' 0"
  let ?s0 = "screen_step (new_client ''b'' ''v'', new_canvas) (Received (JoinAck ''b'' [?away]))"
  have shown: "cl_strokes (fst ?s0) = [?away]" by (simp add: screen_step_def client_message_def Let_def)
  have "in_sync (snd ?s0) (cl_strokes (fst ?s0))" and ctx: "cv_ctx (snd ?s0) = picture [?away]"
    by (simp_all add: screen_step_def client_message_def Let_def in_sync_def canvas_effect_def new_canvas_def)
  from rejoin_keeps_old_picture[OF this(1), of "[?new]" "''b''"] shown
  have "cl_strokes (fst (screen_step ?s0 (Received (JoinAck ''b'' [?new])))) = [?new] \<and>
      cv_ctx (snd (screen_step ?s0 (Received (JoinAck ''b'' [?new])))) = picture [?away]"
    using ctx by (simp add: Let_def)
  moreover have "picture [?away] \<noteq> picture [?new]" by code_simp
  ultimately show ?thesis by (simp add: Let_def)
qed

text \<open>An undo that cannot be sent moves the stroke to the end of the list, and the canvas does not
  notice.\<close>
lemma unsent_undo_reorders:
  "let own = drawn ''s''; other = (drawn ''t'')\<lparr>userId := ''v''\<rparr>;
       c = client_message (new_client ''b'' ''u'') (JoinAck ''b'' [own, other])
   in cl_strokes (undoLastStroke c ''x'' (whole 0) False) = [other, own]"
  by code_simp

section \<open>Failed writes\<close>

text \<open>A failed write is taken back: if the gateway reports that a new stroke could not be written, before
  its timer has expired and whatever other strokes were broadcast meanwhile, the client shows exactly what it
  would show had the stroke never been drawn.\<close>
theorem failed_write_is_taken_back:
  assumes "\<not> list_ex (\<lambda>x. strokeId x = strokeId s) (cl_strokes c)" and "keyed_archive (cl_strokeArchive c)"
    and "request_of s = Draw" and "strokeId s \<noteq> []" and "\<forall>e\<in>set others. \<not> mentions (strokeId s) e"
  shows "cl_strokes (client_message (foldl client_message (client_addStroke c s True) (map StrokeBroadcast others))
      (ErrorMessage text (Some ''RAFT_WRITE_FAILED'') (Some (strokeId s)) retryable)) =
    cl_strokes (foldl client_message c (map StrokeBroadcast others))"
proof -
  have "same_but (strokeId s) (foldl applyStrokeEvent (client_addStroke c s True) others) (foldl applyStrokeEvent c others)"
    using same_but_foldl[OF client_addStroke_sent(1)[OF assms(1,3,2)] assms(5)] .
  moreover have "cl_pendingRollback (foldl applyStrokeEvent (client_addStroke c s True) others) (strokeId s) =
      Some (RollbackDraw (strokeId s))"
    using client_addStroke_sent(2)[OF assms(1,3,2)] by simp
  ultimately show ?thesis
    using assms(4) rollback_draw_strokes
    by (simp add: client_message_def[of _ "ErrorMessage _ _ _ _"] client_message_broadcasts same_but_def)
qed

theorem failed_write_is_taken_back_witness:
  "cl_strokes (client_message (foldl client_message (client_addStroke (new_client ''b'' ''u'') (drawn ''s'') True)
      (map StrokeBroadcast [drawn ''t'']))
      (ErrorMessage ''Failed to submit stroke'' (Some ''RAFT_WRITE_FAILED'') (Some ''s'') (Some True))) = [drawn ''t'']"
proof -
  have s: "strokeId (drawn ''s'') = ''s''" "request_of (drawn ''s'') = Draw"
    by (simp_all add: drawn_def createStroke_def request_of_def)
  have "\<not> mentions ''s'' (drawn ''t'')"
    by (simp add: mentions_def drawn_def createStroke_def)
  moreover have "cl_strokes (foldl client_message (new_client ''b'' ''u'') (map StrokeBroadcast [drawn ''t''])) = [drawn ''t'']"
    by (simp add: client_message_def applyStrokeEvent_def drawn_def createStroke_def new_client_def)
  ultimately show ?thesis
    using failed_write_is_taken_back[of "drawn ''s''" "new_client ''b'' ''u''" "[drawn ''t'']" "''Failed to submit stroke''" "Some True"] s
    by (simp add: new_client_def keyed_archive_def)
qed

section \<open>Drawing\<close>

text \<open>What is drawn passes the gateway, up to 2000 points: a gesture of at least two points makes a
  stroke of the drawing's board and user, and the gateway accepts it from the connection of that
  board and user exactly if it has at most 2000 points.\<close>
theorem drawing_passes_gateway:
  assumes "gesture start moves bid uid col newId now = Some s"
    and "col \<in> set COLORS" and "newId \<noteq> []" and "length newId \<le> 200"
  shows "boardId s = bid \<and> userId s = uid \<and> strokeId s = newId \<and>
    (validateStroke (Some (json_of_stroke s)) bid uid = Inr () \<longleftrightarrow> length moves + 1 \<le> 2000)"
proof -
  have s: "s = createStroke bid uid col BRUSH_WIDTH (start # moves) newId now"
    using assms(1) by (simp add: gesture_stroke split: if_splits)
  have "well_formed_stroke s \<longleftrightarrow> length (start # moves) \<le> maxStrokePoints"
    unfolding s by (rule createStroke_well_formed) (use assms in auto)
  with gesture_own[OF assms(1)] show ?thesis
    by (simp add: validateStroke_json_of maxStrokePoints_def)
qed

theorem drawing_passes_gateway_witness:
  "\<exists>s. gesture (0, 0) [(5, 5), (9, 2)] ''b'' ''u'' DEFAULT_COLOR ''s'' 0 = Some s \<and>
     validateStroke (Some (json_of_stroke s)) ''b'' ''u'' = Inr ()"
proof -
  let ?s = "createStroke ''b'' ''u'' DEFAULT_COLOR BRUSH_WIDTH [(0, 0), (5, 5), (9, 2)] ''s'' 0"
  have g: "gesture (0, 0) [(5, 5), (9, 2)] ''b'' ''u'' DEFAULT_COLOR ''s'' 0 = Some ?s"
    by (simp add: gesture_stroke)
  have "DEFAULT_COLOR \<in> set COLORS" by (simp add: DEFAULT_COLOR_def COLORS_def)
  from drawing_passes_gateway[OF g this] g show ?thesis by simp
qed

section \<open>The socket\<close>

text \<open>C29: While the hook is mounted it keeps at most one live socket, the one it sends on; whenever that
  socket is closed exactly one timer runs, of between one and thirty seconds, and firing it makes a
  new socket: the hook never stops trying and never races itself.\<close>
theorem mounted_hook_reconnects:
  assumes "mounted h"
  shows "(\<forall>i < length (wh_sockets h). wh_sockets h ! i \<noteq> CLOSED \<longrightarrow> wh_ref h = Some i) \<and>
    (ref_state h \<noteq> Some CLOSED \<and> wh_timers h = [] \<or>
     ref_state h = Some CLOSED \<and>
     (\<exists>n ms. wh_timers h = [(n, ms)] \<and> 1000 \<le> ms \<and> ms \<le> 30000 \<and> ref_state (timer_fires h n) = Some CONNECTING))"
proof (intro conjI)
  have inv: "hook_inv h" using assms by (rule mounted_inv)
  show "\<forall>i < length (wh_sockets h). wh_sockets h ! i \<noteq> CLOSED \<longrightarrow> wh_ref h = Some i"
    using live_is_last[OF inv] inv by (auto simp: hook_inv_def)
  show "ref_state h \<noteq> Some CLOSED \<and> wh_timers h = [] \<or>
     ref_state h = Some CLOSED \<and>
     (\<exists>n ms. wh_timers h = [(n, ms)] \<and> 1000 \<le> ms \<and> ms \<le> 30000 \<and> ref_state (timer_fires h n) = Some CONNECTING)"
  proof (cases "last (wh_sockets h) = CLOSED")
    case False
    with inv ref_state_last[OF inv] show ?thesis by (simp add: hook_inv_def)
  next
    case True
    then obtain n ms where t: "wh_timers h = [(n, ms)]"
      using inv by (auto simp: hook_inv_def map_eq_Cons_conv)
    have "1000 \<le> ms \<and> ms \<le> 30000"
      using inv t by (simp add: hook_inv_def RECONNECT_BASE_DELAY_def RECONNECT_MAX_DELAY_def)
    moreover have "ref_state (timer_fires h n) = Some CONNECTING"
      using t True ref_state_last[OF inv]
      by (simp add: timer_fires_def connect_def) (simp add: ref_state_def js_at_def)
    ultimately show ?thesis using t True ref_state_last[OF inv] by simp
  qed
qed

theorem mounted_hook_reconnects_witness:
  "\<exists>n ms. wh_timers (onclose (onopen (connect new_hook) 0) 0) = [(n, ms)] \<and> 1000 \<le> ms \<and> ms \<le> 30000"
proof -
  note ops = connect_def new_hook_def ref_state_def js_at_def onopen_def onclose_def hook_send_def
  have o: "js_at (wh_sockets (connect new_hook)) 0 = Some CONNECTING" by (simp add: ops)
  have l: "0 < length (wh_sockets (onopen (connect new_hook) 0))" by (simp add: ops Let_def)
  have s: "js_at (wh_sockets (onopen (connect new_hook) 0)) 0 \<noteq> Some CLOSED" by (simp add: ops Let_def)
  have "mounted (onclose (onopen (connect new_hook) 0) 0)"
    by (intro mounted.step[OF mounted.step[OF mounted.mount hook_step.opened[OF o]] hook_step.closed[OF l s]])
  moreover have "wh_timers (onclose (onopen (connect new_hook) 0) 0) \<noteq> []" by (simp add: ops Let_def)
  ultimately show ?thesis
    using mounted_hook_reconnects[of "onclose (onopen (connect new_hook) 0) 0"] by blast
qed

text \<open>The cleanup closes the socket but leaves its close handler, which starts a timer again; so a hook
  that was cleaned up connects once more.\<close>
lemma cleaned_up_hook_reconnects:
  "let h = cleanup (onopen (connect new_hook) 0); h1 = onclose h 0
   in wh_timers h = [] \<and> wh_timers h1 = [(0, 1000)] \<and> ref_state (timer_fires h1 0) = Some CONNECTING"
  by (simp add: connect_def new_hook_def ref_state_def js_at_def onopen_def onclose_def hook_send_def cleanup_def
      close_socket_def timer_fires_def reconnect_delay_def RECONNECT_BASE_DELAY_def RECONNECT_MAX_DELAY_def Let_def)

end
