(* ===== verification/Deployment.thy ===== *)
theory Deployment
  imports Gateway Remote_Client Replica_Service Client_Writes
begin

text \<open>
  The gateway in front of the replicas. What the client of the gateway is answered is what the
  routes of the replicas answer: \<open>behind i url\<close> is the replica that the \<open>i\<close>-th request of a call
  reaches at \<open>url\<close>, as it is when the request arrives, with what happens at the awaits of its handler; or
  nothing, when the request fails or times out. The second halves of the gateway's handlers are run with this
  client, as \<open>MessageHandler\<close> does with \<open>RemoteRaftClient\<close>.
\<close>

section \<open>The replicas as the network\<close>

type_synonym replicas = "nat \<Rightarrow> url \<Rightarrow> (raft_node \<times> peer_answers) option"

text \<open>\<open>post\<close> throws on a status that is not 2xx; \<open>getRaw\<close> reads any status.\<close>
definition post_answered :: "replicas \<Rightarrow> nat \<Rightarrow> url \<Rightarrow> stroke \<Rightarrow> client_write_result option" where
  "post_answered behind i url stroke =
     (case behind i url of
        None \<Rightarrow> None
      | Some (n, pa) \<Rightarrow>
          (case serve n pa (Post_client_write stroke) of
             (_, status, WriteBody r) \<Rightarrow> if 200 \<le> status \<and> status < 300 then Some r else None
           | _ \<Rightarrow> None))"

definition get_answered :: "replicas \<Rightarrow> nat \<Rightarrow> url \<Rightarrow> string \<Rightarrow> (nat \<times> board_state_body) option" where
  "get_answered behind i url bid =
     (case behind i url of
        None \<Rightarrow> None
      | Some (n, pa) \<Rightarrow>
          (case serve n pa (Get_board_state (Some bid)) of
             (_, status, StrokesBody b strokes) \<Rightarrow> Some (status, \<lparr>bsb_strokes = strokes, bsb_leaderHint = None\<rparr>)
           | (_, status, HintBody hint) \<Rightarrow> Some (status, \<lparr>bsb_strokes = [], bsb_leaderHint = hint\<rparr>)
           | (_, status, _) \<Rightarrow> Some (status, \<lparr>bsb_strokes = [], bsb_leaderHint = None\<rparr>)))"

definition replica_network :: "replicas \<Rightarrow> (nat \<Rightarrow> url option \<Rightarrow> url option) \<Rightarrow> network" where
  "replica_network behind meanwhile =
     \<lparr>net_post = post_answered behind, net_get = get_answered behind, net_meanwhile = meanwhile\<rparr>"

section \<open>The gateway with its client\<close>

text \<open>The second half of a handler: the gateway is as it is when the client's promise settles.\<close>
definition settle_remote ::
    "network \<Rightarrow> remote_client \<Rightarrow> gateway \<Rightarrow> (socket \<Rightarrow> bool) \<Rightarrow> pending \<Rightarrow>
     remote_client \<times> (socket \<times> server_message) list" where
  "settle_remote net c gw is_open p =
     settle (submitStroke net) (remote_getStrokes net) (\<lambda>_. gw) is_open c p"

text \<open>A stroke is written when a replica has acknowledged it; strokes come from a confirmed answer.\<close>
interpretation remote: raft_client "submitStroke net" "remote_getStrokes net"
    "\<lambda>c c' s. \<exists>i u r. net_post net i u s = Some r \<and> cw_success r"
    "\<lambda>c bid strokes. strokes = [] \<or> (\<exists>i u body. net_get net i u bid = Some (200, body) \<and> bsb_strokes body = strokes)"
    for net
  by unfold_locales (auto dest: submitStroke_acknowledged remote_getStrokes_given)

section \<open>What reaches a browser\<close>

text \<open>An answer to a post is the answer of a replica's write handler.\<close>
lemma post_answeredD:
  assumes "post_answered behind i url s = Some r"
  obtains n pa n' where "behind i url = Some (n, pa)"
    "handleClientWrite n s (pa_latency pa) (pa_write_wait pa) = (n', r)"
    "serve n pa (Post_client_write s) = (n', 200, WriteBody r)"
proof -
  obtain n pa where b: "behind i url = Some (n, pa)"
    using assms by (auto simp: post_answered_def split: option.splits)
  obtain n' r' where w: "handleClientWrite n s (pa_latency pa) (pa_write_wait pa) = (n', r')"
    by (cases "handleClientWrite n s (pa_latency pa) (pa_write_wait pa)")
  have "serve n pa (Post_client_write s) = (n', 200, WriteBody r')" and "r' = r"
    using assms b w by (simp_all add: post_answered_def serve_def split: if_splits)
  with b w that show ?thesis by simp
qed

text \<open>The strokes of a confirmed read: the board of a replica that led as the read began and leads in the
  same term as it ends, its heartbeats acknowledged by a majority and none of them with a later term.\<close>
definition confirmed_board :: "raft_node \<Rightarrow> peer_answers \<Rightarrow> string \<Rightarrow> stroke list \<Rightarrow> bool" where
  "confirmed_board n pa bid strokes \<longleftrightarrow>
     (let m = pa_read_wait pa n; results = map (\<lambda>peer. pa_heartbeat pa peer (the (confirmLeadership_begin n))) (my_peers n)
      in state n = Leader \<and> state m = Leader \<and> currentTerm m = currentTerm n \<and>
         (\<forall>x\<in>set results. \<forall>r. x = Some r \<longrightarrow> hbr_term r \<le> currentTerm n) \<and>
         my_majority m \<le> 1 + length (filter (\<lambda>x. \<exists>r. x = Some r \<and> hbr_success r) results) \<and>
         strokes = getStrokes (boards m) bid)"

lemma get_answeredD:
  assumes "get_answered behind i url bid = Some (200, body)" and "bsb_strokes body \<noteq> []"
  obtains n pa where "behind i url = Some (n, pa)" "confirmed_board n pa bid (bsb_strokes body)"
proof -
  obtain n pa where b: "behind i url = Some (n, pa)"
    using assms(1) by (auto simp: get_answered_def split: option.splits)
  let ?r = "readBoardState n bid (pa_read_wait pa) (pa_heartbeat pa)"
  have r: "rb_success (snd ?r)" "bsb_strokes body = the (rb_strokes (snd ?r))"
    using assms b by (auto simp: get_answered_def serve_def board_state_reply_def split_beta Let_def split: if_splits)
  then have "rb_strokes (snd ?r) = Some (getStrokes (boards (pa_read_wait pa n)) bid)"
    using confirmed_read(2)[of n bid "pa_read_wait pa" "pa_heartbeat pa"] by simp
  with r have "confirmed_board n pa bid (bsb_strokes body)"
    using confirmed_read(1)[of n bid "pa_read_wait pa" "pa_heartbeat pa"] by (simp add: confirmed_board_def Let_def)
  then show ?thesis using that b by blast
qed

section \<open>End to end\<close>

text \<open>C13: What is broadcast was acknowledged by a leader. When the gateway broadcasts a stroke, a replica has
  answered a write of that stroke, it was a leader as the write began and is one as it answers, it counts a
  majority of its cluster to store the index of the entry, and it has applied all that it committed; and if its
  term is still the one in which the write began, the stroke's entry is committed, and in its log unless that
  has become part of a snapshot. This holds however the requests fail and retry, whatever happens to
  gateway and replicas between the two halves, and whatever the replica handles while the write waits,
  but for the late answer to a catch-up request.\<close>
theorem broadcast_strokes_are_committed:
  assumes "\<forall>i url n pa. behind i url = Some (n, pa) \<longrightarrow>
      reachable n \<and> (\<forall>k sends m. meantime m (pa_write_wait pa k sends m))"
    and "settle_remote (replica_network behind meanwhile) c gw is_open p = (c', out)"
    and "StrokeBroadcast s \<in> snd ` set out"
  shows "\<exists>i url n pa n' r. behind i url = Some (n, pa) \<and> serve n pa (Post_client_write s) = (n', 200, WriteBody r) \<and>
    state n = Leader \<and> state n' = Leader \<and> currentTerm n \<le> currentTerm n' \<and>
    my_majority n' \<le> replicatedCount n' (getLastIndex (raftLog n) + 1) \<and> lastApplied n' = commitIndex n' \<and>
    (currentTerm n' = currentTerm n \<longrightarrow> getLastIndex (raftLog n) < commitIndex n' \<and>
      (lastIncludedIndex (raftLog n') \<le> getLastIndex (raftLog n) \<longrightarrow>
         getEntry (raftLog n') (getLastIndex (raftLog n) + 1) =
           Some \<lparr>e_index = getLastIndex (raftLog n) + 1, e_term = currentTerm n, e_stroke = s\<rparr>))"
proof -
  obtain i url r where "post_answered behind i url s = Some r" and ok: "cw_success r"
    using remote.settled_broadcast[OF assms(2)[unfolded settle_remote_def] assms(3)] by (auto simp: replica_network_def)
  then obtain n pa n' where b: "behind i url = Some (n, pa)"
    and w: "handleClientWrite n s (pa_latency pa) (pa_write_wait pa) = (n', r)"
    and sv: "serve n pa (Post_client_write s) = (n', 200, WriteBody r)"
    by (elim post_answeredD)
  have "reachable n" "\<forall>k sends m. meantime m (pa_write_wait pa k sends m)" using assms(1) b by blast+
  from client_write_counted[OF this w ok] b sv show ?thesis by blast
qed

text \<open>While its write waits, the leader of the samples writes another stroke and is asked for its vote.\<close>
definition sample_answers :: peer_answers where
  "sample_answers = \<lparr>pa_latency = 7, pa_write_wait = busy_wait,
     pa_read_wait = (\<lambda>n. deliver n (ClientWrite (sample_stroke ''s5''))), pa_heartbeat = acknowledging\<rparr>"

text \<open>A leader of three replicas behind one URL, whose first request times out.\<close>
definition sample_replicas :: replicas where
  "sample_replicas i url =
     (if url = ''http://replica1'' \<and> 0 < i
      then Some (sample_leader, sample_answers)
      else None)"

definition sample_client :: remote_client where
  "sample_client = new_RemoteRaftClient [''http://replica1'']"

definition sample_room :: gateway where
  "sample_room = fst (serve_local
     (fst (onConnection (new_gateway (Some 50) None) 7 (Some ''b'') (Some ''u'') None 0)) (\<lambda>_. True) 7 (JoinMessage ''b'' ''u'') 1)"

lemma sample_replicas_real: "sample_replicas i url = Some (n, pa) \<Longrightarrow>
    reachable n \<and> (\<forall>k sends m. meantime m (pa_write_wait pa k sends m))"
  using reachable_leader meantime_busy by (auto simp: sample_replicas_def sample_answers_def split: if_splits)

lemma sample_broadcast:
  "snd (submitStroke (replica_network sample_replicas (\<lambda>i l. l)) sample_client (sample_stroke ''s4''))"
  by code_simp

theorem broadcast_strokes_are_committed_witness:
  "\<exists>i url n pa n' r. sample_replicas i url = Some (n, pa) \<and>
     serve n pa (Post_client_write (sample_stroke ''s4'')) = (n', 200, WriteBody r) \<and> state n' = Leader \<and>
     my_majority n' \<le> replicatedCount n' (getLastIndex (raftLog n) + 1)"
proof -
  let ?net = "replica_network sample_replicas (\<lambda>i l. l)" and ?p = "AwaitSubmit 9 ''b'' (sample_stroke ''s4'')"
  obtain c' out where s: "settle_remote ?net sample_client sample_room (\<lambda>_. True) ?p = (c', out)"
    by (cases "settle_remote ?net sample_client sample_room (\<lambda>_. True) ?p")
  have "broadcast (g_boards sample_room) (\<lambda>_. True) ''b'' (StrokeBroadcast (sample_stroke ''s4'')) (Some 9) \<noteq> []"
    by code_simp
  then have "out \<noteq> []" "out = broadcast (g_boards sample_room) (\<lambda>_. True) ''b'' (StrokeBroadcast (sample_stroke ''s4'')) (Some 9)"
    using s sample_broadcast by (auto simp: settle_remote_def settle_def split_beta Let_def submit_settled_def)
  then have "StrokeBroadcast (sample_stroke ''s4'') \<in> snd ` set out"
    using broadcast_messages by (metis hd_in_set image_eqI prod.collapse snd_conv)
  from broadcast_strokes_are_committed[OF _ s this] sample_replicas_real show ?thesis by blast
qed

text \<open>What a client is shown when it joins was confirmed: if it is shown any strokes, they are the strokes
  that a replica's board held when a read of it was confirmed.\<close>
theorem joined_clients_see_confirmed_boards:
  assumes "settle_remote (replica_network behind meanwhile) c gw is_open p = (c', out)"
    and "JoinAck bid strokes \<in> snd ` set out" and "strokes \<noteq> []"
  shows "\<exists>i url n pa. behind i url = Some (n, pa) \<and> confirmed_board n pa bid strokes"
proof -
  obtain i u body where "get_answered behind i u bid = Some (200, body)" "bsb_strokes body = strokes"
    using remote.settled_join[OF assms(1)[unfolded settle_remote_def] assms(2)] assms(3) by (auto simp: replica_network_def)
  with assms(3) show ?thesis by (metis get_answeredD)
qed

definition written_leader :: raft_node where
  "written_leader = fst (handleClientWrite sample_leader (sample_stroke ''s4'') 7 (quiet_wait accepting))"

definition written_replicas :: replicas where
  "written_replicas i url = Some (written_leader, sample_answers)"

theorem joined_clients_see_confirmed_boards_witness:
  "let (c, strokes) = remote_getStrokes (replica_network written_replicas (\<lambda>i l. l)) sample_client ''b''
   in strokes \<noteq> [] \<and> confirmed_board written_leader sample_answers ''b'' strokes"
proof -
  let ?net = "replica_network written_replicas (\<lambda>i l. l)"
  obtain c strokes where r: "remote_getStrokes ?net sample_client ''b'' = (c, strokes)"
    by (cases "remote_getStrokes ?net sample_client ''b''")
  have "snd (remote_getStrokes ?net sample_client ''b'') \<noteq> []" by code_simp
  with r have ne: "strokes \<noteq> []" by simp
  have "settle_remote ?net sample_client sample_room (\<lambda>_. True) (AwaitStrokes 7 ''b'' ''u'' True) =
      (c, [(7, JoinAck ''b'' strokes)])"
    by (simp add: settle_remote_def settle_def r join_settled_def sendTo_def)
  from joined_clients_see_confirmed_boards[OF this _ ne] obtain i url n pa where
    "written_replicas i url = Some (n, pa)" "confirmed_board n pa ''b'' strokes" by auto
  with r ne show ?thesis by (simp add: written_replicas_def)
qed

section \<open>A retry writes twice\<close>

text \<open>
  The first request is carried out, but its answer is lost on the way back (the request of \<open>post\<close> times
  out after the replica has committed); so the later requests reach the leader as the first one left it.
\<close>
definition quiet_answers :: peer_answers where
  "quiet_answers = \<lparr>pa_latency = 7, pa_write_wait = quiet_wait accepting, pa_read_wait = (\<lambda>n. n), pa_heartbeat = acknowledging\<rparr>"

definition late_answer :: replicas where
  "late_answer i url =
     (if i = 0 then None
      else Some (written_leader, quiet_answers))"

text \<open>The client reports one successful write, and the board shows the stroke twice.\<close>
lemma retried_write_duplicates:
  "let (c', ok) = submitStroke (replica_network late_answer (\<lambda>i l. l)) sample_client (sample_stroke ''s4'');
       n = fst (serve written_leader quiet_answers (Post_client_write (sample_stroke ''s4'')))
   in ok \<and> filter (\<lambda>s. strokeId s = ''s4'') (getStrokes (boards n) ''b'') =
        [sample_stroke ''s4'', sample_stroke ''s4'']"
  by code_simp

end
