(* ===== verification/Messages.thy ===== *)
theory Messages
  imports Gateway Frontend_Board
begin

text \<open>
  The messages between browser and gateway as JSON values: the interfaces of
  \<open>frontend/src/types.ts\<close>, what \<open>JSON.stringify\<close> makes of them, how the gateway tells the messages of
  a client apart (\<open>gateway/src/messageHandler.ts\<close>), and how the socket of a browser hands on what it
  gets (\<open>ws.onmessage\<close> of \<open>frontend/src/hooks/useWebSocket.ts\<close>). \<open>JSON.parse\<close> is the argument: no
  value is a text that is not JSON. Numbers are finite, as in every stroke the gateway lets through.
\<close>

section \<open>From the browser\<close>

text \<open>\<open>ClientMessage\<close>\<close>
datatype client_request =
    JoinRequest string string
  | StrokeRequest stroke

fun json_of_client :: "client_request \<Rightarrow> json" where
  "json_of_client (JoinRequest bid uid) =
     JObj [(''type'', JStr ''join''), (''boardId'', JStr bid), (''userId'', JStr uid)]"
| "json_of_client (StrokeRequest s) = JObj [(''type'', JStr ''stroke''), (''stroke'', json_of_stroke s)]"

text \<open>
  How \<open>handleMessage\<close> of the gateway reads a text. \<open>None\<close> is a message outside the model: a join
  whose ids are not strings, or a type that is neither a string nor false.
\<close>
definition classify :: "json option \<Rightarrow> client_text option" where
  "classify data =
     (case data of
        None \<Rightarrow> Some NotJson
      | Some v \<Rightarrow>
          if v = JNull then Some JsonNull
          else if js_falsy (js_prop ''type'' v) then Some Typeless
          else (case js_prop ''type'' v of
                  Some (JStr t) \<Rightarrow>
                    if t = ''join''
                    then (case (js_prop ''boardId'' v, js_prop ''userId'' v) of
                            (Some (JStr bid), Some (JStr uid)) \<Rightarrow> Some (JoinMessage bid uid)
                          | _ \<Rightarrow> None)
                    else if t = ''stroke'' then Some (StrokeMessage (js_prop ''stroke'' v))
                    else Some (OtherType t)
                | _ \<Rightarrow> None))"

section \<open>From the gateway\<close>

definition opt_field :: "string \<Rightarrow> json option \<Rightarrow> (string \<times> json) list" where
  "opt_field k v = (case v of None \<Rightarrow> [] | Some x \<Rightarrow> [(k, x)])"

fun json_of_server :: "server_message \<Rightarrow> json" where
  "json_of_server (JoinAck bid strokes) =
     JObj [(''type'', JStr ''join_ack''), (''boardId'', JStr bid), (''strokes'', JArr (map json_of_stroke strokes))]"
| "json_of_server (StrokeBroadcast s) = JObj [(''type'', JStr ''stroke_broadcast''), (''stroke'', json_of_stroke s)]"
| "json_of_server (UserJoined uid) = JObj [(''type'', JStr ''user_joined''), (''userId'', JStr uid)]"
| "json_of_server (UserLeft uid) = JObj [(''type'', JStr ''user_left''), (''userId'', JStr uid)]"
| "json_of_server (ErrorMessage text code sid retryable) =
     JObj ([(''type'', JStr ''error''), (''message'', JStr text)] @ opt_field ''code'' (map_option JStr code)
       @ opt_field ''strokeId'' (map_option JStr sid) @ opt_field ''retryable'' (map_option JBool retryable))"

text \<open>Optional fields of an error message.\<close>
fun opt_string :: "json option \<Rightarrow> string option" where
  "opt_string (Some (JStr s)) = Some s"
| "opt_string _ = None"

fun opt_bool :: "json option \<Rightarrow> bool option" where
  "opt_bool (Some (JBool b)) = Some b"
| "opt_bool _ = None"

text \<open>
  The cast of a parsed value to \<open>ServerMessage\<close>. A value that is not of the interface, which the
  gateway never sends, is no message.
\<close>
definition server_message_of :: "json \<Rightarrow> server_message option" where
  "server_message_of v =
     (case js_prop ''type'' v of
        Some (JStr t) \<Rightarrow>
          if t = ''join_ack'' then
            (case (js_prop ''boardId'' v, js_prop ''strokes'' v) of
               (Some (JStr bid), Some (JArr ss)) \<Rightarrow> Some (JoinAck bid (map stroke_of ss))
             | _ \<Rightarrow> None)
          else if t = ''stroke_broadcast'' then map_option (StrokeBroadcast \<circ> stroke_of) (js_prop ''stroke'' v)
          else if t = ''user_joined'' then map_option UserJoined (opt_string (js_prop ''userId'' v))
          else if t = ''user_left'' then map_option UserLeft (opt_string (js_prop ''userId'' v))
          else if t = ''error'' then
            map_option (\<lambda>text. ErrorMessage text (opt_string (js_prop ''code'' v)) (opt_string (js_prop ''strokeId'' v))
              (opt_bool (js_prop ''retryable'' v))) (opt_string (js_prop ''message'' v))
          else None
      | _ \<Rightarrow> None)"

text \<open>\<open>ws.onmessage\<close>: a text that is not JSON is dropped.\<close>
definition onmessage :: "client \<Rightarrow> json option \<Rightarrow> client" where
  "onmessage c data =
     (case data of
        None \<Rightarrow> c
      | Some v \<Rightarrow> (case server_message_of v of None \<Rightarrow> c | Some message \<Rightarrow> client_message c message))"

section \<open>Nothing is lost on the way\<close>

lemma opt_string_JStr [simp]: "opt_string (map_option JStr x) = x"
  by (cases x) simp_all

lemma opt_bool_JBool [simp]: "opt_bool (map_option JBool x) = x"
  by (cases x) simp_all

lemma map_of_opt_field: "map_of (opt_field k v) j = (if j = k then v else None)"
  by (simp add: opt_field_def split: option.split)

lemma server_message_roundtrip: "server_message_of (json_of_server m) = Some m"
  by (cases m) (auto simp: server_message_of_def map_add_def map_of_opt_field map_idI split: option.split)

lemma classify_join: "classify (Some (json_of_client (JoinRequest bid uid))) = Some (JoinMessage bid uid)"
  by (simp add: classify_def)

lemma classify_stroke: "classify (Some (json_of_client (StrokeRequest s))) = Some (StrokeMessage (Some (json_of_stroke s)))"
  by (simp add: classify_def)

lemma onmessage_server [simp]: "onmessage c (Some (json_of_server m)) = client_message c m"
  by (simp add: onmessage_def server_message_roundtrip)

declare json_of_server.simps [simp del] json_of_client.simps [simp del]

text \<open>The wire loses nothing: a browser acts on exactly the message the gateway sent, the gateway reads
  a join with the ids the browser sent, and a stroke that passes its validation is read as the very
  stroke that was sent.\<close>
theorem messages_survive_the_wire:
  "onmessage c (Some (json_of_server m)) = client_message c m \<and>
   classify (Some (json_of_client (JoinRequest bid uid))) = Some (JoinMessage bid uid) \<and>
   classify (Some (json_of_client (StrokeRequest s))) = Some (StrokeMessage (Some (json_of_stroke s))) \<and>
   stroke_of (json_of_stroke s) = s"
  by (intro conjI onmessage_server classify_join classify_stroke stroke_of_json_of_stroke)

end
