(* ===== verification/Frontend_Pages.thy ===== *)
theory Frontend_Pages
  imports Frontend_Drawing Frontend_Socket Gateway_Service
begin

text \<open>
  The pages that hold state or decide something: the board code entered in
  \<open>frontend/src/components/BoardJoin.tsx\<close>, the buttons of \<open>frontend/src/components/Toolbar.tsx\<close> and the
  status page \<open>frontend/src/pages/Dashboard.tsx\<close>. What a page shows is the texts and flags it hands
  to the browser; layout and styles other than colours are left out.
\<close>

section \<open>Joining a board\<close>

text \<open>\<open>toLowerCase\<close> on the code units below 256.\<close>
definition lower_char :: "char \<Rightarrow> char" where
  "lower_char c =
     (let n = of_char c :: nat
      in if (65 \<le> n \<and> n \<le> 90) \<or> (192 \<le> n \<and> n \<le> 222 \<and> n \<noteq> 215) then char_of (n + 32) else c)"

definition js_toLowerCase :: "string \<Rightarrow> string" where
  "js_toLowerCase = map lower_char"

text \<open>The path that is navigated to, if any.\<close>
definition handleCreate :: "nat list \<Rightarrow> string" where
  "handleCreate rnds = ''/board/'' @ generateBoardCode rnds"

definition handleJoinCode :: "string \<Rightarrow> string option" where
  "handleJoinCode code =
     (let trimmed = js_toLowerCase (js_trim code)
      in if length trimmed > 0 then Some (''/board/'' @ trimmed) else None)"

section \<open>The toolbar\<close>

record color_button =
  cb_color :: string
  cb_label :: string
  cb_border :: string
  cb_outline :: string

definition color_button :: "string \<Rightarrow> string \<Rightarrow> color_button" where
  "color_button activeColor col =
     \<lparr>cb_color = col, cb_label = ''Select color '' @ col,
      cb_border = (if activeColor = col then ''3px solid #333'' else ''3px solid transparent''),
      cb_outline = (if activeColor = col then ''2px solid #666'' else ''none'')\<rparr>"

record action_button =
  ab_text :: string
  ab_disabled :: bool
  ab_background :: string
  ab_cursor :: string

text \<open>The undo and the redo button differ in their text.\<close>
definition action_button :: "string \<Rightarrow> bool \<Rightarrow> action_button" where
  "action_button txt enabled =
     \<lparr>ab_text = txt, ab_disabled = (\<not> enabled), ab_background = (if enabled then ''#f5f5f5'' else ''#eee''),
      ab_cursor = (if enabled then ''pointer'' else ''not-allowed'')\<rparr>"

definition status_text :: "connection_status \<Rightarrow> string \<times> string" where
  "status_text status =
     (case status of
        Connected \<Rightarrow> (''Connected'', ''#2ECC71'')
      | Connecting \<Rightarrow> (''Connecting...'', ''#F39C12'')
      | Disconnected \<Rightarrow> (''Disconnected'', ''#E74C3C''))"

record toolbar =
  tb_colors :: "color_button list"
  tb_undo :: action_button
  tb_redo :: action_button
  tb_status :: "string \<times> string"

definition toolbar_of :: "string \<Rightarrow> connection_status \<Rightarrow> bool \<Rightarrow> bool \<Rightarrow> toolbar" where
  "toolbar_of activeColor status undoable redoable =
     \<lparr>tb_colors = map (color_button activeColor) COLORS, tb_undo = action_button ''Undo'' undoable,
      tb_redo = action_button ''Redo'' redoable, tb_status = status_text status\<rparr>"

section \<open>The dashboard\<close>

record dashboard =
  db_data :: "cluster_status option"
  db_error :: "string option"
  db_cancelled :: bool
  db_interval :: "nat option"

definition new_dashboard :: dashboard where
  "new_dashboard = \<lparr>db_data = None, db_error = None, db_cancelled = False, db_interval = None\<rparr>"

text \<open>The effect: a fetch at once (its answer goes to \<open>fetchStatus\<close>) and one at every tick.\<close>
definition dashboard_effect :: "dashboard \<Rightarrow> dashboard" where
  "dashboard_effect d = d\<lparr>db_cancelled := False, db_interval := Some 1500\<rparr>"

text \<open>
  How \<open>fetch\<close> ends: it throws with a message, or gives a status and what \<open>response.json()\<close> then
  gives, a status of the cluster or a message thrown.
\<close>
datatype status_answer = FetchFailed string | Fetched nat "string + cluster_status"

definition fetchStatus :: "dashboard \<Rightarrow> status_answer \<Rightarrow> dashboard" where
  "fetchStatus d answer =
     (let failed = (\<lambda>message. if \<not> db_cancelled d then d\<lparr>db_error := Some message\<rparr> else d)
      in case answer of
           FetchFailed message \<Rightarrow> failed message
         | Fetched status json \<Rightarrow>
             if \<not> (200 \<le> status \<and> status < 300) then failed (''HTTP '' @ show_nat status)
             else (case json of
                     Inl message \<Rightarrow> failed message
                   | Inr parsed \<Rightarrow> if \<not> db_cancelled d then d\<lparr>db_data := Some parsed, db_error := None\<rparr> else d))"

definition dashboard_cleanup :: "dashboard \<Rightarrow> dashboard" where
  "dashboard_cleanup d = d\<lparr>db_cancelled := True, db_interval := None\<rparr>"

definition leaderLabel :: "dashboard \<Rightarrow> string" where
  "leaderLabel d =
     (case db_data d of
        None \<Rightarrow> ''No active leader''
      | Some cs \<Rightarrow> if \<not> js_truthy (cs_leaderReplicaId cs) then ''No active leader''
                   else ''Leader: '' @ the (cs_leaderReplicaId cs))"

text \<open>The cells of a replica's row.\<close>
fun state_text :: "node_state \<Rightarrow> string" where
  "state_text Follower = ''follower''"
| "state_text Candidate = ''candidate''"
| "state_text Leader = ''leader''"

definition dash :: "string option \<Rightarrow> string" where
  "dash cell = nullish cell ''-''"

definition replica_row :: "replica_cluster_status \<Rightarrow> string list" where
  "replica_row r =
     [rs_replicaId r, rs_peer r, if rs_healthy r then ''yes'' else ''no'', dash (map_option state_text (rs_state r)),
      dash (map_option show_nat (rs_currentTerm r)), dash (rs_leaderId r), dash (map_option show_nat (rs_commitIndex r)),
      dash (map_option show_nat (rs_lastApplied r)), dash (map_option show_nat (rs_logLength r))]"

definition table_header :: "string list" where
  "table_header = [''Replica'', ''Peer URL'', ''Healthy'', ''State'', ''Term'', ''Leader Hint'', ''Commit Index'',
     ''Last Applied'', ''Log Length'']"

text \<open>The page: an error, or the summary; then the table.\<close>
definition summary :: "dashboard \<Rightarrow> string + string list" where
  "summary d =
     (if js_truthy (db_error d) then Inl (''Gateway status error: '' @ the (db_error d))
      else let num = (\<lambda>g. show_nat (nullish (map_option g (db_data d)) 0))
           in Inr [leaderLabel d,
                   ''Healthy replicas: '' @ num cs_healthyReplicas @ '' / '' @ num cs_totalReplicas,
                   ''Majority requirement: '' @ num cs_majority,
                   ''Leader count observed: '' @ num cs_leaderCount,
                   ''Last update: '' @ nullish (map_option cs_generatedAt (db_data d)) ''n/a''])"

definition status_table :: "dashboard \<Rightarrow> string list list" where
  "status_table d = (case db_data d of None \<Rightarrow> [] | Some cs \<Rightarrow> map replica_row (cs_replicas cs))"

section \<open>What the pages do\<close>

text \<open>Code characters are lower case letters and digits.\<close>
definition code_char :: "char \<Rightarrow> bool" where
  "code_char c \<longleftrightarrow> c \<in> set board_code_chars"

lemma board_code_chars_lower: "list_all (\<lambda>c. lower_char c = c \<and> \<not> js_space c) board_code_chars"
  by code_simp

lemma code_char_lower: "code_char c \<Longrightarrow> lower_char c = c \<and> \<not> js_space c"
  using board_code_chars_lower by (simp add: code_char_def list_all_iff)

lemma space_lower: "js_space c \<Longrightarrow> lower_char c = c"
  by (auto simp: js_space_def lower_char_def Let_def)

lemma generateBoardCode_map:
  "generateBoardCode rnds = map (\<lambda>r. board_code_chars ! ((r mod 2 ^ 53) * length board_code_chars div 2 ^ 53)) (take 6 rnds)"
proof -
  have "foldl (\<lambda>code r. code @ [g r]) acc rs = acc @ map g rs" for g :: "nat \<Rightarrow> char" and acc rs
    by (induction rs arbitrary: acc) simp_all
  then show ?thesis by (simp add: generateBoardCode_def)
qed

text \<open>\<open>Math.floor(Math.random() * n)\<close> is an index.\<close>
lemma random_index: "0 < m \<Longrightarrow> 0 < n \<Longrightarrow> (r mod m) * n div m < (n::nat)"
  by (rule less_mult_imp_div_less) (simp add: mult.commute)

lemma generated_code_chars: "list_all code_char (generateBoardCode rnds)"
proof -
  have "board_code_chars \<noteq> []" by (simp add: board_code_chars_def)
  then have "(r mod 2 ^ 53) * length board_code_chars div 2 ^ 53 < length board_code_chars" for r :: nat
    by (intro random_index) simp_all
  then show ?thesis
    unfolding generateBoardCode_map list_all_iff code_char_def by (auto intro!: nth_mem)
qed

lemma trim_padded:
  assumes "list_all js_space before" and "list_all js_space after" and "c \<noteq> []" and "\<not> js_space (hd c)" and "\<not> js_space (last c)"
  shows "js_trim (before @ c @ after) = c"
proof -
  have "dropWhile js_space (before @ c @ after) = dropWhile js_space (c @ after)"
    using assms(1) by (intro dropWhile_append2) (simp add: list_all_iff)
  moreover have "dropWhile js_space (c @ after) = c @ after"
    using assms(3,4) by (cases c) simp_all
  moreover have "dropWhile js_space (rev after @ rev c) = dropWhile js_space (rev c)"
    using assms(2) by (intro dropWhile_append2) (simp add: list_all_iff)
  moreover have "dropWhile js_space (rev c) = rev c"
    using assms(3,5) by (cases c rule: rev_cases) simp_all
  ultimately show ?thesis by (simp add: js_trim_def)
qed

text \<open>A code that is passed on, typed in any case and with spaces around it, leads to the board it was made for.\<close>
lemma typed_code_joins:
  assumes "rnds \<noteq> []" and "js_toLowerCase typed = generateBoardCode rnds"
    and "list_all js_space before" and "list_all js_space after"
  shows "handleJoinCode (before @ typed @ after) = Some (handleCreate rnds)"
proof -
  have no_space: "\<not> js_space c" if "c \<in> set typed" for c
  proof
    assume sp: "js_space c"
    have "lower_char c \<in> set (generateBoardCode rnds)"
      using that assms(2) by (metis image_eqI js_toLowerCase_def list.set_map)
    then have "code_char (lower_char c)" using generated_code_chars by (simp add: list_all_iff)
    then show False using code_char_lower space_lower[OF sp] sp by fastforce
  qed
  have "generateBoardCode rnds \<noteq> []" using assms(1) by (simp add: generateBoardCode_map)
  then have "typed \<noteq> []" using assms(2) by (auto simp: js_toLowerCase_def)
  then have "js_trim (before @ typed @ after) = typed"
    using no_space assms(3,4) by (intro trim_padded) simp_all
  with assms(2) \<open>generateBoardCode rnds \<noteq> []\<close> show ?thesis
    by (simp add: handleJoinCode_def handleCreate_def Let_def)
qed

text \<open>An empty code leads nowhere.\<close>
lemma blank_code_ignored: "list_all js_space code \<Longrightarrow> handleJoinCode code = None"
proof -
  assume "list_all js_space code"
  then have "dropWhile js_space code = []" by (auto simp: list_all_iff dest: set_dropWhileD)
  then show ?thesis by (simp add: handleJoinCode_def js_trim_def js_toLowerCase_def Let_def del: dropWhile_eq_Nil_conv)
qed

text \<open>Exactly one colour is marked when the active colour is one of the toolbar's.\<close>
lemma one_colour_marked:
  "col \<in> set COLORS \<Longrightarrow>
   map cb_color (filter (\<lambda>b. cb_border b = ''3px solid #333'') (tb_colors (toolbar_of col status u r))) = [col]"
  by (auto simp: toolbar_of_def COLORS_def color_button_def)

text \<open>After a fetch that succeeded the dashboard has a row for every configured replica, and names a
  leader exactly if the first replica that said it leads gave a name.\<close>
lemma dashboard_shows_cluster:
  assumes "\<not> db_cancelled d" and "cs = collectClusterStatus net peers now"
  shows "let d' = fetchStatus d (Fetched 200 (Inr cs));
             leaders = filter (\<lambda>r. rs_state r = Some Leader) (map (fetchReplicaClusterStatus net) peers)
    in db_error d' = None \<and>
       status_table d' = map (replica_row \<circ> fetchReplicaClusterStatus net) peers \<and>
       leaderLabel d' = (if leaders = [] \<or> rs_replicaId (hd leaders) = [] then ''No active leader''
                         else ''Leader: '' @ rs_replicaId (hd leaders))"
  using assms by (auto simp: fetchStatus_def status_table_def leaderLabel_def collectClusterStatus_def js_at_def
      hd_conv_nth Let_def)

text \<open>Every row has a cell for every column.\<close>
lemma rows_fit_header: "row \<in> set (status_table d) \<Longrightarrow> length row = length table_header"
  by (auto simp: status_table_def replica_row_def table_header_def split: option.splits)

text \<open>A failed fetch keeps the last table and shows the error; one that ends after the cleanup changes nothing.\<close>
lemma failed_fetch_keeps_table:
  "status_table (fetchStatus d (FetchFailed m)) = status_table d"
  "m \<noteq> [] \<Longrightarrow> \<not> db_cancelled d \<Longrightarrow> summary (fetchStatus d (FetchFailed m)) = Inl (''Gateway status error: '' @ m)"
  by (simp_all add: fetchStatus_def status_table_def summary_def)

lemma cancelled_fetch_ignored: "fetchStatus (dashboard_cleanup d) answer = dashboard_cleanup d"
  by (simp add: fetchStatus_def dashboard_cleanup_def Let_def split: status_answer.split sum.split)

end
