(* ===== verification/Frontend_App.thy ===== *)
theory Frontend_App
  imports Messages Frontend_Canvas Frontend_Pages
begin

text \<open>
  One open board in a browser, \<open>frontend/src/pages/Board.tsx\<close>: the state of \<open>useBoard\<close>,
  \<open>useWebSocket\<close>, \<open>useDrawing\<close> and the canvas together, with what the user and the socket do to it. A
  step gives the new page and what it sends to the gateway. React applies the updates of a handler
  and then runs the effect of the canvas; the segments that \<open>useDrawing\<close> paints ahead of a stroke are
  on the canvas too. A page whose canvas is \<open>None\<close> has been taken down by React; what its hooks do then is
  not followed.
\<close>

section \<open>The page\<close>

record page =
  pg_color :: string
  pg_drawing :: drawing
  pg_client :: client
  pg_hook :: ws_hook
  pg_canvas :: canvas

text \<open>A page that was just mounted; without a board id the home page is shown instead.\<close>
definition open_page :: "string \<Rightarrow> string \<Rightarrow> page" where
  "open_page bid uid = \<lparr>pg_color = DEFAULT_COLOR, pg_drawing = new_drawing, pg_client = new_client bid uid,
     pg_hook = connect new_hook, pg_canvas = new_canvas\<rparr>"

definition board_page :: "string option \<Rightarrow> string \<Rightarrow> page option" where
  "board_page bid uid = (if \<not> js_truthy bid then None else Some (open_page (the bid) uid))"

definition page_toolbar :: "page \<Rightarrow> toolbar" where
  "page_toolbar p = toolbar_of (pg_color p) (wh_status (pg_hook p)) (canUndo (pg_client p)) (canRedo (pg_client p))"

text \<open>The cleanup of \<open>useBoard\<close> and of \<open>useWebSocket\<close> when the page goes away.\<close>
definition board_cleanup :: "client \<Rightarrow> client" where
  "board_cleanup c = c\<lparr>cl_pendingTimers := {}, cl_pendingRollback := Map.empty\<rparr>"

definition close_page :: "page \<Rightarrow> page" where
  "close_page p = p\<lparr>pg_client := board_cleanup (pg_client p), pg_hook := cleanup (pg_hook p)\<rparr>"

section \<open>What the user does\<close>

text \<open>\<open>send\<close>: the hook, whether the socket took the message, and what goes to the gateway.\<close>
definition page_send :: "page \<Rightarrow> client_request \<Rightarrow> page \<times> bool \<times> client_request list" where
  "page_send p req =
     (let (h, sent) = hook_send (pg_hook p) False in (p\<lparr>pg_hook := h\<rparr>, sent, if sent then [req] else []))"

text \<open>\<open>ctx.stroke()\<close> in \<open>handlePointerMove\<close>\<close>
definition segment_path :: "string \<Rightarrow> (int \<times> int) \<times> (int \<times> int) \<Rightarrow> painted_path" where
  "segment_path col seg =
     \<lparr>pp_strokeStyle = col, pp_lineWidth = JNum (whole BRUSH_WIDTH),
      pp_points = map (\<lambda>(x, y). (Some (JNum (whole x)), Some (JNum (whole y)))) [fst seg, snd seg]\<rparr>"

text \<open>More paths on a canvas.\<close>
definition paint_more :: "painted_path list option \<Rightarrow> painted_path list \<Rightarrow> painted_path list option" where
  "paint_more ctx new = map_option (\<lambda>paths. paths @ new) ctx"

lemma paint_more_append [simp]: "paint_more (paint_more ctx xs) ys = paint_more ctx (xs @ ys)" "paint_more ctx [] = ctx"
  by (cases ctx; simp add: paint_more_def)+

definition page_pointerMove :: "page \<Rightarrow> int \<times> int \<Rightarrow> page" where
  "page_pointerMove p point =
     (let (d, seg) = handlePointerMove (pg_drawing p) point;
          cv = pg_canvas p
      in p\<lparr>pg_drawing := d,
           pg_canvas := (case seg of None \<Rightarrow> cv | Some s \<Rightarrow> cv\<lparr>cv_ctx := paint_more (cv_ctx cv) [segment_path (pg_color p) s]\<rparr>)\<rparr>)"

definition page_pointerUp :: "page \<Rightarrow> string \<Rightarrow> int \<Rightarrow> page \<times> client_request list" where
  "page_pointerUp p newId now =
     (case handlePointerUp (pg_drawing p) (cl_boardId (pg_client p)) (cl_userId (pg_client p)) (pg_color p) newId now of
        (d, None) \<Rightarrow> (p\<lparr>pg_drawing := d\<rparr>, [])
      | (d, Some s) \<Rightarrow>
          (let (p1, sent, out) = page_send (p\<lparr>pg_drawing := d\<rparr>) (StrokeRequest s)
           in (p1\<lparr>pg_client := client_addStroke (pg_client p) s sent\<rparr>, out)))"

text \<open>The event that an undo or redo submits, if it finds what to undo or redo.\<close>
definition submitted_event :: "client \<Rightarrow> action \<Rightarrow> string option \<Rightarrow> string \<Rightarrow> int \<Rightarrow> stroke option" where
  "submitted_event c act targetId newId now =
     (if \<not> js_truthy targetId \<or> cl_strokeArchive c (the targetId) = None then None
      else Some (pointer_event c newId (whole now) act (the targetId)))"

definition page_undo :: "page \<Rightarrow> string \<Rightarrow> int \<Rightarrow> page \<times> client_request list" where
  "page_undo p newId now =
     (let c = pg_client p in
      if ab_disabled (tb_undo (page_toolbar p)) then (p, [])
      else case submitted_event c ActUndo (js_last (ownVisibleStrokeIds c)) newId now of
        None \<Rightarrow> (p, [])
      | Some e \<Rightarrow>
          (let (p1, sent, out) = page_send p (StrokeRequest e)
           in (p1\<lparr>pg_client := undoLastStroke c newId (whole now) sent\<rparr>, out)))"

definition page_redo :: "page \<Rightarrow> string \<Rightarrow> int \<Rightarrow> page \<times> client_request list" where
  "page_redo p newId now =
     (let c = pg_client p in
      if ab_disabled (tb_redo (page_toolbar p)) then (p, [])
      else case submitted_event c ActRedo (js_last (cl_redoStrokeIds c)) newId now of
        None \<Rightarrow> (p, [])
      | Some e \<Rightarrow>
          (let (p1, sent, out) = page_send p (StrokeRequest e)
           in (p1\<lparr>pg_client := redoLastStroke c newId (whole now) sent\<rparr>, out)))"

section \<open>Steps\<close>

text \<open>The new ids and times are drawn when an event is made; a socket has a number.\<close>
datatype page_event =
    PointerDown "int \<times> int"
  | PointerMove "int \<times> int"
  | PointerUp string int
  | ClickUndo string int
  | ClickRedo string int
  | PickColor string
  | SocketOpened nat
  | SocketFailed nat
  | SocketClosed nat
  | SocketMessage "json option"
  | TimerFired nat
  | PendingExpired string

definition page_opened :: "page \<Rightarrow> nat \<Rightarrow> page \<times> client_request list" where
  "page_opened p i =
     (let h = onopen (pg_hook p) i; c = pg_client p
      in (p\<lparr>pg_hook := h\<rparr>,
          if length (wh_sent h) > length (wh_sent (pg_hook p)) then [JoinRequest (cl_boardId c) (cl_userId c)] else []))"

definition page_handle :: "page \<Rightarrow> page_event \<Rightarrow> page \<times> client_request list" where
  "page_handle p ev =
     (case ev of
        PointerDown point \<Rightarrow> (p\<lparr>pg_drawing := handlePointerDown (pg_drawing p) point\<rparr>, [])
      | PointerMove point \<Rightarrow> (page_pointerMove p point, [])
      | PointerUp newId now \<Rightarrow> page_pointerUp p newId now
      | ClickUndo newId now \<Rightarrow> page_undo p newId now
      | ClickRedo newId now \<Rightarrow> page_redo p newId now
      | PickColor col \<Rightarrow> (p\<lparr>pg_color := col\<rparr>, [])
      | SocketOpened i \<Rightarrow> page_opened p i
      | SocketFailed i \<Rightarrow> (p\<lparr>pg_hook := onerror (pg_hook p) i\<rparr>, [])
      | SocketClosed i \<Rightarrow> (p\<lparr>pg_hook := onclose (pg_hook p) i\<rparr>, [])
      | SocketMessage data \<Rightarrow> (p\<lparr>pg_client := onmessage (pg_client p) data\<rparr>, [])
      | TimerFired n \<Rightarrow> (p\<lparr>pg_hook := timer_fires (pg_hook p) n\<rparr>, [])
      | PendingExpired sid \<Rightarrow> (p\<lparr>pg_client := pending_expires (pg_client p) sid\<rparr>, []))"

text \<open>The effect of the canvas runs after the handler.\<close>
definition page_step :: "page \<Rightarrow> page_event \<Rightarrow> page \<times> client_request list" where
  "page_step p ev =
     (let (p1, out) = page_handle p ev
      in (p1\<lparr>pg_canvas := canvas_effect (pg_canvas p1) (cl_strokes (pg_client p1))\<rparr>, out))"

text \<open>Colours are those of the toolbar, new ids are not empty, and a socket that opens was connecting.\<close>
fun page_event_ok :: "page \<Rightarrow> page_event \<Rightarrow> bool" where
  "page_event_ok p (PickColor col) \<longleftrightarrow> col \<in> set COLORS"
| "page_event_ok p (PointerUp newId now) \<longleftrightarrow> newId \<noteq> [] \<and> length newId \<le> 200"
| "page_event_ok p (ClickUndo newId now) \<longleftrightarrow> newId \<noteq> [] \<and> length newId \<le> 200"
| "page_event_ok p (ClickRedo newId now) \<longleftrightarrow> newId \<noteq> [] \<and> length newId \<le> 200"
| "page_event_ok p (SocketOpened i) \<longleftrightarrow> js_at (wh_sockets (pg_hook p)) i = Some CONNECTING"
| "page_event_ok p (SocketClosed i) \<longleftrightarrow> i < length (wh_sockets (pg_hook p)) \<and> js_at (wh_sockets (pg_hook p)) i \<noteq> Some CLOSED"
| "page_event_ok p _ \<longleftrightarrow> True"

inductive page_reachable :: "string \<Rightarrow> string \<Rightarrow> page \<Rightarrow> bool" for bid uid where
  mount: "page_reachable bid uid (open_page bid uid)"
| step: "page_reachable bid uid p \<Longrightarrow> page_event_ok p ev \<Longrightarrow> page_step p ev = (p', out) \<Longrightarrow> page_reachable bid uid p'"

lemma page_stepE:
  assumes "page_step p ev = (p', out)"
  obtains p1 where "page_handle p ev = (p1, out)"
    and "p' = p1\<lparr>pg_canvas := canvas_effect (pg_canvas p1) (cl_strokes (pg_client p1))\<rparr>"
  using assms by (cases "page_handle p ev") (simp add: page_step_def)

text \<open>A run of events, and all that is sent.\<close>
fun page_run :: "page \<Rightarrow> page_event list \<Rightarrow> page \<times> client_request list" where
  "page_run p [] = (p, [])"
| "page_run p (ev # evs) = (let (p1, out) = page_step p ev; (p2, out2) = page_run p1 evs in (p2, out @ out2))"

lemma page_run_append:
  "page_run p (evs @ evs') =
     (let (p1, out) = page_run p evs; (p2, out2) = page_run p1 evs' in (p2, out @ out2))"
  by (induction evs arbitrary: p) (simp_all add: split_beta Let_def)

lemma page_run_snoc:
  assumes "page_run p evs = (p1, [])"
  shows "page_run p (evs @ [ev]) = page_step p1 ev"
  using assms by (simp add: page_run_append Let_def split_beta)

section \<open>Whose page it is\<close>

text \<open>Nothing changes the board and the user of a page.\<close>
definition same_owner :: "client \<Rightarrow> client \<Rightarrow> bool" where
  "same_owner c c' \<longleftrightarrow> cl_boardId c' = cl_boardId c \<and> cl_userId c' = cl_userId c"

lemma same_owner_trans: "same_owner c c' \<Longrightarrow> same_owner c' c'' \<Longrightarrow> same_owner c c''"
  by (simp add: same_owner_def)

lemma same_owner_apply: "same_owner c (applyStrokeEvent c e)"
  by (simp add: same_owner_def applyStrokeEvent_request split: request.split option.split)

lemma same_owner_rollback: "same_owner c (runPendingRollback c sid)"
proof (cases "cl_pendingRollback c sid")
  case (Some rb)
  then show ?thesis by (cases rb) (simp_all add: same_owner_def runPendingRollback_def clearPending_def)
qed (simp add: same_owner_def runPendingRollback_def clearPending_def)

lemma same_owner_message: "same_owner c (client_message c m)"
  using same_owner_apply same_owner_rollback
  by (cases m) (auto simp: client_message_def same_owner_def)

lemma same_owner_submit: "same_owner c (submitStrokeMessage c s rb sent)"
  using same_owner_rollback[of "trackPending c (strokeId s) rb"]
  by (simp add: submitStrokeMessage_def same_owner_def trackPending_def Let_def)

lemma same_owner_add: "same_owner c (client_addStroke c s sent)"
  using same_owner_apply[of "c\<lparr>cl_strokeArchive := (cl_strokeArchive c)(strokeId s \<mapsto> s)\<rparr>" s]
    same_owner_submit[of "(applyStrokeEvent (c\<lparr>cl_strokeArchive := (cl_strokeArchive c)(strokeId s \<mapsto> s)\<rparr>) s)\<lparr>cl_redoStrokeIds := []\<rparr>"]
  by (simp add: client_addStroke_def same_owner_def Let_def)

lemma same_owner_undo: "same_owner c (undoLastStroke c newId now sent)"
proof -
  have "same_owner c (submitStrokeMessage (applyStrokeEvent c e\<lparr>cl_redoStrokeIds := r\<rparr>) e rb sent)" for e r rb
    by (rule same_owner_trans[OF _ same_owner_submit]) (use same_owner_apply[of c e] in \<open>simp add: same_owner_def\<close>)
  then show ?thesis by (auto simp: undoLastStroke_def Let_def same_owner_def split: option.split)
qed

lemma same_owner_redo: "same_owner c (redoLastStroke c newId now sent)"
proof -
  have "same_owner c (submitStrokeMessage (applyStrokeEvent c e\<lparr>cl_redoStrokeIds := r\<rparr>) e rb sent)" for e r rb
    by (rule same_owner_trans[OF _ same_owner_submit]) (use same_owner_apply[of c e] in \<open>simp add: same_owner_def\<close>)
  then show ?thesis by (auto simp: redoLastStroke_def Let_def same_owner_def split: option.split)
qed

lemmas owner_ops = same_owner_message same_owner_add same_owner_undo same_owner_redo

lemma page_send_simps [simp]:
  "pg_client (fst (page_send p r)) = pg_client p" "pg_color (fst (page_send p r)) = pg_color p"
  "pg_canvas (fst (page_send p r)) = pg_canvas p" "pg_drawing (fst (page_send p r)) = pg_drawing p"
  "snd (snd (page_send p r)) = (if fst (snd (page_send p r)) then [r] else [])"
  "pg_hook (fst (page_send p r)) = fst (hook_send (pg_hook p) False)"
  "fst (snd (page_send p r)) = (ref_state (pg_hook p) = Some OPEN)"
  by (simp_all add: page_send_def split_beta Let_def hook_send_def)

lemma page_handle_owner:
  assumes "page_handle p ev = (p', out)"
  shows "same_owner (pg_client p) (pg_client p')"
  using assms owner_ops[of "pg_client p"]
  by (cases ev) (auto simp: page_handle_def page_pointerMove_def page_pointerUp_def page_undo_def page_redo_def page_opened_def
      onmessage_def pending_expires_def split_beta Let_def same_owner_def
      split: option.splits prod.splits if_splits)

lemma page_handle_color:
  assumes "page_handle p ev = (p', out)"
  shows "pg_color p' = pg_color p \<or> ev = PickColor (pg_color p')"
  using assms
  by (cases ev) (auto simp: page_handle_def page_pointerMove_def page_pointerUp_def page_undo_def page_redo_def page_opened_def
      split_beta Let_def split: option.splits prod.splits if_splits)

lemma opened_owner: "page_reachable b u p \<Longrightarrow> cl_boardId (pg_client p) = b \<and> cl_userId (pg_client p) = u \<and> pg_color p \<in> set COLORS"
proof (induction rule: page_reachable.induct)
  case mount
  show ?case by (simp add: open_page_def new_client_def DEFAULT_COLOR_def COLORS_def)
next
  case (step p ev p' out)
  obtain p1 where h: "page_handle p ev = (p1, out)" and p': "p' = p1\<lparr>pg_canvas := canvas_effect (pg_canvas p1) (cl_strokes (pg_client p1))\<rparr>"
    using step.hyps(3) by (elim page_stepE)
  show ?case
    using page_handle_owner[OF h] page_handle_color[OF h] step.IH step.hyps(2) p' by (auto simp: same_owner_def)
qed

text \<open>The socket of a page is that of a mounted hook, so it is live or about to be made again.\<close>
lemma page_hook_steps:
  assumes "page_handle p ev = (p', out)" and "page_event_ok p ev"
  shows "pg_hook p' = pg_hook p \<or> hook_step (pg_hook p) (pg_hook p')"
  using assms
  by (cases ev) (auto simp: page_handle_def page_pointerMove_def page_pointerUp_def page_undo_def page_redo_def page_opened_def
      split_beta Let_def split: option.splits prod.splits if_splits intro: hook_step.intros)

lemma page_hook_mounted: "page_reachable b u p \<Longrightarrow> mounted (pg_hook p)"
proof (induction rule: page_reachable.induct)
  case mount
  show ?case by (simp add: open_page_def mounted.mount)
next
  case (step p ev p' out)
  then show ?case by (elim page_stepE) (use page_hook_steps mounted.step in fastforce)
qed

section \<open>What a page sends\<close>

lemma pointer_event_valid:
  assumes "act \<noteq> ActStroke" and "newId \<noteq> []" and "length newId \<le> 200"
  shows "validateStroke (Some (json_of_stroke (pointer_event c newId (whole now) act target))) (cl_boardId c) (cl_userId c) = Inr ()"
  using assms by (simp add: validateStroke_json_of well_formed_stroke_def pointer_event_def HEX_COLOR_def is_hex_def is_digit_def Suc_le_eq)

text \<open>A stroke message of a board and user that the gateway lets through unless it has too many points.\<close>
definition proper :: "string \<Rightarrow> string \<Rightarrow> client_request \<Rightarrow> bool" where
  "proper b u r =
     (case r of
        JoinRequest bid uid \<Rightarrow> bid = b \<and> uid = u
      | StrokeRequest s \<Rightarrow> boardId s = b \<and> userId s = u \<and>
          (validateStroke (Some (json_of_stroke s)) b u = Inr () \<longleftrightarrow> point_count s \<le> maxStrokePoints))"

lemma proper_pointer:
  assumes "act \<noteq> ActStroke" and "newId \<noteq> []" and "length newId \<le> 200"
  shows "proper (cl_boardId c) (cl_userId c) (StrokeRequest (pointer_event c newId (whole now) act target))"
  using pointer_event_valid[OF assms] by (simp add: proper_def) (simp add: pointer_event_def point_count_def json_points_def)

lemma proper_drawn:
  assumes "handlePointerUp d b u col newId now = (d', Some s)" and "col \<in> set COLORS" and "newId \<noteq> []" and "length newId \<le> 200"
  shows "proper b u (StrokeRequest s)"
proof -
  have "dr_points d \<noteq> []" and s: "s = createStroke b u col BRUSH_WIDTH (dr_points d) newId now"
    using assms(1) by (auto simp: handlePointerUp_def split: if_splits)
  then show ?thesis
    using createStroke_well_formed[OF _ assms(2-4)]
    by (simp add: proper_def validateStroke_json_of) (simp add: createStroke_def point_count_def json_points_def)
qed

lemma page_handle_proper:
  assumes "page_handle p ev = (p', out)" and "page_event_ok p ev" and "pg_color p \<in> set COLORS"
  shows "list_all (proper (cl_boardId (pg_client p)) (cl_userId (pg_client p))) out"
proof (cases ev)
  case (PointerUp newId now)
  obtain d s where "handlePointerUp (pg_drawing p) (cl_boardId (pg_client p)) (cl_userId (pg_client p)) (pg_color p) newId now = (d, s)"
    by fastforce
  then show ?thesis
    using assms PointerUp proper_drawn[of "pg_drawing p"]
    by (cases s) (auto simp: page_handle_def page_pointerUp_def split_beta Let_def)
next
  case (ClickUndo newId now)
  then show ?thesis
    using assms by (auto simp: page_handle_def page_undo_def submitted_event_def proper_pointer split_beta Let_def
        split: option.splits if_splits)
next
  case (ClickRedo newId now)
  then show ?thesis
    using assms by (auto simp: page_handle_def page_redo_def submitted_event_def proper_pointer split_beta Let_def
        split: option.splits if_splits)
next
  case (SocketOpened i)
  then show ?thesis using assms by (auto simp: page_handle_def page_opened_def proper_def Let_def)
qed (use assms in \<open>auto simp: page_handle_def\<close>)

text \<open>C21: What a browser sends is what the gateway takes: in every state of a page, whatever the user and the
  socket do, a message that the page sends is the join of its own board and user, or a stroke, undo or
  redo of them that passes the gateway's validation, unless it is a drawing of more than 2000 points.\<close>
theorem page_sends_valid_messages:
  assumes "page_reachable b u p" and "page_event_ok p ev" and "page_step p ev = (p', out)" and "r \<in> set out"
  shows "r = JoinRequest b u \<or>
    (\<exists>s. r = StrokeRequest s \<and> boardId s = b \<and> userId s = u \<and>
       (validateStroke (Some (json_of_stroke s)) b u = Inr () \<longleftrightarrow> point_count s \<le> 2000))"
proof -
  obtain p1 where "page_handle p ev = (p1, out)"
    using assms(3) by (elim page_stepE)
  from page_handle_proper[OF this assms(2)] opened_owner[OF assms(1)] assms(4) have "proper b u r"
    by (simp add: list_all_iff)
  then show ?thesis by (cases r) (simp_all add: proper_def maxStrokePoints_def)
qed


lemma opened_run:
  assumes "page_reachable b u p" and "page_run p evs = (p', out)"
    and "\<And>k. k < length evs \<Longrightarrow> page_event_ok (fst (page_run p (take k evs))) (evs ! k)"
  shows "page_reachable b u p'"
  using assms
proof (induction evs arbitrary: p out)
  case (Cons ev evs)
  obtain p1 out1 where s: "page_step p ev = (p1, out1)" by fastforce
  obtain out2 where r: "page_run p1 evs = (p', out2)"
    using Cons.prems(2) s by (auto simp: Let_def split: prod.splits)
  have "page_reachable b u p1"
    using page_reachable.step[OF Cons.prems(1) _ s] Cons.prems(3)[of 0] by simp
  moreover have "page_event_ok (fst (page_run p1 (take k evs))) (evs ! k)" if "k < length evs" for k
    using Cons.prems(3)[of "Suc k"] that s by (simp add: Let_def split_beta)
  ultimately show ?case using Cons.IH r by blast
qed simp

text \<open>A page that has connected and in which a line is being drawn.\<close>
definition drawing_page :: page where
  "drawing_page = fst (page_run (open_page ''b'' ''u'') [SocketOpened 0, PointerDown (0, 0), PointerMove (5, 5)])"

lemma opened_drawing_page: "page_reachable ''b'' ''u'' drawing_page"
proof -
  let ?evs = "[SocketOpened 0, PointerDown (0, 0), PointerMove (5, 5)]"
  have "js_at (wh_sockets (pg_hook (open_page ''b'' ''u''))) 0 = Some CONNECTING"
    by (simp add: open_page_def connect_def new_hook_def ref_state_def js_at_def)
  then have "page_event_ok (fst (page_run (open_page ''b'' ''u'') (take k ?evs))) (?evs ! k)" if "k < length ?evs" for k
    using that by (auto simp: less_Suc_eq nth_Cons')
  from opened_run[OF page_reachable.mount prod.collapse[symmetric] this] show ?thesis
    by (simp add: drawing_page_def)
qed

theorem page_sends_valid_messages_witness:
  "let s = createStroke ''b'' ''u'' DEFAULT_COLOR BRUSH_WIDTH [(0, 0), (5, 5)] ''s'' 7
   in snd (page_step drawing_page (PointerUp ''s'' 7)) = [StrokeRequest s] \<and>
      validateStroke (Some (json_of_stroke s)) ''b'' ''u'' = Inr ()"
proof -
  let ?s = "createStroke ''b'' ''u'' DEFAULT_COLOR BRUSH_WIDTH [(0, 0), (5, 5)] ''s'' 7"
  have out: "snd (page_step drawing_page (PointerUp ''s'' 7)) = [StrokeRequest ?s]" by code_simp
  have "point_count ?s = 2" by (simp add: createStroke_def point_count_def json_points_def)
  then show ?thesis
    using page_sends_valid_messages[OF opened_drawing_page _ prod.collapse[symmetric], of "PointerUp ''s'' 7" "StrokeRequest ?s"] out
    by (simp add: Let_def)
qed

section \<open>A gesture on the page\<close>

text \<open>The canvas knows how many strokes it has painted.\<close>
definition counted :: "page \<Rightarrow> bool" where
  "counted p \<longleftrightarrow> cv_lastDrawnCount (pg_canvas p) = length (cl_strokes (pg_client p))"

lemma canvas_effect_idle: "cv_lastDrawnCount cv = length strokes \<Longrightarrow> canvas_effect cv strokes = cv"
  by (simp add: canvas_effect_def)

definition segments :: "string \<Rightarrow> (int \<times> int) list \<Rightarrow> painted_path list" where
  "segments col pts = map (segment_path col) (zip pts (tl pts))"

lemma segments_snoc: "pts \<noteq> [] \<Longrightarrow> segments col (pts @ [pt]) = segments col pts @ [segment_path col (last pts, pt)]"
proof (induction pts)
  case (Cons a pts)
  then show ?case by (cases pts) (simp_all add: segments_def)
qed simp

lemma page_moves:
  assumes "counted p" and "dr_isDrawing (pg_drawing p)" and "dr_points (pg_drawing p) = pts" and "pts \<noteq> []"
    and "cv_ctx (pg_canvas p) = paint_more ctx (segments (pg_color p) pts)"
  shows "page_run p (map PointerMove moves) =
    (p\<lparr>pg_drawing := (pg_drawing p)\<lparr>dr_points := pts @ moves\<rparr>,
       pg_canvas := (pg_canvas p)\<lparr>cv_ctx := paint_more ctx (segments (pg_color p) (pts @ moves))\<rparr>\<rparr>, [])"
  using assms
proof (induction moves arbitrary: p pts)
  case (Cons pt moves)
  let ?p = "p\<lparr>pg_drawing := (pg_drawing p)\<lparr>dr_points := pts @ [pt]\<rparr>,
      pg_canvas := (pg_canvas p)\<lparr>cv_ctx := paint_more ctx (segments (pg_color p) (pts @ [pt]))\<rparr>\<rparr>"
  have "pts ! (length pts - 1) = last pts" using Cons.prems(4) by (simp add: last_conv_nth)
  moreover have "length pts \<noteq> 0" using Cons.prems(4) by simp
  ultimately have "page_step p (PointerMove pt) = (?p, [])"
    using Cons.prems by (simp add: page_step_def page_handle_def page_pointerMove_def handlePointerMove_def Let_def
        segments_snoc canvas_effect_idle counted_def nth_append Suc_le_eq)
  moreover have "page_run ?p (map PointerMove moves) =
      (?p\<lparr>pg_drawing := (pg_drawing ?p)\<lparr>dr_points := (pts @ [pt]) @ moves\<rparr>,
          pg_canvas := (pg_canvas ?p)\<lparr>cv_ctx := paint_more ctx (segments (pg_color ?p) ((pts @ [pt]) @ moves))\<rparr>\<rparr>, [])"
    by (rule Cons.IH) (use Cons.prems in \<open>simp_all add: counted_def\<close>)
  ultimately show ?case by simp
next
  case Nil
  then have "(pg_drawing p)\<lparr>dr_points := pts\<rparr> = pg_drawing p"
    "(pg_canvas p)\<lparr>cv_ctx := paint_more ctx (segments (pg_color p) pts)\<rparr> = pg_canvas p"
    by (simp_all add: drawing.equality canvas.equality)
  then show ?case by simp
qed

abbreviation strokeGesture :: "int \<times> int \<Rightarrow> (int \<times> int) list \<Rightarrow> page_event list" where
  "strokeGesture start moves \<equiv> PointerDown start # map PointerMove moves"

lemma page_gesture:
  assumes "counted p"
  shows "page_run p (strokeGesture start moves) =
    (p\<lparr>pg_drawing := \<lparr>dr_isDrawing = True, dr_points = start # moves\<rparr>,
       pg_canvas := (pg_canvas p)\<lparr>cv_ctx := paint_more (cv_ctx (pg_canvas p)) (segments (pg_color p) (start # moves))\<rparr>\<rparr>, [])"
proof -
  let ?p = "p\<lparr>pg_drawing := \<lparr>dr_isDrawing = True, dr_points = [start]\<rparr>\<rparr>"
  have "page_step p (PointerDown start) = (?p, [])"
    using assms by (simp add: page_step_def page_handle_def handlePointerDown_def counted_def canvas_effect_idle)
  moreover have "page_run ?p (map PointerMove moves) =
     (?p\<lparr>pg_drawing := (pg_drawing ?p)\<lparr>dr_points := [start] @ moves\<rparr>,
       pg_canvas := (pg_canvas ?p)\<lparr>cv_ctx := paint_more (cv_ctx (pg_canvas p)) (segments (pg_color ?p) ([start] @ moves))\<rparr>\<rparr>, [])"
    by (rule page_moves) (use assms in \<open>simp_all add: counted_def segments_def\<close>)
  ultimately show ?thesis by simp
qed


lemma gesture_drawn:
  "handlePointerUp \<lparr>dr_isDrawing = True, dr_points = start # moves\<rparr> b u col newId now =
     (new_drawing, if moves = [] then None else Some (createStroke b u col BRUSH_WIDTH (start # moves) newId now))"
  by (simp add: handlePointerUp_def new_drawing_def Suc_le_eq)

text \<open>The stroke that a gesture of a page makes.\<close>
definition page_stroke :: "page \<Rightarrow> (int \<times> int) list \<Rightarrow> string \<Rightarrow> int \<Rightarrow> stroke" where
  "page_stroke p pts newId now =
     createStroke (cl_boardId (pg_client p)) (cl_userId (pg_client p)) (pg_color p) BRUSH_WIDTH pts newId now"

lemma addStroke_offline:
  assumes "request_of s = Draw" and "\<not> displays (cl_strokes c) (strokeId s)"
  shows "cl_strokes (client_addStroke c s False) = cl_strokes c"
proof -
  have "cl_strokes (client_addStroke c s False) = hide (strokeId s) (cl_strokes c)"
    using assms(1) by (simp add: client_addStroke_def applyStrokeEvent_request submitStrokeMessage_def trackPending_def
        runPendingRollback_def clearPending_def Let_def)
  also have "\<dots> = cl_strokes c" using assms(2) by (auto simp: filter_id_conv list_ex_iff)
  finally show ?thesis .
qed

lemma createStroke_draws: "request_of (createStroke b u col w pts newId now) = Draw" "strokeId (createStroke b u col w pts newId now) = newId"
  by (simp_all add: createStroke_def request_of_def)

text \<open>A stroke that is drawn while the socket is not open is taken back, and stays on the canvas. Nothing
  is sent, and the strokes of the page are what they were; but the segments painted under the
  pointer are not cleared, as the number of strokes is the same again.\<close>
theorem offline_stroke_stays_painted:
  assumes "counted p" and "ref_state (pg_hook p) \<noteq> Some OPEN" and "\<not> displays (cl_strokes (pg_client p)) newId"
    and "moves \<noteq> []" and "page_run p (strokeGesture start moves @ [PointerUp newId now]) = (p', out)"
  shows "out = [] \<and> cl_strokes (pg_client p') = cl_strokes (pg_client p) \<and>
    cv_ctx (pg_canvas p') = paint_more (cv_ctx (pg_canvas p)) (segments (pg_color p) (start # moves)) \<and>
    length (segments (pg_color p) (start # moves)) = length moves"
proof -
  let ?p = "p\<lparr>pg_drawing := \<lparr>dr_isDrawing = True, dr_points = start # moves\<rparr>,
      pg_canvas := (pg_canvas p)\<lparr>cv_ctx := paint_more (cv_ctx (pg_canvas p)) (segments (pg_color p) (start # moves))\<rparr>\<rparr>"
  let ?s = "page_stroke p (start # moves) newId now"
  have kept: "cl_strokes (client_addStroke (pg_client p) ?s False) = cl_strokes (pg_client p)"
    using assms(3) by (intro addStroke_offline) (simp_all add: page_stroke_def createStroke_draws)
  have up: "page_step ?p (PointerUp newId now) =
      (p\<lparr>pg_drawing := new_drawing, pg_canvas := pg_canvas ?p, pg_client := client_addStroke (pg_client p) ?s False\<rparr>, [])"
    using assms(1,2,4) kept
    by (simp add: page_step_def page_handle_def page_pointerUp_def gesture_drawn page_stroke_def page_send_def hook_send_def
        counted_def canvas_effect_idle)
  then have "p' = p\<lparr>pg_drawing := new_drawing, pg_canvas := pg_canvas ?p, pg_client := client_addStroke (pg_client p) ?s False\<rparr>"
    "out = []"
    using assms(5) unfolding page_run_snoc[OF page_gesture[OF assms(1)]] by simp_all
  then show ?thesis using kept by (simp add: segments_def)
qed

text \<open>A page whose socket is still connecting.\<close>
theorem offline_stroke_stays_painted_witness:
  "let (p, out) = page_run (open_page ''b'' ''u'') (strokeGesture (0, 0) [(5, 5), (9, 9)] @ [PointerUp ''s'' 7])
   in out = [] \<and> cl_strokes (pg_client p) = [] \<and> map_option length (cv_ctx (pg_canvas p)) = Some 2"
proof -
  let ?p = "open_page ''b'' ''u''" and ?evs = "strokeGesture (0, 0) [(5, 5), (9, 9)] @ [PointerUp ''s'' 7]"
  obtain p' out where r: "page_run ?p ?evs = (p', out)" by fastforce
  have "counted ?p" "ref_state (pg_hook ?p) \<noteq> Some OPEN" "cl_strokes (pg_client ?p) = []" "cv_ctx (pg_canvas ?p) = Some []"
    by (simp_all add: open_page_def counted_def new_canvas_def new_client_def connect_def new_hook_def ref_state_def js_at_def)
  from offline_stroke_stays_painted[OF this(1,2) _ _ r] this(3,4) r show ?thesis
    by (auto simp: Let_def paint_more_def)
qed

end
