(* ===== verification/Session.thy ===== *)
theory Session
  imports Frontend_App Deployment
begin

text \<open>
  A session end to end: what a browser sends goes through the gateway's handlers and its Raft client,
  and what the gateway sends then is handled by the browsers it reaches. Between the halves of a
  handler gateway and network are arbitrary.
\<close>

section \<open>What a socket delivers\<close>

text \<open>A page handles messages one after the other.\<close>
definition receive :: "page \<Rightarrow> server_message list \<Rightarrow> page" where
  "receive p ms = foldl (\<lambda>p m. fst (page_step p (SocketMessage (Some (json_of_server m))))) p ms"

text \<open>The messages for the socket \<open>ws\<close>, handled by the page at its other end.\<close>
definition deliver_to :: "socket \<Rightarrow> (socket \<times> server_message) list \<Rightarrow> page \<Rightarrow> page" where
  "deliver_to ws out p = receive p (map snd (filter (\<lambda>x. fst x = ws) out))"

lemma page_message:
  "fst (page_step p (SocketMessage (Some (json_of_server m)))) =
     p\<lparr>pg_client := client_message (pg_client p) m,
       pg_canvas := canvas_effect (pg_canvas p) (cl_strokes (client_message (pg_client p) m))\<rparr>"
  by (simp add: page_step_def page_handle_def)

lemma deliver_to_append: "deliver_to ws (out @ out') p = deliver_to ws out' (deliver_to ws out p)"
  by (simp add: deliver_to_def receive_def)

lemma deliver_to_none: "(\<And>m. (ws, m) \<notin> set out) \<Longrightarrow> deliver_to ws out p = p"
proof -
  assume "\<And>m. (ws, m) \<notin> set out"
  then have "filter (\<lambda>x. fst x = ws) out = []" by (auto simp: filter_empty_conv)
  then show ?thesis by (simp add: deliver_to_def receive_def)
qed

lemma deliver_to_sendTo: "is_open ws \<Longrightarrow> deliver_to ws (sendTo is_open ws m) p = fst (page_step p (SocketMessage (Some (json_of_server m))))"
  by (simp add: deliver_to_def receive_def sendTo_def)


lemma broadcast_excluded: "deliver_to ws (broadcast b is_open bid m (Some ws)) p = p"
  by (rule deliver_to_none) (auto simp: broadcast_def split: option.splits)






text \<open>What arrives before a join answer only shortens the strokes of a page or adds some at the end.\<close>
lemma receive_in_sync:
  assumes "in_sync (pg_canvas p) (cl_strokes (pg_client p))" and "\<forall>m\<in>set ms. \<forall>bid strokes. m \<noteq> JoinAck bid strokes"
  shows "in_sync (pg_canvas (receive p ms)) (cl_strokes (pg_client (receive p ms)))"
  using assms
proof (induction ms arbitrary: p)
  case (Cons m ms)
  let ?p = "fst (page_step p (SocketMessage (Some (json_of_server m))))"
  have "in_sync (pg_canvas ?p) (cl_strokes (pg_client ?p))"
    using canvas_effect_in_sync[OF Cons.prems(1) message_extends[of m "pg_client p"]] Cons.prems(2) by (simp add: page_message)
  then have "in_sync (pg_canvas (receive ?p ms)) (cl_strokes (pg_client (receive ?p ms)))"
    using Cons.prems(2) by (intro Cons.IH) simp_all
  then show ?case by (simp add: receive_def)
qed (simp add: receive_def)

text \<open>A page that was taken down does not come back.\<close>
lemma receive_gone: "cv_ctx (pg_canvas p) = None \<Longrightarrow> cv_ctx (pg_canvas (receive p ms)) = None"
proof (induction ms arbitrary: p)
  case (Cons m ms)
  then have "cv_ctx (pg_canvas (fst (page_step p (SocketMessage (Some (json_of_server m)))))) = None"
    by (simp add: page_message canvas_effect_def)
  from Cons.IH[OF this] show ?case by (simp add: receive_def)
qed (simp add: receive_def)


section \<open>Opening a board\<close>

lemma opened_page_joins:
  "page_step (open_page b u) (SocketOpened 0) =
     ((open_page b u)\<lparr>pg_hook := onopen (connect new_hook) 0\<rparr>, [JoinRequest b u])"
  by (simp add: page_step_def page_handle_def page_opened_def open_page_def connect_def new_hook_def ref_state_def
      onopen_def hook_send_def js_at_def new_client_def new_canvas_def canvas_effect_def Let_def)

lemma handled_join:
  assumes "g_connections gw ws = Some info"
    and "handleMessage gw is_open ws (the (classify (Some (json_of_client (JoinRequest b u))))) now = (gw1, out, Some pnd)"
  obtains existing where "out = []" and "pnd = AwaitStrokes ws b u existing"
  using assms by (auto simp: classify_join handleMessage_def handleJoin_def Let_def)

text \<open>C18: What a user sees who opens a board. When the socket of a new page opens, the page joins its board as its
  user; the gateway puts it into the room before it asks the replicas for the strokes, so messages may
  reach the page before the answer: any but another join answer, in any number. Whatever happens to gateway and
  replicas meanwhile, when the answer has arrived the page shows its list of strokes, which is empty or the board
  that a replica gave a confirmed read; and the picture on its canvas (unless a message made the painting throw
  and took the page down) is: the picture of that list, if the page showed nothing before or the list is the shorter one;
  else the picture of what the page showed before, with those strokes of the answer painted over it that are
  beyond that number. So strokes that came early can keep as many strokes of the answer from being painted.\<close>
theorem opened_board_is_painted:
  assumes "page_step (open_page b u) (SocketOpened 0) = (p, reqs)"
    and "g_connections gw ws = Some info"
    and "handleMessage gw is_open ws (the (classify (Some (json_of_client (hd reqs))))) now = (gwj, first, Some pnd)"
    and "\<forall>m\<in>set early. \<forall>bid strokes. m \<noteq> JoinAck bid strokes"
    and "settle_remote (replica_network behind meanwhile) c gw' is_open' pnd = (c', second)" and "is_open' ws"
  shows "reqs = [JoinRequest b u] \<and>
    (let q = receive (deliver_to ws first p) early; shown = cl_strokes (pg_client q);
         p' = deliver_to ws second q; strokes = cl_strokes (pg_client p') in
       cv_ctx (pg_canvas p') =
         (if cv_ctx (pg_canvas q) = None then None
          else if shown = [] \<or> length strokes < length shown then picture strokes
          else foldl drawStroke (picture shown) (drop (length shown) strokes)) \<and>
       (strokes = [] \<or> (\<exists>i url n pa. behind i url = Some (n, pa) \<and> confirmed_board n pa b strokes)))"
proof -
  have p: "p = (open_page b u)\<lparr>pg_hook := onopen (connect new_hook) 0\<rparr>" and reqs: "reqs = [JoinRequest b u]"
    using assms(1) by (simp_all add: opened_page_joins)
  have "handleMessage gw is_open ws (the (classify (Some (json_of_client (JoinRequest b u))))) now = (gwj, first, Some pnd)"
    using assms(3) reqs by simp
  from handled_join[OF assms(2) this] obtain existing where pnd: "first = []" "pnd = AwaitStrokes ws b u existing" .
  obtain strokes where r: "remote_getStrokes (replica_network behind meanwhile) c b = (c', strokes)"
    and second: "second = join_settled gw' is_open' ws b u existing strokes"
    using assms(5) pnd by (auto simp: settle_remote_def settle_def Let_def split: prod.splits)
  define q where "q = receive p early"
  have d: "deliver_to ws second q = fst (page_step q (SocketMessage (Some (json_of_server (JoinAck b strokes)))))"
    using assms(6) pnd second
    by (simp add: join_settled_def deliver_to_append deliver_to_sendTo broadcast_excluded deliver_to_none)
  have shown: "cl_strokes (pg_client (deliver_to ws second q)) = strokes"
    by (simp add: d page_message client_message_def)
  have "in_sync (pg_canvas p) (cl_strokes (pg_client p))"
    by (simp add: p open_page_def in_sync_new new_client_def)
  from receive_in_sync[OF this assms(4)] have sync: "in_sync (pg_canvas q) (cl_strokes (pg_client q))"
    by (simp add: q_def)
  have painted: "cv_ctx (pg_canvas (deliver_to ws second q)) = cv_ctx (canvas_effect (pg_canvas q) strokes)"
    by (simp add: d page_message client_message_def)
  have "JoinAck b strokes \<in> snd ` set second"
    using assms(6) second by (simp add: join_settled_def sendTo_def)
  from joined_clients_see_confirmed_boards[OF assms(5) this]
  have "strokes = [] \<or> (\<exists>i url n pa. behind i url = Some (n, pa) \<and> confirmed_board n pa b strokes)" by blast
  moreover have "deliver_to ws first p = p" by (rule deliver_to_none) (simp add: pnd(1))
  ultimately show ?thesis
    using reqs shown painted sync by (auto simp: q_def[symmetric] in_sync_def canvas_effect_def Let_def)
qed

text \<open>A page whose join is answered after somebody else's stroke has reached it.\<close>
theorem opened_board_is_painted_witness:
  "let q = receive ((open_page ''b'' ''u'')\<lparr>pg_hook := onopen (connect new_hook) 0\<rparr>) [StrokeBroadcast (sample_stroke ''early'')];
       out = snd (settle_remote (replica_network written_replicas (\<lambda>i l. l)) sample_client sample_room (\<lambda>_. True)
               (AwaitStrokes 7 ''b'' ''u'' True));
       p' = deliver_to 7 out q; strokes = cl_strokes (pg_client p')
   in cv_ctx (pg_canvas p') = foldl drawStroke (picture [sample_stroke ''early'']) (drop 1 strokes) \<and>
      confirmed_board written_leader sample_answers ''b'' strokes"
proof -
  obtain info where info: "g_connections sample_room 7 = Some info"
  proof -
    have "g_connections sample_room 7 \<noteq> None" by code_simp
    then show ?thesis using that by auto
  qed
  obtain gw1 where h: "handleMessage sample_room (\<lambda>_. True) 7 (the (classify (Some (json_of_client (hd [JoinRequest ''b'' ''u'']))))) 1 =
      (gw1, [], Some (AwaitStrokes 7 ''b'' ''u'' True))"
  proof -
    have "hasUser (g_boards sample_room) ''b'' ''u''" by code_simp
    then show ?thesis using that info by (simp add: classify_join handleMessage_def handleJoin_def Let_def)
  qed
  define q where "q = receive ((open_page ''b'' ''u'')\<lparr>pg_hook := onopen (connect new_hook) 0\<rparr>) [StrokeBroadcast (sample_stroke ''early'')]"
  define p where "p = deliver_to 7 (snd (settle_remote (replica_network written_replicas (\<lambda>i l. l)) sample_client sample_room (\<lambda>_. True)
      (AwaitStrokes 7 ''b'' ''u'' True))) q"
  have none: "deliver_to 7 [] x = x" for x by (simp add: deliver_to_def receive_def)
  note t = opened_board_is_painted[where early = "[StrokeBroadcast (sample_stroke ''early'')]" and behind = written_replicas
      and meanwhile = "\<lambda>i l. l" and c = sample_client and gw' = sample_room and is_open' = "\<lambda>_. True",
      OF opened_page_joins info h _ prod.collapse[symmetric], unfolded none Let_def, folded q_def, folded p_def]
  have "cl_strokes (pg_client q) = [sample_stroke ''early''] \<and> cv_ctx (pg_canvas q) \<noteq> None"
    unfolding q_def by code_simp
  moreover have "length (cl_strokes (pg_client p)) = 4" unfolding p_def q_def by code_simp
  ultimately show ?thesis
    using t unfolding Let_def q_def[symmetric] p_def[symmetric] by (auto simp: written_replicas_def)
qed

section \<open>Drawing a stroke\<close>










section \<open>A message that takes pages down\<close>






end
