(* ===== verification/Spec2Isabelle.thy ===== *)
theory Spec2Isabelle
  imports Cluster_Runs Cluster_Failures Log_Matching Leader_Props Client_Writes Follower_Props Crash_Points Local_Props
    Leader_Completeness Stale_Answers Logging Store_Props Replica_Process Rpc_Client Convergence Gateway_Props Gateway_Service Frontend_Props Deployment
    Session
begin

text \<open>
  A verification development of QuorumCanvas, a collaborative whiteboard whose strokes are
  replicated by a hand-written Raft cluster. A browser (\<open>frontend/\<close>) sends strokes, undos and
  redos over a WebSocket to the gateway (\<open>gateway/\<close>), the gateway forwards them as client writes
  to the leader of the replicas (\<open>replica/\<close>), and what the cluster has committed is broadcast to every
  browser on the board. The development models the logic of all three, and puts the gateway in front
  of the replicas.

  The replica.

  \<^item> \<open>Prelude\<close>: the JavaScript values and calls the code uses (optional fields, maps, numbers,
    \<open>split\<close>, \<open>trim\<close>, \<open>parseInt\<close>), majorities, and the locale \<open>quorum_system\<close>, interpreted on the
    majorities of a cluster.
  \<^item> \<open>Replica_Types\<close>: \<open>replica/src/types.ts\<close>, one record per interface.
  \<^item> \<open>Persistence\<close>: \<open>replica/src/persistence.ts\<close>. A store is a disk and the list of the calls
    made on it; each call is atomic and durable. The locale \<open>durable_store\<close> is the contract the
    node relies on, interpreted on \<open>FilePersistence\<close>.
  \<^item> \<open>File_Store\<close>: the same class one level down, as the texts of its three files, with what a crash
    in the middle of a call leaves behind; it implements \<open>Persistence\<close>. \<open>Posix_Files\<close>: the same class
    once more as the system calls it makes (\<open>atomicWrite\<close>, \<open>fsyncDir\<close>, \<open>syscalls\<close>), on a file system that
    may lose whatever was not synced; what a crash leaves there is what \<open>File_Store\<close> says.
  \<^item> \<open>Raft_Log\<close>: \<open>replica/src/raftLog.ts\<close>. The locale \<open>indexed_log\<close> is the interface through
    which received entries are merged, interpreted on the log.
  \<^item> \<open>Board_Machine\<close> and \<open>Boards\<close>: the abstract board and the board maps of
    \<open>replica/src/raftNode.ts\<close> that implement it; the locale \<open>board_machine\<close> is the contract.
  \<^item> \<open>Timers\<close>: \<open>replica/src/electionTimer.ts\<close> and the constants of \<open>replica/src/config.ts\<close>.
    The locale \<open>timer_service\<close> is the interface \<open>TimerManager\<close>, what a node that follows, leads or
    stops relies on. \<open>Metrics\<close>: \<open>replica/src/metrics.ts\<close>.
  \<^item> \<open>Raft_Node\<close>: the state of the class \<open>RaftNode\<close> (\<open>replica/src/raftNode.ts\<close>) and every
    method that does not wait. The node and its log share one store, which the model keeps in the log.
  \<^item> \<open>Raft_Async\<close>: the methods that wait for RPCs, cut at their \<open>await\<close>s: the part that runs
    before the calls are made, and the part that runs when an answer or an error arrives, on the
    node as it is then. The whole \<open>handleClientWrite\<close> and \<open>readBoardState\<close> have their awaits as arguments (how
    the node that went to sleep becomes the one that goes on), so that the checks after an await are checks of
    whatever happened meanwhile. \<open>replicate_round\<close>, a round in which nothing but the answers comes, serves
    \<open>Convergence\<close> and \<open>Follower_Props\<close>.
  \<^item> \<open>Replica_Service\<close>: \<open>parseConfig\<close> of \<open>replica/src/config.ts\<close>, \<open>createApp\<close> of
    \<open>replica/src/index.ts\<close>, and the routes of \<open>replica/src/rpcHandlers.ts\<close> (\<open>serve\<close>), with what happens while
    a route waits as an argument (\<open>peer_answers\<close>).
    \<open>Rpc_Client\<close>: the calls of \<open>replica/src/rpcClient.ts\<close>, with a replica's routes behind a URL.
  \<^item> \<open>Replica_Process\<close>: the main module of \<open>replica/src/index.ts\<close>, a replica from its environment
    to its shutdown, with its timers and the elections that wait for answers (\<open>process_step\<close>).
  \<^item> \<open>Logging\<close>: the lines of \<open>replica/src/logger.ts\<close> and \<open>frontend/src/utils/logger.ts\<close>.

  The gateway.

  \<^item> \<open>Board_Manager\<close>: the rooms of \<open>gateway/src/boardManager.ts\<close>. They are a second
    implementation of the abstract board (the locale \<open>board_machine\<close> again), and who is in them is the
    locale \<open>membership\<close>. The client used without replicas (\<open>gateway/src/raftClient.ts\<close>) is here too.
  \<^item> \<open>Security\<close>: \<open>gateway/src/security.ts\<close>, on the values that \<open>JSON.parse\<close> can return. The width and the points
    of a stroke stay such values all the way to the canvas, as nobody checks those of an undo or redo.
  \<^item> \<open>Gateway\<close>: admission, messages and closing of connections, \<open>gateway/src/wsServer.ts\<close> and
    \<open>gateway/src/messageHandler.ts\<close>, with the handlers cut at their \<open>await\<close>s. The locale
    \<open>raft_client\<close> is the interface \<open>RaftClient\<close> the second halves (\<open>settle\<close>) call; it is interpreted on
    the client without replicas here and on the remote one in \<open>Deployment\<close>.
    \<open>Gateway_Inv\<close>: the runs of a gateway (\<open>gw_step\<close>; \<open>gw_run\<close> also keeps whose join was handled) and their invariants.
  \<^item> \<open>Remote_Client\<close>: \<open>gateway/src/remoteRaftClient.ts\<close> over an arbitrary \<open>network\<close>.
  \<^item> \<open>Gateway_Service\<close>: \<open>gateway/src/config.ts\<close>, \<open>gateway/src/clusterStatus.ts\<close> with its timeouts,
    and the HTTP handler and main module of \<open>gateway/src/index.ts\<close>.
  \<^item> \<open>Deployment\<close>: the replicas' routes as the network of the gateway's client.

  The browser.

  \<^item> \<open>Frontend_Board\<close>: \<open>frontend/src/hooks/useBoard.ts\<close>, what one browser shows and its
    pending writes. \<open>Frontend_Drawing\<close>: \<open>useDrawing.ts\<close>, \<open>strokeUtils.ts\<close> and
    \<open>constants.ts\<close>. \<open>Frontend_Socket\<close>: \<open>useWebSocket.ts\<close> with every socket it makes.
  \<^item> \<open>Frontend_Canvas\<close>: what \<open>frontend/src/components/Canvas.tsx\<close> has painted, until a stroke makes the painting
    throw and React takes the page down. \<open>Frontend_Pages\<close>:
    the board code, the toolbar and the dashboard.
  \<^item> \<open>Messages\<close>: the messages of \<open>frontend/src/types.ts\<close> as JSON, how the gateway reads one and how
    \<open>ws.onmessage\<close> hands one on; nothing is lost on the way (\<open>messages_survive_the_wire\<close>).
  \<^item> \<open>Frontend_App\<close>: one open board, \<open>frontend/src/pages/Board.tsx\<close>, with the four hooks' states in
    one record and a step (\<open>page_step\<close>) for everything the user and the socket do.
  \<^item> \<open>Session\<close>: pages, gateway and replicas together.

  What is proved, and how it rests on each other.

  \<^item> \<open>Node_Inv\<close> and \<open>Async_Inv\<close>: the invariant \<open>node_inv\<close> (a gapless log, ordered indices,
    committed means applied, the disk holds what the node works with) through every operation, and
    the recovery of a node from its store.
  \<^item> \<open>Replica_Machine\<close>: one replica as a state machine over the events that can happen to it
    (\<open>node_event\<close>, \<open>deliver\<close>), the states reachable from an empty disk, and the order
    \<open>moves_on\<close> in which it moves. The entries of an AppendEntries or of a catch-up answer are
    assumed to run on without a gap (\<open>event_wf\<close>), which \<open>Leader_Props\<close> proves of what a leader sends; that those of a
    catch-up answer continue the log is a condition on when it comes (below). A restart falls between two handlers.
  \<^item> \<open>Crash_Points\<close>: the invariant for a replica that may crash between any two disk calls of a handler
    (\<open>replica_state\<close>; \<open>safely\<close> says of each operation that every first part of its calls leaves a store that can be
    opened), with the catch-up requests under way in the state. It leaves out one window and one kind of late answer, and
    proves for both that they break a replica.
  \<^item> \<open>Votes\<close>: what each operation does to term, vote and role, with no assumption on messages.
  \<^item> \<open>Cluster\<close>: the members and the network, and the invariant behind election safety.
    Messages are kept in sets, so they may be lost, delayed, reordered and repeated; members restart on
    their disks at any time; the answers to calls other than votes are arbitrary. The members are assumed
    to have distinct names and to list each other once, and every member has \<open>FilePersistence\<close>.
  \<^item> \<open>Cluster_Runs\<close>: the properties of the cluster, and an executable run that shows two replicas
    committing different entries at one index. \<open>Cluster_Failures\<close>: two more such runs, a lost write
    that is acknowledged and a confirmed read that misses a write.
  \<^item> \<open>Log_Matching\<close>: every log that a member ever had matches every other, and a message in flight is a
    piece of one of them; in the runs in which entries come from AppendEntries alone, up to the first snapshot
    (\<open>plain_run\<close>), members that agree on the term at an index agree on everything below it. The catch-up
    call is outside these runs, and a run shows why. The field \<open>caughtUp\<close> of \<open>cluster\<close> exists for this
    purpose only: it records whether a catch-up answer was ever applied; no operation reads it.
  \<^item> \<open>Ledger\<close> and \<open>Leader_Completeness\<close>: the same plain runs with a ledger beside the cluster, of the
    logs that its members had in each term, and had as leaders and as candidates; its invariant \<open>complete\<close> is carried through
    every step, and gives leader completeness and the agreement of the entries that majorities stored. They
    speak of what is stored, not of what a leader believes to be stored: \<open>Stale_Answers\<close> is a run in which
    a leader counts an answer of an earlier term.
  \<^item> \<open>Client_Writes\<close>: a client write as a run of the events of its waits (\<open>whole_write\<close>), what holds while it waits
    (\<open>reign\<close>, \<open>tenure\<close>, kept by every event in which the term stays), and that the history of a board only
    grows; together they say what a successful write means, and keep an acknowledged stroke. Both need that the term
    stays, as the code does not check it (\<open>Cluster_Failures\<close>), and that no late catch-up answer comes.
  \<^item> \<open>Replica_Process\<close>: the invariant \<open>alert\<close> of a replica that is up, proved from what each operation
    does to role and timers (\<open>calm\<close>, \<open>attends\<close>).
  \<^item> \<open>Replica_Props\<close>, \<open>Handler_Props\<close>, \<open>Leader_Props\<close>, \<open>Follower_Props\<close>,
    \<open>Snapshot_Props\<close>, \<open>Local_Props\<close>, \<open>Store_Props\<close>: the properties of one replica and its files.
  \<^item> \<open>Convergence\<close>: the rounds of replication between a leader and a follower that lags behind it
    bring the follower's log, commit index and boards up to the leader's, within a bound.
  \<^item> \<open>Gateway_Props\<close>: the rooms show what a replica's board shows, only well-formed strokes of the
    connection get through and at a bounded rate, who is let in, and what a write or a read of the
    remote client means. \<open>Frontend_Props\<close>: a client shows the board and paints it, takes back what failed,
    and keeps one socket alive.
  \<^item> \<open>Deployment\<close>: what a browser is sent was acknowledged by a leader that counted a majority (and is committed, if its
    term lasted), or confirmed by one; it composes the lemmas of the remote client with those of the leader. What a
    leader counts is what it was answered: that a majority stores it is proved of plain runs only.
  \<^item> \<open>Frontend_App\<close> and \<open>Session\<close>: what a page sends passes the gateway; what a page that opens shows and has
    painted, also when messages come before its join answer; a stroke that is drawn is shown to everyone or taken
    back, as the gateway's client reports; and one message that takes pages down.

  Each property with hypotheses has an instance at a concrete input.

  Conventions. Terms, indices, counters and milliseconds of the replicas are natural numbers: the code
  keeps them in doubles that stay below $2^{53}$. The numbers of a message from a browser are \<open>number\<close>:
  a finite value or an infinity, where only finiteness, integrality and order matter. Strings are lists
  of UTF-16 code units below 256. What the environment decides is an argument: the answers of peers, the
  time, random draws, which sockets are open, and what JSON does (\<open>json_codec\<close> in \<open>File_Store\<close>,
  parsed values elsewhere). An update of React state is made where it is called.

  Bounds. Every loop of the model is structural or comes with a measure (\<open>apply_loop\<close>), so no fuel is
  used: a client write of the replica makes the three rounds of the code, one of the gateway its five
  attempts, each with at most one redirection per target. \<open>Convergence\<close> iterates a round a given
  number of times and proves that $2 + L \mathbin{div} cap$ rounds are enough.

  Not modelled: Express, \<open>ws\<close> and \<open>fetch\<close>, whose outcomes are the arguments above; binding ports and
  ending processes; errors of the file system other than a crash; when the operations log; join messages whose ids are not strings and messages outside
  the interfaces; and of the React components the layout, the routes of \<open>App.tsx\<close> and the geometry of the
  canvas (\<open>getCanvasPoint\<close>, floating point arithmetic on the position of an element). Benchmarks, tests and
  tool configuration are left out.

  What the proofs found of the code is stated as theorems too. In the replica: the heartbeat that
  commits a conflicting tail, the catch-up call that does the same, the catch-up answer that comes too late and leaves a gap, the answer of an earlier term that is counted in a later one, the write that is acknowledged after it was overwritten, the confirmed read of
  a new leader that misses acknowledged strokes, the conflicting tail that is never repaired, the second vote
  of a demoted candidate, the crash while a snapshot is installed, the board named \<open>__proto__\<close>, the torn
  line of the log that takes the next entry with it, the shutdown that a message undoes, and the peer that a
  trailing comma adds. In the gateway: the token that makes the comparison throw, the token that does not
  reach the WebSocket, the join that is not bound to its connection, the unconfirmed read that looks like an
  empty board, the retry that writes a stroke twice, and the undo that is let through, taken for a drawing and
  breaks every page of its board. In the browser: the redo that a late joiner misses,
  the refused stroke that stays on the screen, the early stroke that keeps one of the board from being painted, the stroke drawn offline that stays painted, the picture that is
  not repainted after a reconnection, and the hook that connects again after it was cleaned up.
\<close>

end
